(* ===== verification/Go_Prelude.thy ===== *)
theory Go_Prelude
  imports Main "HOL-Library.Char_ord" "HOL-Library.List_Lexorder"
begin

text \<open>
  Shared vocabulary of the development: the parts of the Go language the sources of
  \<^verbatim>\<open>internal/\<close> rely on, and the generic facts the component theories use.

  \<^item> Go's \<^verbatim>\<open>int\<close> and \<^verbatim>\<open>int64\<close> are \<open>int\<close>s with the two's complement wrap-around
    written out (\<open>wrap64\<close>); \<^verbatim>\<open>uint64\<close> is \<open>nat\<close> with \<open>u64\<close>.
  \<^item> A Go \<^verbatim>\<open>string\<close> (and a \<^verbatim>\<open>[]byte\<close>) is a list of bytes, the type \<open>string\<close>;
    \<^verbatim>\<open>len\<close> counts bytes and \<^verbatim>\<open><=\<close> compares bytewise, which is the order that
    \<^verbatim>\<open>Char_ord\<close> and \<^verbatim>\<open>List_Lexorder\<close> give to \<open>string\<close>.
  \<^item> A call ends in one of three ways: it returns normally, it returns a non-nil
    \<^verbatim>\<open>error\<close>, or it panics; \<open>go_result\<close> has one constructor for each. A loop that
    may run for ever has an \<open>option\<close> result, \<open>None\<close> being "does not return".
\<close>

named_theorems go_arith \<open>facts that remove wrap-around for values in range\<close>

section \<open>Machine integers\<close>

definition wrap64 :: "int \<Rightarrow> int" where
  "wrap64 x = (x + 2 ^ 63) mod 2 ^ 64 - 2 ^ 63"

definition in_int64 :: "int \<Rightarrow> bool" where
  "in_int64 x \<longleftrightarrow> - (2 ^ 63) \<le> x \<and> x < 2 ^ 63"

definition u64 :: "nat \<Rightarrow> nat" where
  "u64 x = x mod 2 ^ 64"

section \<open>Results, strings and slices\<close>

datatype ('e, 'a) go_result = Ok 'a | Err 'e | Panic

definition go_len :: "string \<Rightarrow> int" where
  "go_len s = int (length s)"

text \<open>The slice expression \<^verbatim>\<open>s[lo:hi]\<close>; \<open>None\<close> is the run-time panic.\<close>

definition go_slice :: "string \<Rightarrow> int \<Rightarrow> int \<Rightarrow> string option" where
  "go_slice s lo hi =
     (if 0 \<le> lo \<and> lo \<le> hi \<and> hi \<le> go_len s
      then Some (take (nat (hi - lo)) (drop (nat lo) s)) else None)"

text \<open>The index expression \<^verbatim>\<open>xs[i]\<close> on a slice; \<open>None\<close> is the run-time panic.\<close>

definition go_index :: "'a list \<Rightarrow> int \<Rightarrow> 'a option" where
  "go_index xs i = (if 0 \<le> i \<and> i < int (length xs) then Some (xs ! nat i) else None)"

section \<open>Generic lemmas\<close>

lemma wrap64_id [go_arith]: "- (2 ^ 63) \<le> x \<Longrightarrow> x < 2 ^ 63 \<Longrightarrow> wrap64 x = x"
  by (simp add: wrap64_def)

lemma wrap64_range: "in_int64 (wrap64 x)"
  by (auto simp: wrap64_def in_int64_def)

lemma wrap64_nonneg [go_arith]: "0 \<le> x \<Longrightarrow> x < 2 ^ 63 \<Longrightarrow> wrap64 x = x"
  by (rule wrap64_id) auto

lemma u64_id [go_arith]: "x < 2 ^ 64 \<Longrightarrow> u64 x = x"
  by (simp add: u64_def)

lemma u64_less: "u64 x < 2 ^ 64"
  by (simp add: u64_def)

lemma go_len_nonneg [simp]: "0 \<le> go_len s"
  by (simp add: go_len_def)

lemma go_len_Nil [simp]: "go_len [] = 0"
  by (simp add: go_len_def)

lemma go_len_append [simp]: "go_len (s @ t) = go_len s + go_len t"
  by (simp add: go_len_def)

lemma go_len_zero [simp]: "go_len s = 0 \<longleftrightarrow> s = []"
  by (simp add: go_len_def)

lemma go_slice_Some:
  "0 \<le> lo \<Longrightarrow> lo \<le> hi \<Longrightarrow> hi \<le> go_len s \<Longrightarrow>
     go_slice s lo hi = Some (take (nat (hi - lo)) (drop (nat lo) s))"
  by (simp add: go_slice_def)

lemma go_index_Some: "0 \<le> i \<Longrightarrow> i < int (length xs) \<Longrightarrow> go_index xs i = Some (xs ! nat i)"
  by (simp add: go_index_def)

lemma go_index_None: "i < 0 \<Longrightarrow> go_index xs i = None"
  by (simp add: go_index_def)

lemma last_snoc_butlast: "xs \<noteq> [] \<Longrightarrow> butlast xs @ last xs # ys = xs @ ys"
  by (metis append_Cons append_Nil append_assoc append_butlast_last_id)

end
