(* ===== verification/OT_Changeset.thy ===== *)
theory OT_Changeset
  imports Go_Prelude
begin

text \<open>
  The data model of package \<^verbatim>\<open>ot\<close>: \<^verbatim>\<open>internal/ot/changeset.go\<close> and
  \<^verbatim>\<open>internal/ot/apply.go\<close>. The first part translates the Go code; the second part
  defines the abstract view (lists of edits with unbounded lengths, and what they do to a
  text) on which the theories of \<^verbatim>\<open>Compose\<close> and \<^verbatim>\<open>Follow\<close> reason; the third part
  relates the two.
\<close>

section \<open>Data model\<close>

text \<open>
  \<^verbatim>\<open>OpType\<close> is a Go string with three named values. Any other string that the JSON
  decoder may leave there is \<open>OpOther\<close>.
\<close>

datatype OpType = OpRetain | OpInsert | OpDelete | OpOther string

record Op =
  op_Type :: OpType
  op_Len :: int
  op_Chars :: string

record Changeset =
  OldLen :: int
  NewLen :: int
  Ops :: "Op list"

text \<open>The three composite literals \<^verbatim>\<open>Op{Type: ..., Len: ...}\<close> the package builds.\<close>

definition retainOp :: "int \<Rightarrow> Op" where
  "retainOp n = \<lparr>op_Type = OpRetain, op_Len = n, op_Chars = []\<rparr>"

definition insertOp :: "string \<Rightarrow> Op" where
  "insertOp s = \<lparr>op_Type = OpInsert, op_Len = 0, op_Chars = s\<rparr>"

definition deleteOp :: "int \<Rightarrow> Op" where
  "deleteOp n = \<lparr>op_Type = OpDelete, op_Len = n, op_Chars = []\<rparr>"

section \<open>changeset.go\<close>

definition Identity :: "int \<Rightarrow> Changeset" where
  "Identity n =
     (if n = 0 then \<lparr>OldLen = 0, NewLen = 0, Ops = []\<rparr>
      else \<lparr>OldLen = n, NewLen = n, Ops = [retainOp n]\<rparr>)"

definition IsIdentity :: "Changeset \<Rightarrow> bool" where
  "IsIdentity c =
     (if OldLen c \<noteq> NewLen c then False
      else if OldLen c = 0 \<and> Ops c = [] then True
      else case Ops c of
             [op] \<Rightarrow> op_Type op = OpRetain \<and> op_Len op = OldLen c
           | _ \<Rightarrow> False)"

definition TextToChangeset :: "string \<Rightarrow> Changeset" where
  "TextToChangeset text =
     (let n = go_len text in
      if n = 0 then \<lparr>OldLen = 0, NewLen = 0, Ops = []\<rparr>
      else \<lparr>OldLen = 0, NewLen = n, Ops = [insertOp text]\<rparr>)"

definition MakeInsert :: "int \<Rightarrow> int \<Rightarrow> string \<Rightarrow> Changeset" where
  "MakeInsert oldLen pos text =
     (let ops0 = (if pos > 0 then [retainOp pos] else []);
          ops1 = ops0 @ [insertOp text];
          tail = wrap64 (oldLen - pos);
          ops2 = (if tail > 0 then ops1 @ [retainOp tail] else ops1)
      in \<lparr>OldLen = oldLen, NewLen = wrap64 (oldLen + go_len text), Ops = ops2\<rparr>)"

definition MakeDelete :: "int \<Rightarrow> int \<Rightarrow> int \<Rightarrow> Changeset" where
  "MakeDelete oldLen pos count =
     (let ops0 = (if pos > 0 then [retainOp pos] else []);
          ops1 = ops0 @ [deleteOp count];
          tail = wrap64 (wrap64 (oldLen - pos) - count);
          ops2 = (if tail > 0 then ops1 @ [retainOp tail] else ops1)
      in \<lparr>OldLen = oldLen, NewLen = wrap64 (oldLen - count), Ops = ops2\<rparr>)"

datatype validate_error =
    RetainNotPositive int
  | InsertEmpty
  | DeleteNotPositive int
  | UnknownOpType string
  | ConsumeMismatch int int
  | ProduceMismatch int int

fun validate_loop :: "Op list \<Rightarrow> int \<Rightarrow> int \<Rightarrow> validate_error + int \<times> int" where
  "validate_loop [] sourceConsumed newLen = Inr (sourceConsumed, newLen)"
| "validate_loop (op # ops) sourceConsumed newLen =
     (case op_Type op of
        OpRetain \<Rightarrow>
          if op_Len op \<le> 0 then Inl (RetainNotPositive (op_Len op))
          else validate_loop ops (wrap64 (sourceConsumed + op_Len op))
                 (wrap64 (newLen + op_Len op))
      | OpInsert \<Rightarrow>
          if go_len (op_Chars op) = 0 then Inl InsertEmpty
          else validate_loop ops sourceConsumed (wrap64 (newLen + go_len (op_Chars op)))
      | OpDelete \<Rightarrow>
          if op_Len op \<le> 0 then Inl (DeleteNotPositive (op_Len op))
          else validate_loop ops (wrap64 (sourceConsumed + op_Len op)) newLen
      | OpOther t \<Rightarrow> Inl (UnknownOpType t))"

text \<open>\<^verbatim>\<open>Validate\<close> returns a Go \<^verbatim>\<open>error\<close>; \<open>None\<close> is \<^verbatim>\<open>nil\<close>.\<close>

definition Validate :: "Changeset \<Rightarrow> validate_error option" where
  "Validate c =
     (case validate_loop (Ops c) 0 0 of
        Inl e \<Rightarrow> Some e
      | Inr (sourceConsumed, newLen) \<Rightarrow>
          if sourceConsumed \<noteq> OldLen c then Some (ConsumeMismatch sourceConsumed (OldLen c))
          else if newLen \<noteq> NewLen c then Some (ProduceMismatch newLen (NewLen c))
          else None)"

section \<open>apply.go\<close>

datatype apply_error =
    OldLenMismatch int int
  | RetainExceeds int int int
  | DeleteExceeds int int int
  | ApplyUnknownOp string
  | NotAllConsumed int int

fun apply_loop :: "string \<Rightarrow> Op list \<Rightarrow> int \<Rightarrow> string \<Rightarrow> (apply_error, string \<times> int) go_result" where
  "apply_loop text [] srcPos result = Ok (result, srcPos)"
| "apply_loop text (op # ops) srcPos result =
     (case op_Type op of
        OpRetain \<Rightarrow>
          if wrap64 (srcPos + op_Len op) > go_len text
          then Err (RetainExceeds (op_Len op) srcPos (go_len text))
          else (case go_slice text srcPos (wrap64 (srcPos + op_Len op)) of
                  None \<Rightarrow> Panic
                | Some piece \<Rightarrow>
                    apply_loop text ops (wrap64 (srcPos + op_Len op)) (result @ piece))
      | OpInsert \<Rightarrow> apply_loop text ops srcPos (result @ op_Chars op)
      | OpDelete \<Rightarrow>
          if wrap64 (srcPos + op_Len op) > go_len text
          then Err (DeleteExceeds (op_Len op) srcPos (go_len text))
          else apply_loop text ops (wrap64 (srcPos + op_Len op)) result
      | OpOther t \<Rightarrow> Err (ApplyUnknownOp t))"

text \<open>
  \<^verbatim>\<open>strings.Builder.Grow\<close> panics on a negative argument, hence the second test. (That
  the allocation it makes for an absurdly large \<^verbatim>\<open>NewLen\<close> can fail is outside the
  model.)
\<close>

definition ApplyChangeset :: "string \<Rightarrow> Changeset \<Rightarrow> (apply_error, string) go_result" where
  "ApplyChangeset text c =
     (if OldLen c \<noteq> go_len text then Err (OldLenMismatch (OldLen c) (go_len text))
      else if NewLen c < 0 then Panic
      else case apply_loop text (Ops c) 0 [] of
             Panic \<Rightarrow> Panic
           | Err e \<Rightarrow> Err e
           | Ok (result, srcPos) \<Rightarrow>
               if srcPos \<noteq> go_len text then Err (NotAllConsumed srcPos (go_len text))
               else Ok result)"

section \<open>Abstract view: edits\<close>

text \<open>
  An operation of a valid changeset, with its length as an unbounded natural number.
  \<open>apply_edits\<close> is what a list of edits does to a text; \<open>None\<close> when the text is not
  consumed exactly.
\<close>

datatype edit = Keep nat | Ins string | Del nat

fun apply_edits :: "edit list \<Rightarrow> string \<Rightarrow> string option" where
  "apply_edits [] text = (if text = [] then Some [] else None)"
| "apply_edits (Keep n # es) text =
     (if n \<le> length text
      then map_option ((@) (take n text)) (apply_edits es (drop n text)) else None)"
| "apply_edits (Ins s # es) text = map_option ((@) s) (apply_edits es text)"
| "apply_edits (Del n # es) text =
     (if n \<le> length text then apply_edits es (drop n text) else None)"

fun src_span :: "edit \<Rightarrow> nat" where
  "src_span (Keep n) = n"
| "src_span (Ins s) = 0"
| "src_span (Del n) = n"

fun dst_span :: "edit \<Rightarrow> nat" where
  "dst_span (Keep n) = n"
| "dst_span (Ins s) = length s"
| "dst_span (Del n) = 0"

abbreviation src_len :: "edit list \<Rightarrow> nat" where
  "src_len es \<equiv> sum_list (map src_span es)"

abbreviation dst_len :: "edit list \<Rightarrow> nat" where
  "dst_len es \<equiv> sum_list (map dst_span es)"

fun proper :: "edit \<Rightarrow> bool" where
  "proper (Keep n) = (0 < n)"
| "proper (Ins s) = (s \<noteq> [])"
| "proper (Del n) = (0 < n)"

fun is_Ins :: "edit \<Rightarrow> bool" where
  "is_Ins (Ins s) = True"
| "is_Ins _ = False"

definition op_edit :: "Op \<Rightarrow> edit" where
  "op_edit op = (case op_Type op of
      OpRetain \<Rightarrow> Keep (nat (op_Len op))
    | OpInsert \<Rightarrow> Ins (op_Chars op)
    | OpDelete \<Rightarrow> Del (nat (op_Len op))
    | OpOther _ \<Rightarrow> Keep 0)"

fun edit_op :: "edit \<Rightarrow> Op" where
  "edit_op (Keep n) = retainOp (int n)"
| "edit_op (Ins s) = insertOp s"
| "edit_op (Del n) = deleteOp (int n)"

text \<open>An operation \<^verbatim>\<open>Validate\<close> accepts: a known type and a positive length.\<close>

definition op_ok :: "Op \<Rightarrow> bool" where
  "op_ok op = (case op_Type op of
      OpRetain \<Rightarrow> 0 < op_Len op
    | OpInsert \<Rightarrow> op_Chars op \<noteq> []
    | OpDelete \<Rightarrow> 0 < op_Len op
    | OpOther _ \<Rightarrow> False)"

abbreviation edits :: "Op list \<Rightarrow> edit list" where
  "edits ops \<equiv> map op_edit ops"

text \<open>
  Well-formed changesets: what \<^verbatim>\<open>Validate\<close> means to accept, with the sums taken without
  wrap-around. \<open>canonical\<close> is the form \<^verbatim>\<open>addOp\<close> builds as far as inserts are
  concerned: no insert directly follows another.
\<close>

definition wf_changeset :: "Changeset \<Rightarrow> bool" where
  "wf_changeset c \<longleftrightarrow>
     list_all op_ok (Ops c) \<and>
     int (src_len (edits (Ops c))) = OldLen c \<and>
     int (dst_len (edits (Ops c))) = NewLen c \<and>
     OldLen c < 2 ^ 63 \<and> NewLen c < 2 ^ 63"

fun no_adjacent_ins :: "edit list \<Rightarrow> bool" where
  "no_adjacent_ins (Ins s # Ins t # es) = False"
| "no_adjacent_ins (e # es) = no_adjacent_ins es"
| "no_adjacent_ins [] = True"

definition canonical :: "Changeset \<Rightarrow> bool" where
  "canonical c = no_adjacent_ins (edits (Ops c))"

section \<open>Lemmas on edits\<close>

lemma apply_edits_total:
  "length doc = src_len es \<Longrightarrow> \<exists>s. apply_edits es doc = Some s"
proof (induction es arbitrary: doc)
  case Nil
  then show ?case by simp
next
  case (Cons e es)
  then show ?case by (cases e) auto
qed

lemma apply_edits_length:
  "apply_edits es doc = Some s \<Longrightarrow> length doc = src_len es \<and> length s = dst_len es"
proof (induction es arbitrary: doc s)
  case Nil
  then show ?case by (simp split: if_splits)
next
  case (Cons e es)
  then show ?case by (cases e) (fastforce split: if_splits)+
qed

lemma apply_edits_append:
  "length doc1 = src_len es1 \<Longrightarrow>
   apply_edits (es1 @ es2) (doc1 @ doc2) =
     (case apply_edits es1 doc1 of
        None \<Rightarrow> None
      | Some s1 \<Rightarrow> map_option ((@) s1) (apply_edits es2 doc2))"
proof (induction es1 arbitrary: doc1)
  case Nil
  then show ?case by (cases "apply_edits es2 doc2") auto
next
  case (Cons e es)
  then show ?case
    by (cases e; cases "apply_edits es2 doc2") (auto split: option.splits)
qed

lemma op_ok_simps [simp]:
  "op_ok (retainOp n) = (0 < n)" "op_ok (insertOp s) = (s \<noteq> [])" "op_ok (deleteOp n) = (0 < n)"
  by (simp_all add: op_ok_def retainOp_def insertOp_def deleteOp_def)

lemma op_edit_simps [simp]:
  "op_edit (retainOp n) = Keep (nat n)" "op_edit (insertOp s) = Ins s"
  "op_edit (deleteOp n) = Del (nat n)"
  by (simp_all add: op_edit_def retainOp_def insertOp_def deleteOp_def)

lemma op_edit_edit_op [simp]: "op_edit (edit_op e) = e"
  by (cases e) auto

lemma op_ok_edit_op [simp]: "op_ok (edit_op e) = proper e"
  by (cases e) auto

lemma proper_op_edit: "op_ok op \<Longrightarrow> proper (op_edit op)"
  by (auto simp: op_ok_def op_edit_def split: OpType.splits)

lemma op_ok_cases:
  assumes "op_ok op"
  obtains n where "op_Type op = OpRetain" "op_Len op = int n" "0 < n" "op_edit op = Keep n"
    | s where "op_Type op = OpInsert" "op_Chars op = s" "s \<noteq> []" "op_edit op = Ins s"
    | n where "op_Type op = OpDelete" "op_Len op = int n" "0 < n" "op_edit op = Del n"
proof (cases "op_Type op")
  case OpRetain
  then show thesis using assms that(1) [of "nat (op_Len op)"]
    by (simp add: op_ok_def op_edit_def)
next
  case OpInsert
  then show thesis using assms that(2) by (simp add: op_ok_def op_edit_def)
next
  case OpDelete
  then show thesis using assms that(3) [of "nat (op_Len op)"]
    by (simp add: op_ok_def op_edit_def)
next
  case (OpOther t)
  then show thesis using assms by (simp add: op_ok_def)
qed

section \<open>Validate and ApplyChangeset against the abstract view\<close>

lemma validate_loop_ok:
  assumes "list_all op_ok ops" and "0 \<le> a" and "0 \<le> b"
    and "a + int (src_len (edits ops)) < 2 ^ 63" and "b + int (dst_len (edits ops)) < 2 ^ 63"
  shows "validate_loop ops a b =
           Inr (a + int (src_len (edits ops)), b + int (dst_len (edits ops)))"
  using assms
proof (induction ops arbitrary: a b)
  case Nil
  then show ?case by simp
next
  case (Cons op ops)
  from Cons.prems(1) have "op_ok op" by simp
  then show ?case
    by (cases rule: op_ok_cases)
      (use Cons in \<open>auto simp: wrap64_nonneg go_len_def algebra_simps\<close>)
qed

lemma Validate_wf: "wf_changeset c \<Longrightarrow> Validate c = None"
  using validate_loop_ok [of "Ops c" 0 0] by (simp add: Validate_def wf_changeset_def)

lemma validate_loop_Inr_ok: "validate_loop ops a b = Inr p \<Longrightarrow> list_all op_ok ops"
  by (induction ops arbitrary: a b)
    (auto simp: op_ok_def split: OpType.splits if_splits)

lemma apply_loop_edits:
  assumes "list_all op_ok ops" and "pos + src_len (edits ops) \<le> length doc"
    and "go_len doc < 2 ^ 63"
  shows "\<exists>out. apply_edits (edits ops) (take (src_len (edits ops)) (drop pos doc)) = Some out \<and>
           apply_loop doc ops (int pos) res =
             Ok (res @ out, int (pos + src_len (edits ops)))"
  using assms
proof (induction ops arbitrary: pos res)
  case Nil
  then show ?case by simp
next
  case (Cons op ops)
  from Cons.prems(1) have "op_ok op" by simp
  then show ?case
  proof (cases rule: op_ok_cases)
    case (1 n)
    let ?piece = "take n (drop pos doc)"
    from Cons.IH [of "pos + n" "res @ ?piece"] Cons.prems 1 obtain out
      where out: "apply_edits (edits ops) (take (src_len (edits ops)) (drop (pos + n) doc)) = Some out"
        and loop: "apply_loop doc ops (int (pos + n)) (res @ ?piece) =
             Ok ((res @ ?piece) @ out, int (pos + n + src_len (edits ops)))"
      by auto
    from Cons.prems 1 have w: "wrap64 (int pos + int n) = int (pos + n)"
      by (simp add: wrap64_nonneg go_len_def)
    from Cons.prems 1 have sl: "go_slice doc (int pos) (int (pos + n)) = Some ?piece"
      by (simp add: go_slice_def go_len_def)
    have d: "drop n (take (n + src_len (edits ops)) (drop pos doc)) =
        take (src_len (edits ops)) (drop (pos + n) doc)"
      by (simp add: drop_take add.commute)
    have m: "min n (n + src_len (edits ops)) = n" by simp
    from 1 Cons.prems have le: "n \<le> length (drop pos doc)" by simp
    from 1 Cons.prems out loop w sl d m le show ?thesis
      by (simp add: go_len_def ac_simps del: length_drop)
  next
    case (2 s)
    from Cons.IH [of pos "res @ s"] Cons.prems 2 show ?thesis by auto
  next
    case (3 n)
    from Cons.IH [of "pos + n" res] Cons.prems 3 obtain out
      where out: "apply_edits (edits ops) (take (src_len (edits ops)) (drop (pos + n) doc)) = Some out"
        and loop: "apply_loop doc ops (int (pos + n)) res =
             Ok (res @ out, int (pos + n + src_len (edits ops)))"
      by auto
    from Cons.prems 3 have w: "wrap64 (int pos + int n) = int (pos + n)"
      by (simp add: wrap64_nonneg go_len_def)
    have d: "drop n (take (n + src_len (edits ops)) (drop pos doc)) =
        take (src_len (edits ops)) (drop (pos + n) doc)"
      by (simp add: drop_take add.commute)
    from 3 Cons.prems out loop w d show ?thesis
      by (simp add: go_len_def ac_simps)
  qed
qed

lemma ApplyChangeset_edits:
  assumes "wf_changeset c" and "OldLen c = go_len doc"
  shows "ApplyChangeset doc c = Ok s \<longleftrightarrow> apply_edits (edits (Ops c)) doc = Some s"
proof -
  let ?es = "edits (Ops c)"
  from assms have ok: "list_all op_ok (Ops c)" and len: "src_len ?es = length doc"
    and b: "go_len doc < 2 ^ 63" and nn: "\<not> NewLen c < 0"
    by (auto simp: wf_changeset_def go_len_def)
  from apply_loop_edits [OF ok, of 0 doc "[]"] len b obtain out
    where "apply_edits ?es doc = Some out"
      and "apply_loop doc (Ops c) 0 [] = Ok (out, int (length doc))"
    by auto
  with assms nn show ?thesis by (auto simp: ApplyChangeset_def go_len_def)
qed

lemma ApplyChangeset_wf_Ok:
  assumes "wf_changeset c" and "OldLen c = go_len doc"
  obtains s where "ApplyChangeset doc c = Ok s" "go_len s = NewLen c"
    "apply_edits (edits (Ops c)) doc = Some s"
proof -
  from assms have "length doc = src_len (edits (Ops c))"
    by (simp add: wf_changeset_def go_len_def)
  then obtain s where s: "apply_edits (edits (Ops c)) doc = Some s"
    using apply_edits_total by blast
  then have "ApplyChangeset doc c = Ok s"
    using ApplyChangeset_edits [OF assms] by blast
  moreover from apply_edits_length [OF s] assms have "go_len s = NewLen c"
    by (simp add: wf_changeset_def go_len_def)
  ultimately show thesis using that s by blast
qed

lemma validate_loop_Inr_exact:
  assumes "validate_loop ops 0 0 = Inr (a, b)" and "src_len (edits ops) < 2 ^ 63" and "dst_len (edits ops) < 2 ^ 63"
  shows "a = int (src_len (edits ops)) \<and> b = int (dst_len (edits ops))"
  using validate_loop_ok [OF validate_loop_Inr_ok [OF assms(1)], of 0 0] assms by simp

lemma ApplyChangeset_by_edits:
  "wf_changeset c \<Longrightarrow> OldLen c = go_len doc \<Longrightarrow> apply_edits (edits (Ops c)) doc = Some s \<Longrightarrow>
     ApplyChangeset doc c = Ok s"
  using ApplyChangeset_edits by blast

lemma Identity_wf: "0 \<le> n \<Longrightarrow> n < 2 ^ 63 \<Longrightarrow> wf_changeset (Identity n)"
  by (simp add: Identity_def wf_changeset_def)

lemma MakeInsert_wf:
  assumes "0 \<le> pos" "pos \<le> oldLen" "s \<noteq> []" "oldLen + go_len s < 2 ^ 63"
  shows "wf_changeset (MakeInsert oldLen pos s)"
proof -
  have "0 < go_len s" using assms(3) by (simp add: go_len_def)
  then have "wrap64 (oldLen - pos) = oldLen - pos" "wrap64 (oldLen + go_len s) = oldLen + go_len s" "oldLen < 2 ^ 63"
    using assms by (auto intro!: wrap64_nonneg)
  with assms show ?thesis by (auto simp: MakeInsert_def wf_changeset_def Let_def go_len_def)
qed

lemma MakeDelete_wf:
  assumes "0 \<le> pos" "0 < count" "pos + count \<le> oldLen" "oldLen < 2 ^ 63"
  shows "wf_changeset (MakeDelete oldLen pos count)"
proof -
  have "wrap64 (oldLen - pos) = oldLen - pos" "wrap64 (oldLen - pos - count) = oldLen - pos - count"
    "wrap64 (oldLen - count) = oldLen - count"
    using assms by (auto intro!: wrap64_nonneg)
  with assms show ?thesis by (auto simp: MakeDelete_def wf_changeset_def Let_def)
qed

section \<open>Properties\<close>

text \<open>
  C25. \<^verbatim>\<open>Validate\<close> accepts exactly the well-formed changesets, as long as no sum of lengths
  overflows: every operation has a known type and a positive length, and the lengths add up to
  \<^verbatim>\<open>OldLen\<close> and \<^verbatim>\<open>NewLen\<close>. What it accepts then applies to every text of length
  \<^verbatim>\<open>OldLen\<close>, giving a text of length \<^verbatim>\<open>NewLen\<close>.
\<close>

theorem Validate_exact:
  assumes "src_len (edits (Ops c)) < 2 ^ 63" and "dst_len (edits (Ops c)) < 2 ^ 63"
  shows "(Validate c = None \<longleftrightarrow> wf_changeset c) \<and>
    (Validate c = None \<longrightarrow> (\<forall>doc. go_len doc = OldLen c \<longrightarrow> (\<exists>s. ApplyChangeset doc c = Ok s \<and> go_len s = NewLen c)))"
proof -
  have "wf_changeset c" if "Validate c = None"
  proof -
    have ab: "validate_loop (Ops c) 0 0 = Inr (OldLen c, NewLen c)"
      using that by (auto simp: Validate_def split: sum.splits if_splits)
    with validate_loop_Inr_exact [OF ab assms] validate_loop_Inr_ok [OF ab] assms show ?thesis
      by (auto simp: wf_changeset_def)
  qed
  moreover have "\<exists>s. ApplyChangeset doc c = Ok s \<and> go_len s = NewLen c" if "wf_changeset c" "go_len doc = OldLen c" for doc
    using ApplyChangeset_wf_Ok [OF that(1) that(2) [symmetric]] by blast
  ultimately show ?thesis using Validate_wf by blast
qed

theorem Validate_exact_witness:
  "wf_changeset \<lparr>OldLen = 3, NewLen = 3, Ops = [retainOp 1, insertOp ''x'', deleteOp 1, retainOp 1]\<rparr>"
  using Validate_exact [of "\<lparr>OldLen = 3, NewLen = 3, Ops = [retainOp 1, insertOp ''x'', deleteOp 1, retainOp 1]\<rparr>"]
  by (simp add: Validate_def retainOp_def insertOp_def deleteOp_def op_edit_def wrap64_def go_len_def)

text \<open>
  The constructors do what they say on a text of length \<^verbatim>\<open>oldLen\<close>: \<^verbatim>\<open>MakeInsert\<close>
  inserts at the position, \<^verbatim>\<open>MakeDelete\<close> removes the range, \<^verbatim>\<open>TextToChangeset\<close> builds the
  text from the empty one, \<^verbatim>\<open>Identity\<close> keeps it.
\<close>

theorem constructors_apply:
  assumes "go_len doc + go_len s < 2 ^ 63" and "p \<le> length doc" and "s \<noteq> []"
    and "0 < n" and "p + n \<le> length doc"
  shows "ApplyChangeset doc (MakeInsert (go_len doc) (int p) s) = Ok (take p doc @ s @ drop p doc) \<and>
    ApplyChangeset doc (MakeDelete (go_len doc) (int p) (int n)) = Ok (take p doc @ drop (p + n) doc) \<and>
    ApplyChangeset [] (TextToChangeset s) = Ok s \<and>
    ApplyChangeset doc (Identity (go_len doc)) = Ok doc"
proof (intro conjI)
  have len: "go_len doc < 2 ^ 63" "go_len s < 2 ^ 63" "length doc < 2 ^ 63"
    using assms(1) go_len_nonneg [of s] go_len_nonneg [of doc] by (auto simp: go_len_def)
  have w: "wrap64 (go_len doc - int p) = int (length doc - p)"
      "wrap64 (int (length doc - p) - int n) = int (length doc - (p + n))"
    using assms len by (auto simp: go_len_def wrap64_nonneg)
  have i: "edits (Ops (MakeInsert (go_len doc) (int p) s)) =
      (if 0 < p then [Keep p] else []) @ [Ins s] @ (if p < length doc then [Keep (length doc - p)] else [])"
    by (simp add: MakeInsert_def Let_def w nat_diff_distrib')
  show "ApplyChangeset doc (MakeInsert (go_len doc) (int p) s) = Ok (take p doc @ s @ drop p doc)"
  proof (rule ApplyChangeset_by_edits [OF MakeInsert_wf])
    show "apply_edits (edits (Ops (MakeInsert (go_len doc) (int p) s))) doc = Some (take p doc @ s @ drop p doc)"
      unfolding i using assms(2) by simp
  qed (use assms in \<open>simp_all add: MakeInsert_def Let_def go_len_def\<close>)
  have d: "edits (Ops (MakeDelete (go_len doc) (int p) (int n))) =
      (if 0 < p then [Keep p] else []) @ [Del n] @ (if p + n < length doc then [Keep (length doc - (p + n))] else [])"
    by (simp add: MakeDelete_def Let_def w nat_diff_distrib' nat_add_distrib)
  show "ApplyChangeset doc (MakeDelete (go_len doc) (int p) (int n)) = Ok (take p doc @ drop (p + n) doc)"
  proof (rule ApplyChangeset_by_edits [OF MakeDelete_wf])
    show "apply_edits (edits (Ops (MakeDelete (go_len doc) (int p) (int n)))) doc = Some (take p doc @ drop (p + n) doc)"
      unfolding d using assms(5) by (auto simp: add.commute)
  qed (use assms len in \<open>simp_all add: MakeDelete_def Let_def go_len_def\<close>)
  show "ApplyChangeset [] (TextToChangeset s) = Ok s"
    using len(2) assms(3) by (intro ApplyChangeset_by_edits) (simp_all add: TextToChangeset_def Let_def wf_changeset_def go_len_def)
  show "ApplyChangeset doc (Identity (go_len doc)) = Ok doc"
    by (rule ApplyChangeset_by_edits [OF Identity_wf]) (use len in \<open>simp_all add: Identity_def go_len_def\<close>)
qed

theorem constructors_apply_witness:
  "ApplyChangeset ''abcd'' (MakeInsert 4 1 ''xy'') = Ok ''axybcd'' \<and>
   ApplyChangeset ''abcd'' (MakeDelete 4 1 2) = Ok ''ad''"
  using constructors_apply [of "''abcd''" "''xy''" 1 2] by (simp add: go_len_def)

end
