(* ===== verification/OT_Cursor.thy ===== *)
theory OT_Cursor
  imports OT_Changeset
begin

text \<open>
  The cursor machinery that \<^verbatim>\<open>Compose\<close> (\<^verbatim>\<open>internal/ot/compose.go\<close>) and
  \<^verbatim>\<open>Follow\<close> (\<^verbatim>\<open>internal/ot/follow.go\<close>) both declare locally: \<^verbatim>\<open>opSlice\<close>,
  \<^verbatim>\<open>peek\<close>, \<^verbatim>\<open>consume\<close>, and the merging \<^verbatim>\<open>addOp\<close>. The lemmas relate a cursor
  to the list of edits it still has in front of it (\<open>pending\<close>): on a changeset with
  positive lengths, \<^verbatim>\<open>peek\<close> shows the head of that list and \<^verbatim>\<open>consume\<close> removes a
  prefix of it.
\<close>

section \<open>opSlice, peek, consume, addOp\<close>

record opSlice =
  sl_ops :: "Op list"
  sl_pos :: nat
  sl_off :: int

definition newSlice :: "Op list \<Rightarrow> opSlice" where
  "newSlice ops = \<lparr>sl_ops = ops, sl_pos = 0, sl_off = 0\<rparr>"

text \<open>
  \<^verbatim>\<open>op.Chars[s.off:]\<close> cannot be out of range, whatever the operations are: a fresh
  cursor has offset 0, and \<^verbatim>\<open>consume\<close> only ever leaves an offset below the length of
  the current operation (lemmas \<open>off_in_range_newSlice\<close> and
  \<open>off_in_range_consume\<close>).
\<close>

definition peek :: "opSlice \<Rightarrow> Op option" where
  "peek s =
     (if length (sl_ops s) \<le> sl_pos s then None
      else let op = sl_ops s ! sl_pos s in
           if op_Type op = OpInsert
           then Some (op\<lparr>op_Chars := drop (nat (sl_off s)) (op_Chars op)\<rparr>)
           else Some (op\<lparr>op_Len := wrap64 (op_Len op - sl_off s)\<rparr>))"

definition op_rem :: "Op \<Rightarrow> int \<Rightarrow> int" where
  "op_rem op off =
     (if op_Type op = OpInsert then wrap64 (go_len (op_Chars op) - off)
      else wrap64 (op_Len op - off))"

function consume :: "opSlice \<Rightarrow> int \<Rightarrow> opSlice" where
  "consume s n =
     (if 0 < n \<and> sl_pos s < length (sl_ops s)
      then let rem = op_rem (sl_ops s ! sl_pos s) (sl_off s) in
           if rem \<le> n
           then consume (s\<lparr>sl_pos := Suc (sl_pos s), sl_off := 0\<rparr>) (wrap64 (n - rem))
           else s\<lparr>sl_off := wrap64 (sl_off s + n)\<rparr>
      else s)"
  by pat_completeness auto
termination
  by (relation "measure (\<lambda>(s, n). length (sl_ops s) - sl_pos s)") auto

declare consume.simps [simp del]

text \<open>\<^verbatim>\<open>addOp\<close> appends an operation, merging it into the last one of the same type.\<close>

definition addOp :: "Op list \<Rightarrow> Op \<Rightarrow> Op list" where
  "addOp ops op =
     (if ops \<noteq> [] \<and> op_Type (last ops) = op_Type op then
        (case op_Type op of
           OpRetain \<Rightarrow> butlast ops @ [(last ops)\<lparr>op_Len := wrap64 (op_Len (last ops) + op_Len op)\<rparr>]
         | OpDelete \<Rightarrow> butlast ops @ [(last ops)\<lparr>op_Len := wrap64 (op_Len (last ops) + op_Len op)\<rparr>]
         | OpInsert \<Rightarrow> butlast ops @ [(last ops)\<lparr>op_Chars := op_Chars (last ops) @ op_Chars op\<rparr>]
         | OpOther _ \<Rightarrow> ops @ [op])
      else ops @ [op])"

section \<open>The edits in front of a cursor\<close>

text \<open>\<open>skip n e\<close> is what is left of the edit \<open>e\<close> once \<open>n\<close> units of it are used up.\<close>

fun skip :: "nat \<Rightarrow> edit \<Rightarrow> edit" where
  "skip n (Keep m) = Keep (m - n)"
| "skip n (Ins s) = Ins (drop n s)"
| "skip n (Del m) = Del (m - n)"

fun span :: "edit \<Rightarrow> nat" where
  "span (Keep n) = n"
| "span (Ins s) = length s"
| "span (Del n) = n"

definition eat :: "nat \<Rightarrow> edit list \<Rightarrow> edit list" where
  "eat n es = (case es of [] \<Rightarrow> [] | e # es' \<Rightarrow> if span e \<le> n then es' else skip n e # es')"

definition pending :: "opSlice \<Rightarrow> edit list" where
  "pending s = (case drop (sl_pos s) (sl_ops s) of
      [] \<Rightarrow> []
    | op # ops \<Rightarrow> skip (nat (sl_off s)) (op_edit op) # edits ops)"

text \<open>
  A good cursor: positive lengths that fit an \<^verbatim>\<open>int\<close>, and an offset inside the current
  operation.
\<close>

definition span_ok :: "Op \<Rightarrow> bool" where
  "span_ok op \<longleftrightarrow> op_ok op \<and> span (op_edit op) < 2 ^ 63"

definition slice_ok :: "opSlice \<Rightarrow> bool" where
  "slice_ok s \<longleftrightarrow> list_all span_ok (sl_ops s) \<and> 0 \<le> sl_off s \<and>
     (if sl_pos s < length (sl_ops s)
      then sl_off s < int (span (op_edit (sl_ops s ! sl_pos s))) else sl_off s = 0)"

text \<open>What keeps \<^verbatim>\<open>peek\<close> from panicking, for arbitrary operations.\<close>

definition op_full :: "Op \<Rightarrow> int" where
  "op_full op = (if op_Type op = OpInsert then go_len (op_Chars op) else op_Len op)"

definition off_in_range :: "opSlice \<Rightarrow> bool" where
  "off_in_range s \<longleftrightarrow> 0 \<le> sl_off s \<and>
     (sl_off s = 0 \<or> sl_pos s < length (sl_ops s) \<and> sl_off s < op_full (sl_ops s ! sl_pos s))"

text \<open>The edits \<^verbatim>\<open>addOp\<close> accumulates, on the abstract side.\<close>

fun merge_edit :: "edit \<Rightarrow> edit \<Rightarrow> edit option" where
  "merge_edit (Keep m) (Keep n) = Some (Keep (m + n))"
| "merge_edit (Del m) (Del n) = Some (Del (m + n))"
| "merge_edit (Ins s) (Ins t) = Some (Ins (s @ t))"
| "merge_edit _ _ = None"

definition push_edit :: "edit list \<Rightarrow> edit \<Rightarrow> edit list" where
  "push_edit es e =
     (if es = [] then [e]
      else case merge_edit (last es) e of
             Some m \<Rightarrow> butlast es @ [m]
           | None \<Rightarrow> es @ [e])"

abbreviation push_edits :: "edit list \<Rightarrow> edit list \<Rightarrow> edit list" where
  "push_edits \<equiv> foldl push_edit"

text \<open>The normal form \<^verbatim>\<open>addOp\<close> keeps: no two neighbours of the same type.\<close>

fun normal :: "edit list \<Rightarrow> bool" where
  "normal (e # f # es) = (merge_edit e f = None \<and> normal (f # es))"
| "normal _ = True"

section \<open>Lemmas on cursors\<close>

lemma skip_0 [simp]: "skip 0 e = e"
  by (cases e) auto

lemma span_skip [simp]: "span (skip n e) = span e - n"
  by (cases e) auto

lemma proper_span: "proper e \<longleftrightarrow> 0 < span e"
  by (cases e) auto

lemma pending_newSlice [simp]: "pending (newSlice ops) = edits ops"
  by (cases ops) (auto simp: pending_def newSlice_def)

lemma slice_ok_newSlice: "list_all span_ok ops \<Longrightarrow> slice_ok (newSlice ops)"
  by (cases ops) (auto simp: slice_ok_def newSlice_def span_ok_def dest!: proper_op_edit
      simp: proper_span)

lemma op_rem_edit:
  assumes "span_ok op" and "0 \<le> off" and "off < int (span (op_edit op))"
  shows "op_rem op off = int (span (op_edit op)) - off"
proof -
  from assms(1) have "op_ok op" by (simp add: span_ok_def)
  then show ?thesis
    by (cases rule: op_ok_cases)
      (use assms in \<open>auto simp: op_rem_def go_len_def span_ok_def wrap64_id\<close>)
qed

lemma off_in_range_newSlice: "off_in_range (newSlice ops)"
  by (simp add: off_in_range_def newSlice_def)

lemma off_in_range_consume:
  "off_in_range s \<Longrightarrow> \<forall>op \<in> set (sl_ops s). - (2 ^ 63) \<le> op_full op \<and> op_full op < 2 ^ 63 \<Longrightarrow>
   off_in_range (consume s n)"
proof (induction s n rule: consume.induct)
  case (1 s n)
  show ?case
  proof (cases "0 < n \<and> sl_pos s < length (sl_ops s)")
    case True
    let ?op = "sl_ops s ! sl_pos s"
    let ?rem = "op_rem ?op (sl_off s)"
    show ?thesis
    proof (cases "?rem \<le> n")
      case True
      with "1.IH" [OF \<open>0 < n \<and> _\<close> refl True] "1.prems" \<open>0 < n \<and> _\<close> show ?thesis
        by (simp add: consume.simps [of s n] off_in_range_def)
    next
      case False
      from "1.prems" \<open>0 < n \<and> _\<close> have b: "- (2 ^ 63) \<le> op_full ?op" "op_full ?op < 2 ^ 63"
        by auto
      from "1.prems"(1) b False \<open>0 < n \<and> _\<close> have r: "?rem = op_full ?op - sl_off s"
        by (auto simp: off_in_range_def op_rem_def op_full_def wrap64_id split: if_splits)
      with "1.prems"(1) b False \<open>0 < n \<and> _\<close> show ?thesis
        by (simp add: consume.simps [of s n] off_in_range_def wrap64_id)
    qed
  next
    case False
    then have "consume s n = s" by (subst consume.simps) (simp only: if_False)
    with "1.prems" show ?thesis by simp
  qed
qed

lemma peek_Nil: "pending s = [] \<Longrightarrow> peek s = None"
  by (auto simp: peek_def pending_def split: list.splits)

lemma peek_Cons:
  assumes "slice_ok s" and "pending s = e # es"
  obtains op where "peek s = Some op" "op_ok op" "op_edit op = e" "span e < 2 ^ 63" "proper e"
proof -
  from assms(2) obtain op0 ops where d: "drop (sl_pos s) (sl_ops s) = op0 # ops"
    and e: "e = skip (nat (sl_off s)) (op_edit op0)"
    by (auto simp: pending_def split: list.splits)
  from d have pos: "sl_pos s < length (sl_ops s)" and nth: "sl_ops s ! sl_pos s = op0"
    by (metis drop_eq_Nil2 linorder_not_le list.distinct(1), metis hd_drop_conv_nth
        drop_eq_Nil2 linorder_not_le list.distinct(1) list.sel(1))
  from assms(1) pos nth have so: "span_ok op0" and off: "0 \<le> sl_off s"
    "sl_off s < int (span (op_edit op0))"
    by (auto simp: slice_ok_def list_all_iff)
  from so have "op_ok op0" by (simp add: span_ok_def)
  then have "\<exists>op. peek s = Some op \<and> op_ok op \<and> op_edit op = e"
    by (cases rule: op_ok_cases)
      (use so off pos nth e in \<open>auto simp: peek_def Let_def op_ok_def op_edit_def span_ok_def
         wrap64_id nat_diff_distrib\<close>)
  moreover from so have "span e < 2 ^ 63"
    unfolding e span_skip span_ok_def by linarith
  moreover from off e have "proper e" by (simp add: proper_span)
  ultimately show thesis using that by blast
qed

lemma peek_Keep:
  assumes "slice_ok s" and "pending s = Keep n # es"
  obtains op where "peek s = Some op" "op_Type op = OpRetain" "op_Len op = int n" "0 < n"
proof -
  from assms obtain op where p: "peek s = Some op" "op_ok op" "op_edit op = Keep n"
    by (rule peek_Cons)
  from p(2) show thesis by (cases rule: op_ok_cases) (use p that [of op] in auto)
qed

lemma peek_Ins:
  assumes "slice_ok s" and "pending s = Ins t # es"
  obtains op where "peek s = Some op" "op_Type op = OpInsert" "op_Chars op = t" "t \<noteq> []"
proof -
  from assms obtain op where p: "peek s = Some op" "op_ok op" "op_edit op = Ins t"
    by (rule peek_Cons)
  from p(2) show thesis by (cases rule: op_ok_cases) (use p that [of op] in auto)
qed

lemma peek_Del:
  assumes "slice_ok s" and "pending s = Del n # es"
  obtains op where "peek s = Some op" "op_Type op = OpDelete" "op_Len op = int n" "0 < n"
proof -
  from assms obtain op where p: "peek s = Some op" "op_ok op" "op_edit op = Del n"
    by (rule peek_Cons)
  from p(2) show thesis by (cases rule: op_ok_cases) (use p that [of op] in auto)
qed

lemma consume_pending:
  assumes "slice_ok s" and "pending s = e # es" and "0 < n" and "n \<le> span e"
  shows "slice_ok (consume s (int n)) \<and> pending (consume s (int n)) = eat n (e # es)"
proof -
  from assms(2) obtain op0 ops where d: "drop (sl_pos s) (sl_ops s) = op0 # ops"
    and e: "e = skip (nat (sl_off s)) (op_edit op0)" and es: "es = edits ops"
    by (auto simp: pending_def split: list.splits)
  from d have pos: "sl_pos s < length (sl_ops s)" and nth: "sl_ops s ! sl_pos s = op0"
    and d': "drop (Suc (sl_pos s)) (sl_ops s) = ops"
    by (metis drop_eq_Nil2 linorder_not_le list.distinct(1), metis hd_drop_conv_nth
        drop_eq_Nil2 linorder_not_le list.distinct(1) list.sel(1), metis drop_Suc list.sel(3) tl_drop)
  from assms(1) pos nth have so: "span_ok op0" and off: "0 \<le> sl_off s"
    "sl_off s < int (span (op_edit op0))" and all: "list_all span_ok (sl_ops s)"
    by (auto simp: slice_ok_def list_all_iff)
  have rem: "op_rem op0 (sl_off s) = int (span e)"
    using op_rem_edit [OF so off] off e by simp
  show ?thesis
  proof (cases "n = span e")
    case True
    let ?s = "s\<lparr>sl_pos := Suc (sl_pos s), sl_off := 0\<rparr>"
    from True rem nth pos assms(3) have c: "consume s (int n) = ?s"
      by (simp add: consume.simps [of s] consume.simps [of ?s] wrap64_def)
    have "slice_ok ?s"
      using all by (auto simp: slice_ok_def list_all_iff span_ok_def dest!: proper_op_edit
          simp: proper_span)
    moreover have "pending ?s = es"
      using d' es by (auto simp: pending_def split: list.splits)
    ultimately show ?thesis using c True by (simp add: eat_def)
  next
    case False
    let ?s = "s\<lparr>sl_off := sl_off s + int n\<rparr>"
    from False assms(4) have lt: "n < span e" by simp
    with off e so have b: "sl_off s + int n < int (span (op_edit op0))" and
      b2: "int (span (op_edit op0)) < 2 ^ 63"
      by (auto simp: span_ok_def)
    with lt rem nth pos assms(3) off have c: "consume s (int n) = ?s"
      by (simp add: consume.simps [of s] wrap64_id)
    have "slice_ok ?s" using all pos nth off b by (simp add: slice_ok_def)
    moreover have "pending ?s = skip n e # es"
      using d e es off by (cases "op_edit op0") (auto simp: pending_def nat_add_distrib drop_drop add.commute)
    ultimately show ?thesis using c lt by (simp add: eat_def)
  qed
qed

lemma consume_all:
  assumes "slice_ok s" and "pending s = e # es"
  shows "slice_ok (consume s (int (span e)))" "pending (consume s (int (span e))) = es"
proof -
  from assms have "proper e" by (rule peek_Cons)
  then show "slice_ok (consume s (int (span e)))" "pending (consume s (int (span e))) = es"
    using consume_pending [OF assms, of "span e"] by (simp_all add: proper_span eat_def)
qed

lemma consume_eat:
  assumes "slice_ok s" and "pending s = e # es" and "0 < n" and "n \<le> span e"
  shows "slice_ok (consume s (int n))" "pending (consume s (int n)) = eat n (e # es)"
  using consume_pending [OF assms] by auto

section \<open>Lemmas on addOp\<close>

lemma merge_edit_facts:
  assumes "merge_edit e f = Some g"
  shows "src_span g = src_span e + src_span f" "dst_span g = dst_span e + dst_span f"
    "proper e \<Longrightarrow> proper g"
  using assms by (cases "(e, f)" rule: merge_edit.cases; auto)+

lemma push_edit_Nil [simp]: "push_edit [] e = [e]"
  by (simp add: push_edit_def)

lemma push_edit_snoc [simp]:
  "push_edit (es @ [e]) f =
     (case merge_edit e f of Some m \<Rightarrow> es @ [m] | None \<Rightarrow> es @ [e, f])"
  by (simp add: push_edit_def split: option.splits)

lemma src_len_push [simp]: "src_len (push_edit es e) = src_len es + src_span e"
  by (cases es rule: rev_cases) (auto split: option.splits simp: merge_edit_facts)

lemma dst_len_push [simp]: "dst_len (push_edit es e) = dst_len es + dst_span e"
  by (cases es rule: rev_cases) (auto split: option.splits simp: merge_edit_facts)

lemma src_len_pushes [simp]: "src_len (push_edits es fs) = src_len es + src_len fs"
  by (induction fs arbitrary: es) auto

lemma dst_len_pushes [simp]: "dst_len (push_edits es fs) = dst_len es + dst_len fs"
  by (induction fs arbitrary: es) auto

lemma proper_push: "list_all proper es \<Longrightarrow> proper e \<Longrightarrow> list_all proper (push_edit es e)"
  by (cases es rule: rev_cases) (auto split: option.splits simp: merge_edit_facts)

lemma proper_pushes:
  "list_all proper es \<Longrightarrow> list_all proper fs \<Longrightarrow> list_all proper (push_edits es fs)"
  by (induction fs arbitrary: es) (auto simp: proper_push)

lemma normal_snoc: "normal (es @ [e, f]) \<longleftrightarrow> normal (es @ [e]) \<and> merge_edit e f = None"
  by (induction es rule: normal.induct) auto

lemma merge_edit_None_cong:
  "merge_edit e f = Some g \<Longrightarrow> (merge_edit d g = None) = (merge_edit d e = None)"
  by (cases "(e, f)" rule: merge_edit.cases; cases d) auto

lemma normal_snoc_merge: "merge_edit e f = Some g \<Longrightarrow> normal (es @ [e]) \<Longrightarrow> normal (es @ [g])"
  by (cases es rule: rev_cases) (auto simp: normal_snoc dest: merge_edit_None_cong)

lemma normal_push: "normal es \<Longrightarrow> normal (push_edit es e)"
  by (cases es rule: rev_cases) (auto split: option.splits simp: normal_snoc normal_snoc_merge)

lemma normal_pushes: "normal es \<Longrightarrow> normal (push_edits es fs)"
  by (induction fs arbitrary: es) (auto simp: normal_push)

lemma normal_no_adjacent_ins: "normal es \<Longrightarrow> no_adjacent_ins es"
  by (induction es rule: no_adjacent_ins.induct) (auto elim: normal.elims)

text \<open>Merging does not change what a list of edits does to a text.\<close>

lemma apply_edits_split:
  "apply_edits (es1 @ es2) doc =
     (if src_len es1 \<le> length doc
      then Option.bind (apply_edits es1 (take (src_len es1) doc))
             (\<lambda>s1. map_option ((@) s1) (apply_edits es2 (drop (src_len es1) doc)))
      else None)"
proof (cases "src_len es1 \<le> length doc")
  case True
  then have "length (take (src_len es1) doc) = src_len es1" by simp
  from apply_edits_append [OF this, of es2 "drop (src_len es1) doc"] True show ?thesis
    by (simp split: Option.bind_split option.splits)
next
  case False
  then show ?thesis
    by (cases "apply_edits (es1 @ es2) doc") (auto dest: apply_edits_length)
qed

lemma apply_edits_push: "apply_edits (push_edit es e) doc = apply_edits (es @ [e]) doc"
proof (cases es rule: rev_cases)
  case Nil
  then show ?thesis by simp
next
  case (snoc es' e')
  show ?thesis
  proof (cases "merge_edit e' e")
    case None
    with snoc show ?thesis by simp
  next
    case (Some g)
    have two: "apply_edits [g] d = apply_edits [e', e] d" for d
      using Some by (cases "(e', e)" rule: merge_edit.cases)
        (auto simp: take_add split: if_splits)
    have "apply_edits (es' @ [g]) doc = apply_edits (es' @ [e', e]) doc"
      by (simp add: apply_edits_split [of es'] two)
    with snoc Some show ?thesis by simp
  qed
qed

lemma apply_edits_pushes: "apply_edits (push_edits es fs) doc = apply_edits (es @ fs) doc"
proof (induction fs arbitrary: es)
  case Nil
  then show ?case by simp
next
  case (Cons f fs)
  have "apply_edits (push_edit es f @ fs) doc = apply_edits ((es @ [f]) @ fs) doc"
    by (simp add: apply_edits_split [of _ fs] apply_edits_push del: append_assoc)
  with Cons.IH [of "push_edit es f"] show ?case by simp
qed

text \<open>The Go \<^verbatim>\<open>addOp\<close> is \<open>push_edit\<close> as long as no length overflows.\<close>

lemma addOp_edit:
  assumes "list_all op_ok ops" and "proper e"
    and "src_len (edits ops) + src_span e < 2 ^ 63"
  shows "list_all op_ok (addOp ops (edit_op e))"
    and "edits (addOp ops (edit_op e)) = push_edit (edits ops) e"
proof -
  have "list_all op_ok (addOp ops (edit_op e)) \<and>
      edits (addOp ops (edit_op e)) = push_edit (edits ops) e"
  proof (cases ops rule: rev_cases)
    case Nil
    with assms(2) show ?thesis by (simp add: addOp_def)
  next
    case (snoc ops' op)
    with assms(1) have "op_ok op" by simp
    then show ?thesis
      by (cases rule: op_ok_cases; cases e)
        (use assms snoc in \<open>auto simp: addOp_def retainOp_def insertOp_def deleteOp_def
           op_ok_def op_edit_def wrap64_nonneg nat_add_distrib\<close>)
  qed
  then show "list_all op_ok (addOp ops (edit_op e))"
    and "edits (addOp ops (edit_op e)) = push_edit (edits ops) e" by auto
qed

abbreviation addOps :: "Op list \<Rightarrow> edit list \<Rightarrow> Op list" where
  "addOps ops es \<equiv> foldl addOp ops (map edit_op es)"

lemma addOps_edits:
  assumes "list_all op_ok ops" and "list_all proper es"
    and "src_len (edits ops) + src_len es < 2 ^ 63"
  shows "list_all op_ok (addOps ops es) \<and> edits (addOps ops es) = push_edits (edits ops) es"
  using assms
proof (induction es arbitrary: ops)
  case Nil
  then show ?case by simp
next
  case (Cons e es)
  from Cons.prems have p: "proper e" and b: "src_len (edits ops) + src_span e < 2 ^ 63"
    by auto
  note one = addOp_edit [OF Cons.prems(1) p b]
  show ?case using Cons.IH [OF one(1)] one(2) Cons.prems by simp
qed

section \<open>Peeling a prefix off the first edit\<close>

text \<open>
  Cutting the first \<open>k\<close> units off the first edit: how the text, the lengths and the
  well-formedness of the rest change. These equations carry the correctness proofs of both
  algorithms.
\<close>

lemma eat_Cons: "eat k (e # es) = (if span e \<le> k then es else skip k e # es)"
  by (simp add: eat_def)

lemma eat_Nil [simp]: "eat k [] = []"
  by (simp add: eat_def)

lemma length_eat_le: "length (eat k es) \<le> length es"
  by (cases es) (auto simp: eat_Cons)

lemma length_eat_less: "span e \<le> k \<Longrightarrow> length (eat k (e # es)) < length (e # es)"
  by (simp add: eat_Cons)

lemma peel_Keep:
  assumes "k \<le> m" and "k \<le> length doc"
  shows "apply_edits (Keep m # es) doc =
           map_option ((@) (take k doc)) (apply_edits (eat k (Keep m # es)) (drop k doc))"
proof (cases "m = k")
  case True
  with assms show ?thesis by (simp add: eat_Cons)
next
  case False
  with assms have "take m doc = take k doc @ take (m - k) (drop k doc)"
    by (metis le_add_diff_inverse take_add)
  with False assms show ?thesis
    by (cases "apply_edits es (drop m doc)") (auto simp: eat_Cons)
qed

lemma peel_Del:
  "k \<le> m \<Longrightarrow> k \<le> length doc \<Longrightarrow>
   apply_edits (Del m # es) doc = apply_edits (eat k (Del m # es)) (drop k doc)"
  by (auto simp: eat_Cons)

lemma peel_Keep_append:
  "length p = k \<Longrightarrow> k \<le> m \<Longrightarrow>
   apply_edits (Keep m # es) (p @ x) =
     map_option ((@) p) (apply_edits (eat k (Keep m # es)) x)"
  using peel_Keep [of k m "p @ x" es] by simp

lemma peel_Del_append:
  "length p = k \<Longrightarrow> k \<le> m \<Longrightarrow>
   apply_edits (Del m # es) (p @ x) = apply_edits (eat k (Del m # es)) x"
  using peel_Del [of k m "p @ x" es] by simp

lemma peel_Ins:
  "k \<le> length s \<Longrightarrow>
   apply_edits (Ins s # es) doc =
     map_option ((@) (take k s)) (apply_edits (eat k (Ins s # es)) doc)"
  by (cases "apply_edits es doc") (auto simp: eat_Cons simp flip: append_assoc)

lemma src_len_eat:
  "k \<le> m \<Longrightarrow> src_len (eat k (Keep m # es)) = (m - k) + src_len es"
  "k \<le> m \<Longrightarrow> src_len (eat k (Del m # es)) = (m - k) + src_len es"
  "src_len (eat k (Ins s # es)) = src_len es"
  by (auto simp: eat_Cons)

lemma dst_len_eat:
  "k \<le> m \<Longrightarrow> dst_len (eat k (Keep m # es)) = (m - k) + dst_len es"
  "dst_len (eat k (Del m # es)) = dst_len es"
  "k \<le> length s \<Longrightarrow> dst_len (eat k (Ins s # es)) = (length s - k) + dst_len es"
  by (auto simp: eat_Cons)

lemma proper_eat: "list_all proper es \<Longrightarrow> list_all proper (eat k es)"
  by (cases es) (auto simp: eat_Cons proper_span)

lemmas eat_facts = src_len_eat dst_len_eat proper_eat

section \<open>Well-formed changesets and their cursors\<close>

lemma wf_span_ok:
  assumes "wf_changeset c"
  shows "list_all span_ok (Ops c)"
proof -
  have "span_ok op" if op: "op \<in> set (Ops c)" for op
  proof -
    from assms op have "op_ok op" by (auto simp: wf_changeset_def list_all_iff)
    moreover have "src_span (op_edit op) \<le> src_len (edits (Ops c))"
      and "dst_span (op_edit op) \<le> dst_len (edits (Ops c))"
      using op by (auto intro!: member_le_sum_list)
    with assms have "src_span (op_edit op) < 2 ^ 63" "dst_span (op_edit op) < 2 ^ 63"
      by (auto simp: wf_changeset_def)
    then have "span (op_edit op) < 2 ^ 63" by (cases "op_edit op") auto
    ultimately show ?thesis by (simp add: span_ok_def)
  qed
  then show ?thesis by (simp add: list_all_iff)
qed

lemma wf_slice_ok: "wf_changeset c \<Longrightarrow> slice_ok (newSlice (Ops c))"
  by (intro slice_ok_newSlice wf_span_ok)

lemma wf_proper: "wf_changeset c \<Longrightarrow> list_all proper (edits (Ops c))"
  by (auto simp: wf_changeset_def list_all_iff dest: proper_op_edit)

end
