(* ===== verification/Go_UTF8.thy ===== *)
theory Go_UTF8
  imports Go_Prelude
begin

text \<open>
  Go's conversions between strings and runes, which \<^verbatim>\<open>internal/ot/diff.go\<close> and \<^verbatim>\<open>encoding/json\<close> rely on:
  \<^verbatim>\<open>[]rune(s)\<close> decodes UTF-8, every byte that starts no well-formed sequence giving U+FFFD;
  \<^verbatim>\<open>string(r)\<close> encodes one rune, a surrogate or a value out of range giving the encoding of
  U+FFFD. \<open>to_valid\<close> is the text that JSON makes of a string.
\<close>

abbreviation byte :: "char \<Rightarrow> nat" where
  "byte \<equiv> of_char"

section \<open>Encoding\<close>

definition valid_rune :: "nat \<Rightarrow> bool" where
  "valid_rune r \<longleftrightarrow> r < 0xD800 \<or> 0xDFFF < r \<and> r \<le> 0x10FFFF"

definition encode_valid :: "nat \<Rightarrow> string" where
  "encode_valid r =
     (if r \<le> 0x7F then [char_of r]
      else if r \<le> 0x7FF then [char_of (0xC0 + r div 64), char_of (0x80 + r mod 64)]
      else if r \<le> 0xFFFF then
        [char_of (0xE0 + r div 4096), char_of (0x80 + r div 64 mod 64), char_of (0x80 + r mod 64)]
      else
        [char_of (0xF0 + r div 262144), char_of (0x80 + r div 4096 mod 64),
         char_of (0x80 + r div 64 mod 64), char_of (0x80 + r mod 64)])"

definition encode_rune :: "nat \<Rightarrow> string" where
  "encode_rune r = (if valid_rune r then encode_valid r else encode_valid 0xFFFD)"

definition encode_runes :: "nat list \<Rightarrow> string" where
  "encode_runes rs = concat (map encode_rune rs)"

section \<open>Decoding\<close>

text \<open>A continuation byte in the range \<open>lo\<close> to \<open>hi\<close>: its six low bits.\<close>

definition cont :: "nat \<Rightarrow> nat \<Rightarrow> char \<Rightarrow> nat option" where
  "cont lo hi c = (let b = of_char c in if lo \<le> b \<and> b \<le> hi then Some (b - 0x80) else None)"

text \<open>The rune at the front of a non-empty string and the number of bytes it takes.\<close>

fun decode_rune :: "string \<Rightarrow> nat \<times> nat" where
  "decode_rune [] = (0xFFFD, 0)"
| "decode_rune (c # cs) =
     (let b = of_char c; bad = (0xFFFD, 1) in
      if b < 0x80 then (b, 1)
      else if 0xC2 \<le> b \<and> b \<le> 0xDF then
        (case cs of
           c1 # _ \<Rightarrow> (case cont 0x80 0xBF c1 of Some x1 \<Rightarrow> ((b - 0xC0) * 64 + x1, 2) | None \<Rightarrow> bad)
         | _ \<Rightarrow> bad)
      else if 0xE0 \<le> b \<and> b \<le> 0xEF then
        (case cs of
           c1 # c2 # _ \<Rightarrow>
             (case (cont (if b = 0xE0 then 0xA0 else 0x80) (if b = 0xED then 0x9F else 0xBF) c1,
                    cont 0x80 0xBF c2) of
                (Some x1, Some x2) \<Rightarrow> ((b - 0xE0) * 4096 + x1 * 64 + x2, 3)
              | _ \<Rightarrow> bad)
         | _ \<Rightarrow> bad)
      else if 0xF0 \<le> b \<and> b \<le> 0xF4 then
        (case cs of
           c1 # c2 # c3 # _ \<Rightarrow>
             (case (cont (if b = 0xF0 then 0x90 else 0x80) (if b = 0xF4 then 0x8F else 0xBF) c1,
                    cont 0x80 0xBF c2, cont 0x80 0xBF c3) of
                (Some x1, Some x2, Some x3) \<Rightarrow>
                  ((b - 0xF0) * 262144 + x1 * 4096 + x2 * 64 + x3, 4)
              | _ \<Rightarrow> bad)
         | _ \<Rightarrow> bad)
      else bad)"

lemma decode_rune_width: "s \<noteq> [] \<Longrightarrow> 0 < snd (decode_rune s)"
  by (cases s) (auto simp: Let_def split: list.splits option.splits)

function runes :: "string \<Rightarrow> nat list" where
  "runes s = (if s = [] then [] else fst (decode_rune s) # runes (drop (snd (decode_rune s)) s))"
  by auto
termination
  by (relation "measure length") (use decode_rune_width in \<open>auto intro: diff_less\<close>)

declare runes.simps [simp del]

definition valid_utf8 :: "string \<Rightarrow> bool" where
  "valid_utf8 s \<longleftrightarrow> encode_runes (runes s) = s"

section \<open>Round trip\<close>

lemma runes_Nil [simp]: "runes [] = []"
  by (simp add: runes.simps)

lemma encode_runes_simps [simp]:
  "encode_runes [] = []" "encode_runes (r # rs) = encode_rune r @ encode_runes rs"
  "encode_runes (rs @ rs') = encode_runes rs @ encode_runes rs'"
  by (simp_all add: encode_runes_def)

lemma encode_rune_not_Nil [simp]: "encode_rune r \<noteq> []"
  by (simp add: encode_rune_def encode_valid_def)

lemma div_between: "lo * k \<le> r \<Longrightarrow> r < hi * k \<Longrightarrow> lo \<le> r div k \<and> r div k < (hi :: nat)"
  by (metis div_le_mono div_mult_self_is_m less_mult_imp_div_less mult_0_right neq0_conv not_less0)

lemma high_digits:
  "(r :: nat) div 4096 * 64 + r div 64 mod 64 = r div 64"
  "(r :: nat) div 262144 * 64 + r div 4096 mod 64 = r div 4096"
  using div_mult2_eq [of r 64 64] div_mult2_eq [of r 4096 64] by simp_all

lemma digits64: "(r :: nat) div 4096 * 4096 + r div 64 mod 64 * 64 + r mod 64 = r"
proof -
  have "(r div 4096 * 64 + r div 64 mod 64) * 64 + r mod 64 = r" by (simp add: high_digits)
  then show ?thesis by (simp add: algebra_simps)
qed

lemma digits64': "(r :: nat) div 262144 * 262144 + r div 4096 mod 64 * 4096 + r div 64 mod 64 * 64 + r mod 64 = r"
proof -
  have "(r div 262144 * 64 + r div 4096 mod 64) * 4096 + r div 64 mod 64 * 64 + r mod 64 = r"
    using digits64 [of r] by (simp add: high_digits)
  then show ?thesis by (simp add: algebra_simps)
qed

lemma cont_Some: "lo \<le> 0x80 + x \<Longrightarrow> 0x80 + x \<le> hi \<Longrightarrow> hi < 256 \<Longrightarrow> cont lo hi (char_of (0x80 + x :: nat)) = Some x"
  by (simp add: cont_def Let_def)

lemma decode_1: "of_char c = b \<Longrightarrow> b < 0x80 \<Longrightarrow> decode_rune (c # t) = (b, 1)"
  by simp

lemma decode_2:
  assumes "of_char c = b" "0xC2 \<le> b" "b \<le> 0xDF" "cont 0x80 0xBF c1 = Some x1"
  shows "decode_rune (c # c1 # t) = ((b - 0xC0) * 64 + x1, 2)"
  using assms by simp

lemma decode_3:
  assumes "of_char c = b" "0xE0 \<le> b" "b \<le> 0xEF"
    "cont (if b = 0xE0 then 0xA0 else 0x80) (if b = 0xED then 0x9F else 0xBF) c1 = Some x1"
    "cont 0x80 0xBF c2 = Some x2"
  shows "decode_rune (c # c1 # c2 # t) = ((b - 0xE0) * 4096 + x1 * 64 + x2, 3)"
  using assms by (simp add: Let_def)

lemma decode_4:
  assumes "of_char c = b" "0xF0 \<le> b" "b \<le> 0xF4"
    "cont (if b = 0xF0 then 0x90 else 0x80) (if b = 0xF4 then 0x8F else 0xBF) c1 = Some x1"
    "cont 0x80 0xBF c2 = Some x2" "cont 0x80 0xBF c3 = Some x3"
  shows "decode_rune (c # c1 # c2 # c3 # t) = ((b - 0xF0) * 262144 + x1 * 4096 + x2 * 64 + x3, 4)"
  using assms by (simp add: Let_def)

declare decode_rune.simps [simp del]

lemma of_char_byte: "x < 256 \<Longrightarrow> of_char (char_of x :: char) = (x :: nat)"
  by simp

lemma cont_low: "cont 0x80 0xBF (char_of (0x80 + x mod 64)) = Some (x mod 64)"
  by (rule cont_Some) auto

lemma decode_encode_2:
  assumes "0x7F < r" "r \<le> 0x7FF"
  shows "decode_rune (encode_valid r @ t) = (r, 2)"
proof -
  have q: "2 \<le> r div 64" "r div 64 \<le> 0x1F" using div_between [of 2 64 r 32] assms by auto
  have "encode_valid r = [char_of (0xC0 + r div 64), char_of (0x80 + r mod 64)]"
    using assms by (simp add: encode_valid_def)
  moreover have "decode_rune (char_of (0xC0 + r div 64) # char_of (0x80 + r mod 64) # t) =
      ((0xC0 + r div 64 - 0xC0) * 64 + r mod 64, 2)"
    by (rule decode_2 [OF of_char_byte _ _ cont_low]) (use q in linarith)+
  ultimately show ?thesis by simp
qed

lemma decode_encode_3:
  assumes "0x7FF < r" "r \<le> 0xFFFF" "valid_rune r"
  shows "decode_rune (encode_valid r @ t) = (r, 3)"
proof -
  let ?q = "r div 4096" and ?x = "r div 64 mod 64"
  have q: "?q \<le> 0xF" using assms(2) by simp
  have d: "?q * 64 + ?x = r div 64" by (rule high_digits)
  have e0: "0x20 \<le> ?x" if "?q = 0" using that d div_le_mono [of "0x800" r 64] assms(1) by simp
  have ed: "?x \<le> 0x1F" if "?q = 0xD"
  proof -
    have "r < 57344" using that div_mult_mod_eq [of r 4096] mod_less_divisor [of 4096 r] by linarith
    then have "r < 864 * 64" using assms(3) by (simp add: valid_rune_def)
    then have "r div 64 < 864" by (rule less_mult_imp_div_less)
    with d that show ?thesis by linarith
  qed
  have x: "cont (if 0xE0 + ?q = 0xE0 then 0xA0 else 0x80) (if 0xE0 + ?q = 0xED then 0x9F else 0xBF)
      (char_of (0x80 + ?x)) = Some ?x"
    by (rule cont_Some) (use e0 ed in auto)
  have "encode_valid r = [char_of (0xE0 + ?q), char_of (0x80 + ?x), char_of (0x80 + r mod 64)]"
    using assms by (simp add: encode_valid_def)
  moreover have "decode_rune (char_of (0xE0 + ?q) # char_of (0x80 + ?x) # char_of (0x80 + r mod 64) # t) =
      ((0xE0 + ?q - 0xE0) * 4096 + ?x * 64 + r mod 64, 3)"
    by (rule decode_3 [OF of_char_byte _ _ x cont_low]) (use q in linarith)+
  ultimately show ?thesis using digits64 [of r] by simp
qed

lemma decode_encode_4:
  assumes "0xFFFF < r" "valid_rune r"
  shows "decode_rune (encode_valid r @ t) = (r, 4)"
proof -
  let ?q = "r div 262144" and ?x = "r div 4096 mod 64"
  have le: "r \<le> 0x10FFFF" using assms by (auto simp: valid_rune_def)
  have q: "?q \<le> 4" using le by simp
  have d: "?q * 64 + ?x = r div 4096" by (rule high_digits)
  have f0: "0x10 \<le> ?x" if "?q = 0" using that d div_le_mono [of "0x10000" r 4096] assms(1) by simp
  have f4: "?x \<le> 0xF" if "?q = 4"
  proof -
    have "r < 272 * 4096" using le by simp
    then have "r div 4096 < 272" by (rule less_mult_imp_div_less)
    with d that show ?thesis by linarith
  qed
  have x: "cont (if 0xF0 + ?q = 0xF0 then 0x90 else 0x80) (if 0xF0 + ?q = 0xF4 then 0x8F else 0xBF)
      (char_of (0x80 + ?x)) = Some ?x"
    by (rule cont_Some) (use f0 f4 in auto)
  have "encode_valid r = [char_of (0xF0 + ?q), char_of (0x80 + ?x), char_of (0x80 + r div 64 mod 64),
      char_of (0x80 + r mod 64)]"
    using assms by (simp add: encode_valid_def)
  moreover have "decode_rune (char_of (0xF0 + ?q) # char_of (0x80 + ?x) # char_of (0x80 + r div 64 mod 64) #
      char_of (0x80 + r mod 64) # t) =
      ((0xF0 + ?q - 0xF0) * 262144 + ?x * 4096 + r div 64 mod 64 * 64 + r mod 64, 4)"
    by (rule decode_4 [OF of_char_byte _ _ x cont_low cont_low]) (use q in linarith)+
  ultimately show ?thesis using digits64' [of r] by simp
qed

lemma length_encode_valid:
  "length (encode_valid r) = (if r \<le> 0x7F then 1 else if r \<le> 0x7FF then 2 else if r \<le> 0xFFFF then 3 else 4)"
  by (simp add: encode_valid_def)

lemma decode_encode_rune:
  assumes "valid_rune r"
  shows "decode_rune (encode_rune r @ t) = (r, length (encode_rune r))"
proof -
  consider "r \<le> 0x7F" | "0x7F < r" "r \<le> 0x7FF" | "0x7FF < r" "r \<le> 0xFFFF" | "0xFFFF < r" by linarith
  then have "decode_rune (encode_valid r @ t) = (r, length (encode_valid r))"
  proof cases
    case 1
    then have "decode_rune (char_of r # t) = (r, 1)" by (intro decode_1 of_char_byte) simp_all
    with 1 show ?thesis by (simp add: encode_valid_def)
  qed (simp_all add: decode_encode_2 decode_encode_3 decode_encode_4 length_encode_valid assms)
  with assms show ?thesis by (simp add: encode_rune_def)
qed

lemma runes_encode_runes: "list_all valid_rune rs \<Longrightarrow> runes (encode_runes rs) = rs"
proof (induction rs)
  case (Cons r rs)
  then have "decode_rune (encode_rune r @ encode_runes rs) = (r, length (encode_rune r))"
    by (simp add: decode_encode_rune)
  with Cons show ?case by (subst runes.simps) simp
qed simp

lemma valid_utf8_encode_runes: "list_all valid_rune rs \<Longrightarrow> valid_utf8 (encode_runes rs)"
  by (simp add: valid_utf8_def runes_encode_runes)

section \<open>What decoding gives\<close>

lemma cont_bounds:
  assumes "cont (if P then lo else 0x80) hi c = Some x" and "0x80 \<le> lo"
  shows "(if P then lo else 0x80) \<le> x + 0x80 \<and> x + 0x80 \<le> hi"
  using assms by (auto simp: cont_def Let_def split: if_splits)

lemmas cont_bounds_low = cont_bounds [where P = False, simplified]

lemma decode_valid_3:
  assumes "0xE0 \<le> b" "b \<le> 0xEF" "x1 + 0x80 \<le> (if b = 0xED then 0x9F else 0xBF)" "x2 + 0x80 \<le> 0xBF"
  shows "valid_rune ((b - 0xE0) * 4096 + x1 * 64 + x2)"
proof -
  obtain q where q: "b = 0xE0 + q" using assms(1) le_Suc_ex by blast
  have x: "x1 \<le> 63" "x2 \<le> 63" "q = 0xD \<Longrightarrow> x1 \<le> 31" using assms(3,4) q by (auto split: if_splits)
  have "valid_rune (q * 4096 + x1 * 64 + x2)"
  proof (cases "q \<le> 0xD")
    case True
    then have "q * 4096 + x1 * 64 + x2 < 0xD800" using x by (cases "q = 0xD") auto
    then show ?thesis by (simp add: valid_rune_def)
  next
    case False
    then show ?thesis using x q assms(2) by (auto simp: valid_rune_def)
  qed
  with q show ?thesis by simp
qed

lemma decode_valid_4:
  assumes "0xF0 \<le> b" "b \<le> 0xF4" "(if b = 0xF0 then 0x90 else 0x80) \<le> x1 + 0x80"
    "x1 + 0x80 \<le> (if b = 0xF4 then 0x8F else 0xBF)" "x2 + 0x80 \<le> 0xBF" "x3 + 0x80 \<le> 0xBF"
  shows "valid_rune ((b - 0xF0) * 262144 + x1 * 4096 + x2 * 64 + x3)"
proof -
  obtain q where q: "b = 0xF0 + q" using assms(1) le_Suc_ex by blast
  have x: "x1 \<le> 63" "x2 \<le> 63" "x3 \<le> 63" "q = 4 \<Longrightarrow> x1 \<le> 15" "q = 0 \<Longrightarrow> 16 \<le> x1" "q \<le> 4"
    using assms q by (auto split: if_splits)
  have "q * 262144 + x1 * 4096 + x2 * 64 + x3 \<le> 0x10FFFF" using x by (cases "q = 4") auto
  moreover have "0xDFFF < q * 262144 + x1 * 4096 + x2 * 64 + x3" using x by (cases "q = 0") auto
  ultimately show ?thesis using q by (simp add: valid_rune_def)
qed

lemma valid_rune_small: "r < 0xD800 \<Longrightarrow> valid_rune r" "valid_rune 0xFFFD"
  by (simp_all add: valid_rune_def)

lemma decode_rune_valid: "valid_rune (fst (decode_rune s))"
proof (cases s)
  case (Cons c cs)
  consider (one) "byte c < 0x80" | (two) "0xC2 \<le> byte c" "byte c \<le> 0xDF" | (three) "0xE0 \<le> byte c" "byte c \<le> 0xEF"
    | (four) "0xF0 \<le> byte c" "byte c \<le> 0xF4"
    | (low) "0x80 \<le> byte c" "byte c < 0xC2" | (high) "0xF4 < byte c" by linarith
  then show ?thesis
  proof cases
    case three
    then show ?thesis unfolding Cons decode_rune.simps Let_def
      by (auto simp: valid_rune_small split: list.splits option.splits split del: if_split dest!: cont_bounds cont_bounds_low intro!: decode_valid_3)
  next
    case four
    then show ?thesis unfolding Cons decode_rune.simps Let_def
      by (auto simp: valid_rune_small split: list.splits option.splits split del: if_split dest!: cont_bounds cont_bounds_low intro!: decode_valid_4)
  next
    case two
    then show ?thesis unfolding Cons decode_rune.simps Let_def
      by (auto simp: valid_rune_small split: list.splits option.splits dest!: cont_bounds_low intro!: valid_rune_small)
  qed (simp_all add: Cons decode_rune.simps Let_def valid_rune_small)
qed (simp add: valid_rune_small decode_rune.simps)

lemma runes_valid: "list_all valid_rune (runes s)"
  by (induction s rule: runes.induct) (subst runes.simps, simp add: decode_rune_valid)

lemma valid_utf8_runes:
  assumes "valid_utf8 s"
  obtains rs where "list_all valid_rune rs" "s = encode_runes rs"
  using assms runes_valid that unfolding valid_utf8_def by metis

text \<open>Decoding a well-formed sequence and encoding it again gives its bytes.\<close>

lemma cont_char: "cont lo hi c = Some x \<Longrightarrow> 0x80 \<le> lo \<Longrightarrow> c = char_of (0x80 + x)"
  by (auto simp: cont_def Let_def split: if_splits)

lemma cont_less: "cont lo hi c = Some x \<Longrightarrow> hi \<le> 0xBF \<Longrightarrow> x < 64"
  by (auto simp: cont_def Let_def split: if_splits)

lemma split64: "y < 64 \<Longrightarrow> (a * 64 + y) div 64 = a" "y < 64 \<Longrightarrow> (a * 64 + y) mod 64 = y" for a y :: nat
  by simp_all

lemma encode_2:
  assumes "2 \<le> q" "q < 32" "x < 64"
  shows "encode_valid (q * 64 + x) = [char_of (0xC0 + q), char_of (0x80 + x)]"
  using assms by (simp add: encode_valid_def)

lemma encode_3:
  assumes "q < 16" "x < 64" "y < 64" "q = 0 \<Longrightarrow> 0x20 \<le> x"
  shows "encode_valid (q * 4096 + x * 64 + y) = [char_of (0xE0 + q), char_of (0x80 + x), char_of (0x80 + y)]"
proof -
  let ?r = "q * 4096 + x * 64 + y"
  have r: "?r = (q * 64 + x) * 64 + y" by simp
  have d: "?r div 64 = q * 64 + x" "?r mod 64 = y" by (simp_all only: r split64 [OF assms(3)])
  then have "?r div 4096 = q" using assms(2) div_mult2_eq [of ?r 64 64] by simp
  note d = d this
  have "0x7FF < ?r" using assms(4) by (cases "q = 0") auto
  moreover have "?r \<le> 0xFFFF" using assms(1-3) by simp
  ultimately show ?thesis using assms(2) unfolding encode_valid_def d by simp
qed

lemma encode_4:
  assumes "q < 5" "x < 64" "y < 64" "z < 64" "q = 0 \<Longrightarrow> 0x10 \<le> x"
  shows "encode_valid (q * 262144 + x * 4096 + y * 64 + z) =
    [char_of (0xF0 + q), char_of (0x80 + x), char_of (0x80 + y), char_of (0x80 + z)]"
proof -
  let ?r = "q * 262144 + x * 4096 + y * 64 + z"
  have r: "?r = ((q * 64 + x) * 64 + y) * 64 + z" by simp
  have d: "?r div 64 = (q * 64 + x) * 64 + y" "?r mod 64 = z" by (simp_all only: r split64 [OF assms(4)])
  then have "?r div 4096 = q * 64 + x" using assms(3) div_mult2_eq [of ?r 64 64] by simp
  moreover from this have "?r div 262144 = q" using assms(2) div_mult2_eq [of ?r 4096 64] by simp
  ultimately have e: "?r div 4096 = q * 64 + x" "?r div 262144 = q" by blast+
  note d = d e
  have "0xFFFF < ?r" using assms(5) by (cases "q = 0") auto
  then show ?thesis unfolding encode_valid_def d split64(2) [OF assms(2)] split64(2) [OF assms(3)] by simp
qed

lemma decode_3_cases:
  assumes "0xE0 \<le> byte c" "byte c \<le> 0xEF"
  obtains (bad) "decode_rune (c # cs) = (0xFFFD, 1)"
    | (good) c1 c2 t x y where "cs = c1 # c2 # t"
        "cont (if byte c = 0xE0 then 0xA0 else 0x80) (if byte c = 0xED then 0x9F else 0xBF) c1 = Some x"
        "cont 0x80 0xBF c2 = Some y" "decode_rune (c # cs) = ((byte c - 0xE0) * 4096 + x * 64 + y, 3)"
proof -
  let ?lo = "if byte c = 0xE0 then 0xA0 else 0x80" and ?hi = "if byte c = 0xED then 0x9F else 0xBF"
  consider "cs = []" | c1 where "cs = [c1]" | c1 c2 t where "cs = c1 # c2 # t" by (cases cs; cases "tl cs") auto
  then show thesis
  proof cases
    case (3 c1 c2 t)
    show thesis
    proof (cases "cont ?lo ?hi c1 = None \<or> cont 0x80 0xBF c2 = None")
      case True
      show thesis
        by (rule bad) (use 3 assms True in \<open>auto simp: decode_rune.simps Let_def split: option.split split del: if_split\<close>)
    next
      case False
      then obtain x y where xy: "cont ?lo ?hi c1 = Some x" "cont 0x80 0xBF c2 = Some y"
        by (auto split del: if_split)
      show thesis by (rule good [OF 3 xy]) (use decode_3 [OF refl assms xy, of t] 3 in simp)
    qed
  qed (use assms bad in \<open>auto simp: decode_rune.simps Let_def split del: if_split\<close>)
qed

lemma decode_4_cases:
  assumes "0xF0 \<le> byte c" "byte c \<le> 0xF4"
  obtains (bad) "decode_rune (c # cs) = (0xFFFD, 1)"
    | (good) c1 c2 c3 t x y z where "cs = c1 # c2 # c3 # t"
        "cont (if byte c = 0xF0 then 0x90 else 0x80) (if byte c = 0xF4 then 0x8F else 0xBF) c1 = Some x"
        "cont 0x80 0xBF c2 = Some y" "cont 0x80 0xBF c3 = Some z"
        "decode_rune (c # cs) = ((byte c - 0xF0) * 262144 + x * 4096 + y * 64 + z, 4)"
proof -
  let ?lo = "if byte c = 0xF0 then 0x90 else 0x80" and ?hi = "if byte c = 0xF4 then 0x8F else 0xBF"
  consider "cs = []" | c1 where "cs = [c1]" | c1 c2 where "cs = [c1, c2]" | c1 c2 c3 t where "cs = c1 # c2 # c3 # t"
    by (cases cs; cases "tl cs"; cases "tl (tl cs)") auto
  then show thesis
  proof cases
    case (4 c1 c2 c3 t)
    show thesis
    proof (cases "cont ?lo ?hi c1 = None \<or> cont 0x80 0xBF c2 = None \<or> cont 0x80 0xBF c3 = None")
      case True
      show thesis
        by (rule bad) (use 4 assms True in \<open>auto simp: decode_rune.simps Let_def split: option.split split del: if_split\<close>)
    next
      case False
      then obtain x y z where xyz: "cont ?lo ?hi c1 = Some x" "cont 0x80 0xBF c2 = Some y" "cont 0x80 0xBF c3 = Some z"
        by (auto split del: if_split)
      show thesis by (rule good [OF 4 xyz]) (use decode_4 [OF refl assms xyz, of t] 4 in simp)
    qed
  qed (use assms bad in \<open>auto simp: decode_rune.simps Let_def split del: if_split\<close>)
qed

lemma decode_rune_exact:
  assumes "s \<noteq> []"
  shows "decode_rune s = (0xFFFD, 1) \<or>
    encode_valid (fst (decode_rune s)) = take (snd (decode_rune s)) s \<and> snd (decode_rune s) \<le> length s"
proof -
  obtain c cs where s: "s = c # cs" using assms by (cases s) auto
  consider (one) "byte c < 0x80" | (two) "0xC2 \<le> byte c" "byte c \<le> 0xDF" | (three) "0xE0 \<le> byte c" "byte c \<le> 0xEF"
    | (four) "0xF0 \<le> byte c" "byte c \<le> 0xF4"
    | (low) "0x80 \<le> byte c" "byte c < 0xC2" | (high) "0xF4 < byte c" by linarith
  then show ?thesis
  proof cases
    case one
    then show ?thesis by (simp add: s decode_rune.simps encode_valid_def)
  next
    case two
    then obtain q where q: "byte c = 0xC0 + q" using le_Suc_ex [of "0xC0" "byte c"] by auto
    then have c: "c = char_of (0xC0 + q)" by (metis char_of_char)
    consider "decode_rune s = (0xFFFD, 1)" | c1 t x where "cs = c1 # t" "cont 0x80 0xBF c1 = Some x" "decode_rune s = (q * 64 + x, 2)"
      using two q by (cases cs; cases "cont 0x80 0xBF (hd cs)") (auto simp: s decode_rune.simps Let_def)
    then show ?thesis
    proof cases
      case 2
      with two q cont_less [OF 2(2)] cont_char [OF 2(2)] c show ?thesis by (simp add: s encode_2)
    qed simp
  next
    case three
    then obtain q where q: "byte c = 0xE0 + q" using le_Suc_ex [of "0xE0" "byte c"] by auto
    then have c: "c = char_of (0xE0 + q)" by (metis char_of_char)
    from three show ?thesis
    proof (cases rule: decode_3_cases [where cs = cs])
      case 2: (good c1 c2 t x y)
      have x: "x < 64" "y < 64" "q = 0 \<Longrightarrow> 0x20 \<le> x"
        using cont_less [OF 2(2)] cont_less [OF 2(3)] cont_bounds [OF 2(2)] q by (auto split: if_splits)
      have "c1 = char_of (0x80 + x)" "c2 = char_of (0x80 + y)"
        using cont_char [OF 2(2)] cont_char [OF 2(3)] by (auto split: if_splits)
      with 2 three q c encode_3 [OF _ x] show ?thesis by (simp add: s)
    qed (simp add: s)
  next
    case four
    then obtain q where q: "byte c = 0xF0 + q" using le_Suc_ex [of "0xF0" "byte c"] by auto
    then have c: "c = char_of (0xF0 + q)" by (metis char_of_char)
    from four show ?thesis
    proof (cases rule: decode_4_cases [where cs = cs])
      case 2: (good c1 c2 c3 t x y z)
      have x: "x < 64" "y < 64" "z < 64" "q = 0 \<Longrightarrow> 0x10 \<le> x"
        using cont_less [OF 2(2)] cont_less [OF 2(3)] cont_less [OF 2(4)] cont_bounds [OF 2(2)] q by (auto split: if_splits)
      have "c1 = char_of (0x80 + x)" "c2 = char_of (0x80 + y)" "c3 = char_of (0x80 + z)"
        using cont_char [OF 2(2)] cont_char [OF 2(3)] cont_char [OF 2(4)] by (auto split: if_splits)
      with 2 four q c encode_4 [OF _ x] show ?thesis by (simp add: s)
    qed (simp add: s)
  qed (simp_all add: s decode_rune.simps Let_def)
qed

section \<open>Coercion to UTF-8\<close>

text \<open>Go's coercion to UTF-8: what a string is after it went through JSON.\<close>

definition to_valid :: "string \<Rightarrow> string" where
  "to_valid s = encode_runes (runes s)"

lemma to_valid_id [simp]: "valid_utf8 s \<Longrightarrow> to_valid s = s"
  by (simp add: to_valid_def valid_utf8_def)

lemma to_valid_eq: "to_valid s = s \<longleftrightarrow> valid_utf8 s"
  by (simp add: to_valid_def valid_utf8_def)

lemma to_valid_Nil [simp]: "to_valid s = [] \<longleftrightarrow> s = []"
  by (simp add: to_valid_def runes.simps [of s])

text \<open>The coercion never shortens a string, and lengthens every string it changes.\<close>

lemma to_valid_length: "length s \<le> length (to_valid s) \<and> (length (to_valid s) = length s \<longrightarrow> to_valid s = s)"
proof (induction s rule: runes.induct)
  case (1 s)
  show ?case
  proof (cases "s = []")
    case False
    let ?w = "snd (decode_rune s)" and ?r = "fst (decode_rune s)"
    have t: "to_valid s = encode_rune ?r @ to_valid (drop ?w s)"
      using False by (simp add: to_valid_def runes.simps [of s])
    have e: "encode_rune ?r = encode_valid ?r" using decode_rune_valid [of s] by (simp add: encode_rune_def)
    note IH = 1 [OF False]
    from decode_rune_exact [OF False] show ?thesis
    proof
      assume bad: "decode_rune s = (0xFFFD, 1)"
      then have "length (encode_rune ?r) = 3" by (simp add: encode_rune_def valid_rune_def encode_valid_def)
      with conjunct1 [OF IH] bad t have "length s + 2 \<le> length (to_valid s)" by simp
      then show ?thesis by simp
    next
      assume "encode_valid ?r = take ?w s \<and> ?w \<le> length s"
      then have "to_valid s = take ?w s @ to_valid (drop ?w s)" "?w \<le> length s" using t e by simp_all
      with IH append_take_drop_id [of ?w s] show ?thesis
        by (metis (no_types, lifting) add_le_cancel_left add_left_cancel length_append)
    qed
  qed (simp add: to_valid_def)
qed

end
