(* ===== verification/OT_Diff.thy ===== *)
theory OT_Diff
  imports OT_Cursor Go_UTF8 "HOL-Library.Sublist"
begin

text \<open>
  \<^verbatim>\<open>internal/ot/diff.go\<close>: a changeset from one text to another, from a table of longest common
  subsequences of their runes. The table is the Go slice of slices, filled in place; the
  segments are collected backwards and reversed, as in the code. The local \<^verbatim>\<open>addOp\<close> is that of
  \<^verbatim>\<open>Compose\<close>.
\<close>

section \<open>diff.go\<close>

type_synonym dp_table = "nat list list"

definition dp_cell :: "nat list \<Rightarrow> nat list \<Rightarrow> nat \<Rightarrow> dp_table \<Rightarrow> nat \<Rightarrow> dp_table" where
  "dp_cell old nw i dp j =
     dp[i := (dp ! i)[j :=
       (if old ! (i - 1) = nw ! (j - 1) then dp ! (i - 1) ! (j - 1) + 1
        else if dp ! (i - 1) ! j > dp ! i ! (j - 1) then dp ! (i - 1) ! j
        else dp ! i ! (j - 1))]]"

definition dp_row :: "nat list \<Rightarrow> nat list \<Rightarrow> dp_table \<Rightarrow> nat \<Rightarrow> dp_table" where
  "dp_row old nw dp i = foldl (dp_cell old nw i) dp [1..<Suc (length nw)]"

definition lcs_table :: "nat list \<Rightarrow> nat list \<Rightarrow> dp_table" where
  "lcs_table old nw =
     foldl (dp_row old nw) (replicate (length old + 1) (replicate (length nw + 1) 0))
       [1..<Suc (length old)]"

text \<open>The Go struct \<^verbatim>\<open>seg\<close>, with its kinds \<^verbatim>\<open>'='\<close>, \<^verbatim>\<open>'+'\<close> and \<^verbatim>\<open>'-'\<close> as constructors.\<close>

datatype seg = Same nat | Added nat | Removed nat

function (sequential) backtrack ::
    "dp_table \<Rightarrow> nat list \<Rightarrow> nat list \<Rightarrow> nat \<Rightarrow> nat \<Rightarrow> seg list \<Rightarrow> seg list" where
  "backtrack dp old nw i j segs =
     (if i > 0 \<or> j > 0 then
        (if i > 0 \<and> j > 0 \<and> old ! (i - 1) = nw ! (j - 1)
         then backtrack dp old nw (i - 1) (j - 1) (segs @ [Same (old ! (i - 1))])
         else if j > 0 \<and> (i = 0 \<or> dp ! i ! (j - 1) \<ge> dp ! (i - 1) ! j)
         then backtrack dp old nw i (j - 1) (segs @ [Added (nw ! (j - 1))])
         else backtrack dp old nw (i - 1) j (segs @ [Removed (old ! (i - 1))]))
      else segs)"
  by pat_completeness auto
termination
  by (relation "measure (\<lambda>(dp, old, nw, i, j, segs). i + j)") auto

declare backtrack.simps [simp del]

definition diff_segs :: "nat list \<Rightarrow> nat list \<Rightarrow> seg list" where
  "diff_segs old nw =
     rev (backtrack (lcs_table old nw) old nw (length old) (length nw) [])"

fun seg_op :: "seg \<Rightarrow> Op" where
  "seg_op (Same r) = retainOp (go_len (encode_rune r))"
| "seg_op (Added r) = insertOp (encode_rune r)"
| "seg_op (Removed r) = deleteOp (go_len (encode_rune r))"

definition DiffToChangeset :: "string \<Rightarrow> string \<Rightarrow> Changeset" where
  "DiffToChangeset oldText newText =
     \<lparr>OldLen = go_len oldText, NewLen = go_len newText,
      Ops = foldl addOp [] (map seg_op (diff_segs (runes oldText) (runes newText)))\<rparr>"

lemma valid_utf8_ascii: "list_all (\<lambda>c. of_char c < (0x80 :: nat)) s \<Longrightarrow> valid_utf8 s"
proof -
  assume "list_all (\<lambda>c. of_char c < (0x80 :: nat)) s"
  then have "encode_runes (map of_char s) = s" "list_all valid_rune (map of_char s)"
    by (induction s) (simp_all add: encode_rune_def encode_valid_def valid_rune_def)
  then show "valid_utf8 s" using valid_utf8_encode_runes [of "map of_char s"] by simp
qed

section \<open>The table holds the lengths of longest common subsequences\<close>

text \<open>The recurrence the table is filled by; it depends on the two prefixes only.\<close>

function lcs_len :: "'a list \<Rightarrow> 'a list \<Rightarrow> nat \<Rightarrow> nat \<Rightarrow> nat" where
  "lcs_len xs ys i j =
     (if i = 0 \<or> j = 0 then 0
      else if xs ! (i - 1) = ys ! (j - 1) then lcs_len xs ys (i - 1) (j - 1) + 1
      else max (lcs_len xs ys (i - 1) j) (lcs_len xs ys i (j - 1)))"
  by pat_completeness auto
termination
  by (relation "measure (\<lambda>(xs, ys, i, j). i + j)") auto

declare lcs_len.simps [simp del]

lemma lcs_len_0 [simp]: "lcs_len xs ys 0 j = 0" "lcs_len xs ys i 0 = 0"
  by (simp_all add: lcs_len.simps)

lemma subseq_snoc:
  assumes "subseq zs (xs @ [x])"
  shows "subseq zs xs \<or> (\<exists>us. zs = us @ [x] \<and> subseq us xs)"
proof -
  from assms obtain us vs where zs: "zs = us @ vs" and us: "subseq us xs" and vs: "subseq vs [x]"
    by (auto simp: subseq_append_iff)
  from vs have "vs = [] \<or> vs = [x]" by (cases vs) (auto split: if_splits dest: list_emb_length)
  with zs us show ?thesis by auto
qed

lemma lcs_len_bound:
  "i \<le> length xs \<Longrightarrow> j \<le> length ys \<Longrightarrow> subseq zs (take i xs) \<Longrightarrow> subseq zs (take j ys) \<Longrightarrow>
     length zs \<le> lcs_len xs ys i j"
proof (induction xs ys i j arbitrary: zs rule: lcs_len.induct)
  case (1 xs ys i j)
  show ?case
  proof (cases "i = 0 \<or> j = 0")
    case True
    with 1(6,7) show ?thesis by auto
  next
    case False
    let ?x = "xs ! (i - 1)" and ?y = "ys ! (j - 1)"
    have x: "take i xs = take (i - 1) xs @ [?x]" and y: "take j ys = take (j - 1) ys @ [?y]"
      using False 1(4,5) by (metis Suc_diff_1 Suc_le_lessD neq0_conv take_Suc_conv_app_nth)+
    note IH1 = 1(1) [OF False] and IH2 = 1(2) [OF False] and IH3 = 1(3) [OF False]
    show ?thesis
    proof (cases "?x = ?y")
      case True
      have "length (butlast zs) \<le> lcs_len xs ys (i - 1) (j - 1)"
      proof (rule IH1 [OF True])
        show "subseq (butlast zs) (take (i - 1) xs)"
          using subseq_snoc [OF 1(6) [unfolded x]] subseq_order.trans [OF prefix_imp_subseq [OF prefixeq_butlast]]
          by auto
        show "subseq (butlast zs) (take (j - 1) ys)"
          using subseq_snoc [OF 1(7) [unfolded y]] subseq_order.trans [OF prefix_imp_subseq [OF prefixeq_butlast]]
          by auto
      qed (use 1(4,5) in auto)
      with False True show ?thesis by (subst lcs_len.simps) simp
    next
      case neq: False
      from subseq_snoc [OF 1(6) [unfolded x]] subseq_snoc [OF 1(7) [unfolded y]] neq
      have "subseq zs (take (i - 1) xs) \<or> subseq zs (take (j - 1) ys)" by auto
      then have "length zs \<le> max (lcs_len xs ys (i - 1) j) (lcs_len xs ys i (j - 1))"
        using IH2 [OF neq, of zs] IH3 [OF neq, of zs] 1(4-7) by (fastforce simp: le_max_iff_disj)
      with False neq show ?thesis by (subst lcs_len.simps) simp
    qed
  qed
qed

text \<open>
  \<open>filled old nw i j dp\<close>: the table has its full size, holds the right lengths up to column
  \<open>j\<close> of row \<open>i\<close>, and zeros beyond.
\<close>

definition filled :: "nat list \<Rightarrow> nat list \<Rightarrow> nat \<Rightarrow> nat \<Rightarrow> dp_table \<Rightarrow> bool" where
  "filled old nw i j dp \<longleftrightarrow>
     length dp = Suc (length old) \<and> (\<forall>a \<le> length old. length (dp ! a) = Suc (length nw)) \<and>
     (\<forall>a \<le> length old. \<forall>b \<le> length nw.
        dp ! a ! b = (if a < i \<or> a = i \<and> b \<le> j then lcs_len old nw a b else 0))"

lemma filled_dims:
  "filled old nw i j dp \<Longrightarrow> length dp = Suc (length old)"
  "filled old nw i j dp \<Longrightarrow> a \<le> length old \<Longrightarrow> length (dp ! a) = Suc (length nw)"
  by (simp_all add: filled_def)

lemma filledD:
  "filled old nw i j dp \<Longrightarrow> a \<le> length old \<Longrightarrow> b \<le> length nw \<Longrightarrow> a < i \<or> a = i \<and> b \<le> j \<Longrightarrow>
     dp ! a ! b = lcs_len old nw a b"
  by (simp add: filled_def)

lemma filled_init:
  "filled old nw 0 (length nw) (replicate (length old + 1) (replicate (length nw + 1) 0))"
  by (simp add: filled_def del: replicate_Suc)

lemma filled_next_row: "filled old nw i (length nw) dp \<Longrightarrow> filled old nw (Suc i) 0 dp"
  by (simp add: filled_def less_Suc_eq)

lemma filled_cell:
  assumes "filled old nw (Suc i) j dp" and "i < length old" and "j < length nw"
  shows "filled old nw (Suc i) (Suc j) (dp_cell old nw (Suc i) dp (Suc j))"
proof -
  note at = filledD [OF assms(1)] and dims = filled_dims [OF assms(1)]
  have "dp ! i ! j = lcs_len old nw i j" "dp ! i ! Suc j = lcs_len old nw i (Suc j)"
    "dp ! Suc i ! j = lcs_len old nw (Suc i) j"
    using assms(2,3) by (simp_all add: at)
  then have "dp_cell old nw (Suc i) dp (Suc j) = dp[Suc i := (dp ! Suc i)[Suc j := lcs_len old nw (Suc i) (Suc j)]]"
    by (simp add: dp_cell_def lcs_len.simps [of old nw "Suc i" "Suc j"])
  then show ?thesis
    using assms dims by (auto simp: filled_def nth_list_update)
qed

lemma filled_row:
  assumes "filled old nw (Suc i) 0 dp" and "i < length old" and "j \<le> length nw"
  shows "filled old nw (Suc i) j (foldl (dp_cell old nw (Suc i)) dp [1..<Suc j])"
  using assms(3)
proof (induction j)
  case (Suc j)
  then have "filled old nw (Suc i) j (foldl (dp_cell old nw (Suc i)) dp [1..<Suc j])" by simp
  from filled_cell [OF this assms(2)] Suc.prems show ?case by (simp del: upt_Suc add: upt_Suc_append)
qed (simp add: assms(1))

lemma filled_dp_row:
  "filled old nw i (length nw) dp \<Longrightarrow> i < length old \<Longrightarrow>
     filled old nw (Suc i) (length nw) (dp_row old nw dp (Suc i))"
  unfolding dp_row_def by (rule filled_row [OF filled_next_row]) auto

lemma filled_rows:
  "i \<le> length old \<Longrightarrow>
     filled old nw i (length nw)
       (foldl (dp_row old nw) (replicate (length old + 1) (replicate (length nw + 1) 0)) [1..<Suc i])"
proof (induction i)
  case (Suc i)
  then have "filled old nw i (length nw)
      (foldl (dp_row old nw) (replicate (length old + 1) (replicate (length nw + 1) 0)) [1..<Suc i])" by simp
  from filled_dp_row [OF this] Suc.prems show ?case
    by (simp del: upt_Suc replicate_Suc add: upt_Suc_append)
qed (use filled_init in simp)

lemma lcs_table_correct:
  "i \<le> length old \<Longrightarrow> j \<le> length nw \<Longrightarrow> lcs_table old nw ! i ! j = lcs_len old nw i j"
  unfolding lcs_table_def by (rule filledD [OF filled_rows]) auto

section \<open>The segments\<close>

text \<open>The old text, the new text and the common part of a list of segments.\<close>

fun seg_old :: "seg \<Rightarrow> nat list" where
  "seg_old (Same r) = [r]"
| "seg_old (Added r) = []"
| "seg_old (Removed r) = [r]"

fun seg_new :: "seg \<Rightarrow> nat list" where
  "seg_new (Same r) = [r]"
| "seg_new (Added r) = [r]"
| "seg_new (Removed r) = []"

fun seg_kept :: "seg \<Rightarrow> nat list" where
  "seg_kept (Same r) = [r]"
| "seg_kept (Added r) = []"
| "seg_kept (Removed r) = []"

abbreviation olds :: "seg list \<Rightarrow> nat list" where
  "olds ss \<equiv> concat (map seg_old ss)"

abbreviation news :: "seg list \<Rightarrow> nat list" where
  "news ss \<equiv> concat (map seg_new ss)"

abbreviation kept :: "seg list \<Rightarrow> nat list" where
  "kept ss \<equiv> concat (map seg_kept ss)"

lemma kept_subseq: "subseq (kept ss) (olds ss)" "subseq (kept ss) (news ss)"
proof (induction ss)
  case (Cons s ss)
  { case 1 show ?case using Cons.IH(1) by (cases s) auto }
  { case 2 show ?case using Cons.IH(2) by (cases s) auto }
qed simp_all

lemma take_pred: "0 < i \<Longrightarrow> i \<le> length xs \<Longrightarrow> take (i - 1) xs @ xs ! (i - 1) # ys = take i xs @ ys"
  by (metis Suc_diff_1 Suc_le_lessD append.assoc append_Cons append_Nil take_Suc_conv_app_nth)

lemma backtrack_texts:
  "i \<le> length old \<Longrightarrow> j \<le> length nw \<Longrightarrow>
     olds (rev (backtrack dp old nw i j segs)) = take i old @ olds (rev segs) \<and>
     news (rev (backtrack dp old nw i j segs)) = take j nw @ news (rev segs)"
proof (induction dp old nw i j segs rule: backtrack.induct)
  case (1 dp old nw i j segs)
  consider (same) "i > 0" "j > 0" "old ! (i - 1) = nw ! (j - 1)"
    | (added) "\<not> (i > 0 \<and> j > 0 \<and> old ! (i - 1) = nw ! (j - 1))" "j > 0" "i = 0 \<or> dp ! i ! (j - 1) \<ge> dp ! (i - 1) ! j"
    | (removed) "\<not> (i > 0 \<and> j > 0 \<and> old ! (i - 1) = nw ! (j - 1))" "i > 0"
        "\<not> (j > 0 \<and> (i = 0 \<or> dp ! i ! (j - 1) \<ge> dp ! (i - 1) ! j))"
    | (stop) "i = 0" "j = 0"
    by blast
  then show ?case
  proof cases
    case same
    then have "backtrack dp old nw i j segs = backtrack dp old nw (i - 1) (j - 1) (segs @ [Same (old ! (i - 1))])"
      by (subst backtrack.simps) simp
    with 1(1) same 1(4,5) take_pred [of i old] take_pred [of j nw] show ?thesis by simp
  next
    case added
    then have "backtrack dp old nw i j segs = backtrack dp old nw i (j - 1) (segs @ [Added (nw ! (j - 1))])"
      by (subst backtrack.simps) auto
    with 1(2) [OF _ added(1)] added(2,3) 1(4,5) take_pred [of j nw] show ?thesis by simp
  next
    case removed
    then have "backtrack dp old nw i j segs = backtrack dp old nw (i - 1) j (segs @ [Removed (old ! (i - 1))])"
      by (subst backtrack.simps) auto
    with 1(3) [OF _ removed(1,3)] removed(2) 1(4,5) take_pred [of i old] show ?thesis by simp
  next
    case stop
    then show ?thesis by (simp add: backtrack.simps)
  qed
qed

lemma backtrack_kept:
  assumes "\<And>a b. a \<le> length old \<Longrightarrow> b \<le> length nw \<Longrightarrow> dp ! a ! b = lcs_len old nw a b"
  shows "i \<le> length old \<Longrightarrow> j \<le> length nw \<Longrightarrow>
     length (kept (rev (backtrack dp old nw i j segs))) = lcs_len old nw i j + length (kept (rev segs))"
  using assms
proof (induction dp old nw i j segs rule: backtrack.induct)
  case (1 dp old nw i j segs)
  note dp = 1(6)
  consider (same) "i > 0" "j > 0" "old ! (i - 1) = nw ! (j - 1)"
    | (added) "\<not> (i > 0 \<and> j > 0 \<and> old ! (i - 1) = nw ! (j - 1))" "j > 0" "i = 0 \<or> dp ! i ! (j - 1) \<ge> dp ! (i - 1) ! j"
    | (removed) "\<not> (i > 0 \<and> j > 0 \<and> old ! (i - 1) = nw ! (j - 1))" "i > 0"
        "\<not> (j > 0 \<and> (i = 0 \<or> dp ! i ! (j - 1) \<ge> dp ! (i - 1) ! j))"
    | (stop) "i = 0" "j = 0"
    by blast
  then show ?case
  proof cases
    case same
    then have "backtrack dp old nw i j segs = backtrack dp old nw (i - 1) (j - 1) (segs @ [Same (old ! (i - 1))])"
      by (subst backtrack.simps) simp
    moreover have "lcs_len old nw i j = lcs_len old nw (i - 1) (j - 1) + 1"
      using same by (subst lcs_len.simps) simp
    ultimately show ?thesis using 1(1) same 1(4,5) dp by simp
  next
    case added
    then have b: "backtrack dp old nw i j segs = backtrack dp old nw i (j - 1) (segs @ [Added (nw ! (j - 1))])"
      by (subst backtrack.simps) auto
    have "lcs_len old nw i j = lcs_len old nw i (j - 1)"
      using added dp [of i "j - 1"] dp [of "i - 1" j] 1(4,5) by (cases "i = 0") (simp_all add: lcs_len.simps [of old nw i j])
    with b 1(2) [OF _ added(1)] added(2,3) 1(4,5) dp show ?thesis by simp
  next
    case removed
    then have b: "backtrack dp old nw i j segs = backtrack dp old nw (i - 1) j (segs @ [Removed (old ! (i - 1))])"
      by (subst backtrack.simps) auto
    have "lcs_len old nw i j = lcs_len old nw (i - 1) j"
      using removed dp [of i "j - 1"] dp [of "i - 1" j] 1(4,5) by (cases "j = 0") (simp_all add: lcs_len.simps [of old nw i j])
    with b 1(3) [OF _ removed(1,3)] removed(2) 1(4,5) dp show ?thesis by simp
  next
    case stop
    then show ?thesis by (simp add: backtrack.simps)
  qed
qed

lemma diff_segs_texts: "olds (diff_segs old nw) = old" "news (diff_segs old nw) = nw"
  using backtrack_texts [of "length old" old "length nw" nw] by (simp_all add: diff_segs_def)

lemma diff_segs_kept: "length (kept (diff_segs old nw)) = lcs_len old nw (length old) (length nw)"
  unfolding diff_segs_def using backtrack_kept [OF lcs_table_correct, of old nw "length old" "length nw" "[]"] by simp

section \<open>The changeset\<close>

fun seg_edit :: "seg \<Rightarrow> edit" where
  "seg_edit (Same r) = Keep (length (encode_rune r))"
| "seg_edit (Added r) = Ins (encode_rune r)"
| "seg_edit (Removed r) = Del (length (encode_rune r))"

lemma seg_op_edit: "seg_op s = edit_op (seg_edit s)"
  by (cases s) (simp_all add: go_len_def)

lemma proper_seg_edit: "proper (seg_edit s)"
  by (cases s) simp_all

lemma seg_edits_apply:
  "apply_edits (map seg_edit ss) (encode_runes (olds ss)) = Some (encode_runes (news ss))"
proof (induction ss)
  case (Cons s ss)
  then show ?case by (cases s) simp_all
qed simp

lemma DiffToChangeset_edits:
  assumes "valid_utf8 oldText" and "valid_utf8 newText" and "go_len oldText < 2 ^ 63" and "go_len newText < 2 ^ 63"
  shows "wf_changeset (DiffToChangeset oldText newText) \<and> canonical (DiffToChangeset oldText newText) \<and>
    apply_edits (edits (Ops (DiffToChangeset oldText newText))) oldText = Some newText"
proof -
  let ?ss = "diff_segs (runes oldText) (runes newText)"
  let ?es = "map seg_edit ?ss" and ?ops = "foldl addOp [] (map seg_op (diff_segs (runes oldText) (runes newText)))"
  have app: "apply_edits ?es oldText = Some newText"
    using seg_edits_apply [of ?ss] assms(1,2) by (simp add: diff_segs_texts valid_utf8_def)
  have len: "length oldText = src_len ?es" "length newText = dst_len ?es"
    using apply_edits_length [OF app] by auto
  have ok: "list_all proper ?es" by (simp add: list_all_iff proper_seg_edit)
  have "seg_op = edit_op \<circ> seg_edit" by (simp add: fun_eq_iff seg_op_edit)
  then have "?ops = addOps [] ?es" by simp
  moreover have "list_all op_ok (addOps [] ?es) \<and> edits (addOps [] ?es) = push_edits [] ?es"
    using addOps_edits [OF _ ok, of "[]"] assms(3) len(1) by (simp add: go_len_def)
  ultimately have ops: "list_all op_ok ?ops" "edits ?ops = push_edits [] ?es" by simp_all
  have "src_len (edits ?ops) = length oldText" "dst_len (edits ?ops) = length newText"
    using len by (simp_all add: ops(2))
  moreover have "apply_edits (edits ?ops) oldText = Some newText"
    using app by (simp add: ops(2) apply_edits_pushes)
  moreover have "no_adjacent_ins (edits ?ops)"
    by (rule normal_no_adjacent_ins) (simp add: ops(2) normal_pushes)
  ultimately show ?thesis
    using ops(1) assms(3,4) by (simp add: DiffToChangeset_def wf_changeset_def canonical_def go_len_def)
qed

section \<open>Properties\<close>

text \<open>
  C19. The changeset of a diff transforms the old text into the new one: for texts in valid UTF-8
  it is well-formed and in canonical form, \<^verbatim>\<open>Validate\<close> accepts it, and applying it to the old
  text gives exactly the new text.
\<close>

theorem DiffToChangeset_correct:
  assumes "valid_utf8 oldText" and "valid_utf8 newText" and "go_len oldText < 2 ^ 63" and "go_len newText < 2 ^ 63"
  shows "ApplyChangeset oldText (DiffToChangeset oldText newText) = Ok newText \<and>
    Validate (DiffToChangeset oldText newText) = None \<and>
    wf_changeset (DiffToChangeset oldText newText) \<and> canonical (DiffToChangeset oldText newText)"
proof -
  let ?c = "DiffToChangeset oldText newText"
  note d = DiffToChangeset_edits [OF assms]
  have "OldLen ?c = go_len oldText" by (simp add: DiffToChangeset_def)
  with d have "ApplyChangeset oldText ?c = Ok newText" using ApplyChangeset_edits by blast
  with d Validate_wf show ?thesis by blast
qed

theorem DiffToChangeset_correct_witness:
  "ApplyChangeset ''abcd'' (DiffToChangeset ''abcd'' ''axcde'') = Ok ''axcde''"
  using DiffToChangeset_correct [of "''abcd''" "''axcde''"]
  by (simp add: valid_utf8_ascii go_len_def)

text \<open>
  C26. The diff is minimal: the runes it retains are a longest common subsequence of the two
  texts, so no changeset that works rune by rune retains more.
\<close>

theorem diff_is_longest:
  "subseq (kept (diff_segs old nw)) old \<and> subseq (kept (diff_segs old nw)) nw \<and>
   (\<forall>zs. subseq zs old \<and> subseq zs nw \<longrightarrow> length zs \<le> length (kept (diff_segs old nw)))"
  using kept_subseq [of "diff_segs old nw"] lcs_len_bound [of "length old" old "length nw" nw]
  by (simp add: diff_segs_texts diff_segs_kept)

theorem diff_is_longest_witness:
  "3 \<le> length (kept (diff_segs [1, 2, 3, 4] [1, 9, 3, 4, 5])) \<and>
   kept (diff_segs [1, 2, 3, 4] [1, 9, 3, 4, 5]) = [1, 3, 4]"
proof -
  have "subseq [1, 3, 4] [1, 2, 3, 4 :: nat] \<and> subseq [1, 3, 4] [1, 9, 3, 4, 5 :: nat]" by simp
  with diff_is_longest [of "[1, 2, 3, 4]" "[1, 9, 3, 4, 5]"]
  have "length [1, 3, 4 :: nat] \<le> length (kept (diff_segs [1, 2, 3, 4] [1, 9, 3, 4, 5]))" by blast
  moreover have "kept (diff_segs [1, 2, 3, 4] [1, 9, 3, 4, 5]) = [1, 3, 4]" by code_simp
  ultimately show ?thesis by simp
qed

text \<open>
  On a text that is not valid UTF-8 the diff is not even a valid changeset: a stray byte is
  read as U+FFFD, whose encoding is three bytes long.
\<close>

theorem DiffToChangeset_invalid_utf8:
  "\<exists>oldText newText e. Validate (DiffToChangeset oldText newText) = Some e \<and>
     (\<exists>err. ApplyChangeset oldText (DiffToChangeset oldText newText) = Err err)"
proof -
  have "runes [CHR 0xFF] = [0xFFFD]" by (simp add: runes.simps decode_rune.simps)
  moreover have "diff_segs [0xFFFD] [] = [Removed 0xFFFD]"
    by (simp add: diff_segs_def backtrack.simps lcs_table_def dp_row_def)
  moreover have "length (encode_rune 0xFFFD) = 3" by (simp add: encode_rune_def length_encode_valid valid_rune_def)
  ultimately have c: "DiffToChangeset [CHR 0xFF] [] = \<lparr>OldLen = 1, NewLen = 0, Ops = [deleteOp 3]\<rparr>"
    by (simp add: DiffToChangeset_def addOp_def go_len_def)
  have "Validate (DiffToChangeset [CHR 0xFF] []) = Some (ConsumeMismatch 3 1)"
    by (simp add: c Validate_def deleteOp_def wrap64_def)
  moreover have "ApplyChangeset [CHR 0xFF] (DiffToChangeset [CHR 0xFF] []) = Err (DeleteExceeds 3 0 1)"
    by (simp add: c ApplyChangeset_def deleteOp_def wrap64_def go_len_def)
  ultimately show ?thesis by blast
qed

end
