(* ===== verification/Raft_Types.thy ===== *)
theory Raft_Types
  imports Go_Prelude
begin

text \<open>
  The vocabulary of package \<^verbatim>\<open>raft\<close>: \<^verbatim>\<open>types.go\<close> (states, log entries, RPC messages, peers),
  \<^verbatim>\<open>config.go\<close> (configuration and its validation) and \<^verbatim>\<open>future.go\<close> (the promise returned by
  \<^verbatim>\<open>RaftNode.Apply\<close>). \<^verbatim>\<open>uint64\<close> values are natural numbers; every addition and subtraction the
  code makes on them is written with its wrap-around (\<open>u64\<close>, \<open>u64_pred\<close>).
\<close>

section \<open>types.go\<close>

datatype ServerState = Follower | Candidate | Leader

record LogEntry =
  Index :: nat
  Term :: nat
  Data :: string

record AppendEntriesRequest =
  ae_Term :: nat
  ae_LeaderID :: string
  ae_PrevLogIndex :: nat
  ae_PrevLogTerm :: nat
  ae_Entries :: "LogEntry list"
  ae_LeaderCommit :: nat

record AppendEntriesResponse =
  aer_Term :: nat
  aer_Success :: bool
  aer_ConflictTerm :: nat
  aer_ConflictIndex :: nat

record RequestVoteRequest =
  rv_Term :: nat
  rv_CandidateID :: string
  rv_LastLogIndex :: nat
  rv_LastLogTerm :: nat

record RequestVoteResponse =
  rvr_Term :: nat
  rvr_VoteGranted :: bool

text \<open>The dynamic type of \<^verbatim>\<open>RPC.Command\<close> and of \<^verbatim>\<open>RPCResponse.Response\<close>.\<close>

datatype RPC = AppendEntriesRPC AppendEntriesRequest | RequestVoteRPC RequestVoteRequest | OtherRPC

datatype RPCResponse =
    AppendEntriesReply AppendEntriesResponse
  | RequestVoteReply RequestVoteResponse
  | UnknownRPCType

record PeerConfig =
  ID :: string
  Address :: string

text \<open>\<^verbatim>\<open>x - 1\<close> on \<^verbatim>\<open>uint64\<close>.\<close>

definition u64_pred :: "nat \<Rightarrow> nat" where
  "u64_pred x = (if x = 0 then 2 ^ 64 - 1 else x - 1)"

section \<open>config.go\<close>

text \<open>
  Durations are counted in nanoseconds. For the three interface-valued fields only whether
  they are \<^verbatim>\<open>nil\<close> matters here.
\<close>

record Config =
  ServerID :: string
  Peers :: "PeerConfig list"
  HeartbeatInterval :: int
  ElectionTimeoutMin :: int
  ElectionTimeoutMax :: int
  has_LogStore :: bool
  has_StableStore :: bool
  has_FSM :: bool

definition millisecond :: int where
  "millisecond = 1000000"

definition DefaultConfig :: Config where
  "DefaultConfig = \<lparr>ServerID = [], Peers = [], HeartbeatInterval = 150 * millisecond,
     ElectionTimeoutMin = 1000 * millisecond, ElectionTimeoutMax = 2000 * millisecond,
     has_LogStore = False, has_StableStore = False, has_FSM = False\<rparr>"

datatype store_error = ErrLogNotFound nat | ErrStoreFailed string

datatype raft_error =
    ErrNotLeader
  | ErrShutdown
  | ErrTimeout
  | ErrLeaderLost
  | ErrStoreLog store_error
  | ErrConfigMissingField string
  | ErrRestore store_error

definition validate :: "Config \<Rightarrow> raft_error option" where
  "validate c =
     (if ServerID c = [] then Some (ErrConfigMissingField ''ServerID'')
      else if length (Peers c) = 0 then Some (ErrConfigMissingField ''Peers'')
      else if \<not> has_LogStore c then Some (ErrConfigMissingField ''LogStore'')
      else if \<not> has_StableStore c then Some (ErrConfigMissingField ''StableStore'')
      else if \<not> has_FSM c then Some (ErrConfigMissingField ''FSM'')
      else if HeartbeatInterval c \<le> 0 then Some (ErrConfigMissingField ''HeartbeatInterval'')
      else if ElectionTimeoutMin c \<le> 0 \<or> ElectionTimeoutMax c \<le> ElectionTimeoutMin c
        then Some (ErrConfigMissingField ''ElectionTimeout (invalid range)'')
      else if \<not> list_ex (\<lambda>p. ID p = ServerID c) (Peers c)
        then Some (ErrConfigMissingField ''ServerID not found in Peers list'')
      else None)"

text \<open>
  \<^verbatim>\<open>for _, p := range Peers { if p.ID == id { addr = p.Address; break } }\<close>: the address of
  the first peer with that id, or the old value.
\<close>

fun find_addr :: "PeerConfig list \<Rightarrow> string \<Rightarrow> string \<Rightarrow> string" where
  "find_addr [] peer old = old"
| "find_addr (p # ps) peer old = (if ID p = peer then Address p else find_addr ps peer old)"

section \<open>future.go\<close>

text \<open>
  \<open>errCh\<close> is the channel of capacity 1: \<open>None\<close> when empty, \<open>Some e\<close> when it holds the
  error \<open>e\<close> (\<open>None\<close> being a nil error). \<open>responded\<close> and \<open>read_done\<close> are the two
  \<^verbatim>\<open>sync.Once\<close> flags, \<open>fut_err\<close> the cached error.
\<close>

record 'r ApplyFuture =
  errCh :: "raft_error option option"
  response :: "'r option"
  responded :: bool
  read_done :: bool
  fut_err :: "raft_error option"

definition newApplyFuture :: "'r ApplyFuture" where
  "newApplyFuture = \<lparr>errCh = None, response = None, responded = False, read_done = False,
                     fut_err = None\<rparr>"

definition respond :: "raft_error option \<Rightarrow> 'r option \<Rightarrow> 'r ApplyFuture \<Rightarrow> 'r ApplyFuture" where
  "respond err resp f =
     (if responded f then f
      else f\<lparr>responded := True, response := resp, errCh := Some err\<rparr>)"

text \<open>\<^verbatim>\<open>Error\<close> blocks (\<open>None\<close>) until the channel holds a value.\<close>

definition Error :: "'r ApplyFuture \<Rightarrow> ('r ApplyFuture \<times> raft_error option) option" where
  "Error f =
     (if read_done f then Some (f, fut_err f)
      else case errCh f of
             None \<Rightarrow> None
           | Some e \<Rightarrow> Some (f\<lparr>errCh := None, read_done := True, fut_err := e\<rparr>, e))"

definition Response :: "'r ApplyFuture \<Rightarrow> 'r option" where
  "Response f = response f"

section \<open>Lemmas\<close>

lemma u64_pred_pos [simp]: "0 < x \<Longrightarrow> u64_pred x = x - 1"
  by (simp add: u64_pred_def)

lemma find_addr_mem:
  "list_ex (\<lambda>p. ID p = i) ps \<Longrightarrow> \<exists>p \<in> set ps. ID p = i \<and> find_addr ps i old = Address p"
  by (induction ps) auto

lemma validate_None:
  "validate c = None \<longleftrightarrow>
     ServerID c \<noteq> [] \<and> has_LogStore c \<and> has_StableStore c \<and> has_FSM c \<and>
     0 < HeartbeatInterval c \<and> 0 < ElectionTimeoutMin c \<and>
     ElectionTimeoutMin c < ElectionTimeoutMax c \<and>
     (\<exists>p \<in> set (Peers c). ID p = ServerID c)"
  by (auto simp: validate_def list_ex_iff)

lemma respond_responded [simp]: "responded f \<Longrightarrow> respond e r f = f"
  by (simp add: respond_def)

lemma responded_respond [simp]: "responded (respond e r f)"
  by (simp add: respond_def)

text \<open>
  A future as its callers see it: what \<^verbatim>\<open>Error\<close> returns, now or cached.
\<close>

definition outcome :: "'r ApplyFuture \<Rightarrow> (raft_error option \<times> 'r option) option" where
  "outcome f = map_option (\<lambda>(f', e). (e, Response f')) (Error f)"

definition future_ok :: "'r ApplyFuture \<Rightarrow> bool" where
  "future_ok f \<longleftrightarrow> (read_done f \<longrightarrow> responded f) \<and> (errCh f \<noteq> None \<longrightarrow> responded f) \<and>
     (responded f \<longrightarrow> read_done f \<or> errCh f \<noteq> None)"

lemma future_ok_new [simp]: "future_ok newApplyFuture"
  by (simp add: future_ok_def newApplyFuture_def)

lemma future_ok_respond: "future_ok f \<Longrightarrow> future_ok (respond e r f)"
  by (simp add: future_ok_def respond_def)

lemma future_ok_Error: "future_ok f \<Longrightarrow> Error f = Some (f', e) \<Longrightarrow> future_ok f'"
  by (auto simp: future_ok_def Error_def split: if_splits option.splits)

lemma outcome_new [simp]: "outcome newApplyFuture = None"
  by (simp add: outcome_def newApplyFuture_def Error_def)

lemma outcome_respond:
  "future_ok f \<Longrightarrow> outcome (respond e r f) = (if responded f then outcome f else Some (e, r))"
  by (auto simp: outcome_def respond_def Error_def Response_def future_ok_def)

lemma outcome_Error: "Error f = Some (f', e) \<Longrightarrow> outcome f' = outcome f"
  by (auto simp: outcome_def Error_def Response_def split: if_splits option.splits)

end
