(* ===== verification/Raft_Store.thy ===== *)
theory Raft_Store
  imports Raft_Types "HOL-Library.AList"
begin

text \<open>
  The storage interfaces of \<^verbatim>\<open>types.go\<close> (\<^verbatim>\<open>LogStore\<close>, \<^verbatim>\<open>StableStore\<close>) and their in-memory
  implementations in \<^verbatim>\<open>inmem.go\<close>. An interface value is a record of operations on a hidden
  state type, as in Go; what a Raft node relies on is stated by the locales \<open>log_store\<close> and
  \<open>stable_store\<close>, which are interpreted on the in-memory stores at the end. Go's \<^verbatim>\<open>error\<close>
  results are the option components.
\<close>

section \<open>The interfaces\<close>

record 'l LogStore =
  FirstIndex :: "'l \<Rightarrow> nat \<times> store_error option"
  LastIndex :: "'l \<Rightarrow> nat \<times> store_error option"
  GetLog :: "'l \<Rightarrow> nat \<Rightarrow> LogEntry option \<times> store_error option"
  StoreLog :: "'l \<Rightarrow> LogEntry \<Rightarrow> 'l \<times> store_error option"
  StoreLogs :: "'l \<Rightarrow> LogEntry list \<Rightarrow> 'l \<times> store_error option"
  DeleteRange :: "'l \<Rightarrow> nat \<Rightarrow> nat \<Rightarrow> ('l \<times> store_error option) option"

record 's StableStore =
  Set :: "'s \<Rightarrow> string \<Rightarrow> string \<Rightarrow> 's \<times> store_error option"
  Get :: "'s \<Rightarrow> string \<Rightarrow> string \<times> store_error option"
  SetUint64 :: "'s \<Rightarrow> string \<Rightarrow> nat \<Rightarrow> 's \<times> store_error option"
  GetUint64 :: "'s \<Rightarrow> string \<Rightarrow> (store_error, nat) go_result"

definition KeyCurrentTerm :: string where
  "KeyCurrentTerm = ''CurrentTerm''"

definition KeyVotedFor :: string where
  "KeyVotedFor = ''VotedFor''"

section \<open>Big-endian encoding\<close>

text \<open>
  \<^verbatim>\<open>binary.BigEndian.PutUint64\<close> and \<^verbatim>\<open>binary.BigEndian.Uint64\<close>; the latter panics on
  fewer than 8 bytes and ignores bytes beyond the eighth.
\<close>

fun be_bytes :: "nat \<Rightarrow> nat \<Rightarrow> string" where
  "be_bytes 0 v = []"
| "be_bytes (Suc k) v = char_of (v div 256 ^ k mod 256) # be_bytes k v"

fun be_value :: "string \<Rightarrow> nat" where
  "be_value [] = 0"
| "be_value (c # cs) = of_char c * 256 ^ length cs + be_value cs"

definition uint64ToBytes :: "nat \<Rightarrow> string" where
  "uint64ToBytes v = be_bytes 8 v"

definition bytesToUint64 :: "string \<Rightarrow> nat option" where
  "bytesToUint64 b = (if length b < 8 then None else Some (be_value (take 8 b)))"

section \<open>InmemLogStore\<close>

text \<open>The Go map \<^verbatim>\<open>entries\<close> is an association list with distinct keys.\<close>

record InmemLogStore =
  entries :: "(nat \<times> LogEntry) list"
  lowIdx :: nat
  highIdx :: nat

definition NewInmemLogStore :: InmemLogStore where
  "NewInmemLogStore = \<lparr>entries = [], lowIdx = 0, highIdx = 0\<rparr>"

definition inmem_FirstIndex :: "InmemLogStore \<Rightarrow> nat \<times> store_error option" where
  "inmem_FirstIndex s = (lowIdx s, None)"

definition inmem_LastIndex :: "InmemLogStore \<Rightarrow> nat \<times> store_error option" where
  "inmem_LastIndex s = (highIdx s, None)"

definition inmem_GetLog :: "InmemLogStore \<Rightarrow> nat \<Rightarrow> LogEntry option \<times> store_error option" where
  "inmem_GetLog s index =
     (case map_of (entries s) index of
        None \<Rightarrow> (None, Some (ErrLogNotFound index))
      | Some entry \<Rightarrow> (Some entry, None))"

definition store_one :: "InmemLogStore \<Rightarrow> LogEntry \<Rightarrow> InmemLogStore" where
  "store_one s e =
     s\<lparr>entries := AList.update (Index e) e (entries s),
       lowIdx := (if lowIdx s = 0 \<or> Index e < lowIdx s then Index e else lowIdx s),
       highIdx := (if highIdx s < Index e then Index e else highIdx s)\<rparr>"

definition inmem_StoreLogs :: "InmemLogStore \<Rightarrow> LogEntry list \<Rightarrow> InmemLogStore \<times> store_error option" where
  "inmem_StoreLogs s es = (foldl store_one s es, None)"

definition inmem_StoreLog :: "InmemLogStore \<Rightarrow> LogEntry \<Rightarrow> InmemLogStore \<times> store_error option" where
  "inmem_StoreLog s e = inmem_StoreLogs s [e]"

text \<open>One step of the loop that recomputes the bounds over the keys that are left.\<close>

definition rebound :: "nat \<times> nat \<Rightarrow> nat \<Rightarrow> nat \<times> nat" where
  "rebound lh idx =
     (if fst lh = 0 \<or> idx < fst lh then idx else fst lh,
      if snd lh < idx then idx else snd lh)"

text \<open>
  The loop \<^verbatim>\<open>for i := min; i <= max; i++\<close> does not end for the largest \<^verbatim>\<open>uint64\<close>: that is
  the result \<open>None\<close>.
\<close>

definition inmem_DeleteRange ::
    "InmemLogStore \<Rightarrow> nat \<Rightarrow> nat \<Rightarrow> (InmemLogStore \<times> store_error option) option" where
  "inmem_DeleteRange s lo hi =
     (if lo \<le> hi \<and> 2 ^ 64 - 1 \<le> hi then None
      else
        let left = foldl (\<lambda>m i. AList.delete i m) (entries s) [lo..<Suc hi];
            bounds = foldl rebound (0, 0) (map fst left)
        in Some (\<lparr>entries = left, lowIdx = fst bounds, highIdx = snd bounds\<rparr>, None))"

definition inmem_log :: "InmemLogStore LogStore" where
  "inmem_log = \<lparr>FirstIndex = inmem_FirstIndex, LastIndex = inmem_LastIndex,
     GetLog = inmem_GetLog, StoreLog = inmem_StoreLog, StoreLogs = inmem_StoreLogs,
     DeleteRange = inmem_DeleteRange\<rparr>"

section \<open>InmemStableStore\<close>

text \<open>A missing key reads as \<^verbatim>\<open>nil\<close>, the empty byte string.\<close>

record InmemStableStore =
  kv :: "(string \<times> string) list"

definition NewInmemStableStore :: InmemStableStore where
  "NewInmemStableStore = \<lparr>kv = []\<rparr>"

definition inmem_Set :: "InmemStableStore \<Rightarrow> string \<Rightarrow> string \<Rightarrow> InmemStableStore \<times> store_error option" where
  "inmem_Set s key val = (s\<lparr>kv := AList.update key val (kv s)\<rparr>, None)"

definition inmem_Get :: "InmemStableStore \<Rightarrow> string \<Rightarrow> string \<times> store_error option" where
  "inmem_Get s key = (case map_of (kv s) key of None \<Rightarrow> ([], None) | Some val \<Rightarrow> (val, None))"

definition inmem_SetUint64 :: "InmemStableStore \<Rightarrow> string \<Rightarrow> nat \<Rightarrow> InmemStableStore \<times> store_error option" where
  "inmem_SetUint64 s key val = inmem_Set s key (uint64ToBytes val)"

definition inmem_GetUint64 :: "InmemStableStore \<Rightarrow> string \<Rightarrow> (store_error, nat) go_result" where
  "inmem_GetUint64 s key =
     (case inmem_Get s key of
        (val, Some err) \<Rightarrow> Err err
      | (val, None) \<Rightarrow>
          if length val = 0 then Ok 0
          else case bytesToUint64 val of None \<Rightarrow> Panic | Some n \<Rightarrow> Ok n)"

definition inmem_stable :: "InmemStableStore StableStore" where
  "inmem_stable = \<lparr>Set = inmem_Set, Get = inmem_Get, SetUint64 = inmem_SetUint64,
     GetUint64 = inmem_GetUint64\<rparr>"

section \<open>Encoding lemmas\<close>

lemma length_be_bytes [simp]: "length (be_bytes k v) = k"
  by (induction k) auto

lemma be_value_be_bytes: "be_value (be_bytes k v) = v mod 256 ^ k"
proof (induction k)
  case (Suc k)
  have "v mod 256 ^ Suc k = 256 ^ k * (v div 256 ^ k mod 256) + v mod 256 ^ k"
    using mod_mult2_eq [of v "256 ^ k" 256] by (simp add: mult.commute)
  with Suc show ?case by (simp add: mult.commute)
qed simp

lemma bytesToUint64_uint64ToBytes: "v < 2 ^ 64 \<Longrightarrow> bytesToUint64 (uint64ToBytes v) = Some v"
  by (simp add: bytesToUint64_def uint64ToBytes_def be_value_be_bytes)

lemma length_uint64ToBytes [simp]: "length (uint64ToBytes v) = 8"
  by (simp add: uint64ToBytes_def)

lemma be_value_less: "be_value cs < 256 ^ length cs"
proof (induction cs)
  case (Cons c cs)
  have "of_char c \<le> (255 :: nat)"
    using nat_of_char_less_256 [of c] by linarith
  then have "of_char c * 256 ^ length cs \<le> 255 * (256 :: nat) ^ length cs" by simp
  then have "of_char c * 256 ^ length cs + be_value cs < 255 * 256 ^ length cs + 256 ^ length cs"
    using Cons by (rule add_le_less_mono)
  then show ?case by simp
qed simp

text \<open>The order \<^verbatim>\<open>bbolt\<close> sorts keys by (bytewise) is the numeric order.\<close>

lemma be_value_mono: "length xs = length ys \<Longrightarrow> xs < ys \<Longrightarrow> be_value xs < be_value ys"
proof (induction xs arbitrary: ys)
  case (Cons x xs)
  then obtain y ys' where ys: "ys = y # ys'" and len: "length xs = length ys'"
    by (cases ys) auto
  show ?case
  proof (cases "x = y")
    case True
    with Cons ys len show ?thesis by simp
  next
    case False
    with Cons.prems(2) ys have "x < y" by simp
    then have "Suc (of_char x) \<le> (of_char y :: nat)" by (simp add: less_char_def Suc_le_eq)
    then have "Suc (of_char x) * 256 ^ length xs \<le> of_char y * (256 :: nat) ^ length xs"
      by (rule mult_le_mono1)
    with be_value_less [of xs] ys len show ?thesis by simp
  qed
qed simp

lemma uint64ToBytes_less_iff:
  assumes "v < 2 ^ 64" and "w < 2 ^ 64"
  shows "uint64ToBytes v < uint64ToBytes w \<longleftrightarrow> v < w"
proof -
  have eq: "be_value (uint64ToBytes x) = x" if "x < 2 ^ 64" for x
    using that by (simp add: uint64ToBytes_def be_value_be_bytes)
  show ?thesis
    using be_value_mono [of "uint64ToBytes v" "uint64ToBytes w"]
      be_value_mono [of "uint64ToBytes w" "uint64ToBytes v"] eq assms
    by (metis length_uint64ToBytes linorder_less_linear order_less_asym)
qed

section \<open>What a Raft node relies on\<close>

text \<open>
  The abstract state of a log store is a finite map from positive indices to entries. A write
  may fail (a transaction that does not commit), and then changes nothing; the entry a failed
  \<^verbatim>\<open>GetLog\<close> returns beside its error is not specified.
\<close>

definition store_map :: "LogEntry list \<Rightarrow> nat \<rightharpoonup> LogEntry" where
  "store_map es = map_of (rev (map (\<lambda>e. (Index e, e)) es))"

locale log_store =
  fixes lops :: "'l LogStore"
    and inv :: "'l \<Rightarrow> bool"
    and abs :: "'l \<Rightarrow> nat \<rightharpoonup> LogEntry"
  assumes finite_abs: "inv s \<Longrightarrow> finite (dom (abs s))"
    and abs_pos: "inv s \<Longrightarrow> abs s 0 = None"
    and LastIndex_law: "inv s \<Longrightarrow> LastIndex lops s = (Max (insert 0 (dom (abs s))), None)"
    and GetLog_hit: "inv s \<Longrightarrow> abs s i = Some e \<Longrightarrow> GetLog lops s i = (Some e, None)"
    and GetLog_miss: "inv s \<Longrightarrow> abs s i = None \<Longrightarrow> \<exists>err. snd (GetLog lops s i) = Some err"
    and StoreLog_law: "StoreLog lops s e = StoreLogs lops s [e]"
    and StoreLogs_law: "inv s \<Longrightarrow> \<forall>e \<in> set es. 0 < Index e \<Longrightarrow> StoreLogs lops s es = (s', err) \<Longrightarrow>
      inv s' \<and> abs s' = (if err = None then abs s ++ store_map es else abs s)"
    and DeleteRange_law: "inv s \<Longrightarrow> hi < 2 ^ 64 - 1 \<Longrightarrow>
      \<exists>s' err. DeleteRange lops s lo hi = Some (s', err) \<and> inv s' \<and>
        abs s' = (if err = None then abs s |` (- {lo..hi}) else abs s)"

text \<open>A log store whose writes never fail, as the in-memory one.\<close>

locale reliable_log_store = log_store +
  assumes StoreLogs_reliable: "snd (StoreLogs lops s es) = None"
    and DeleteRange_reliable: "DeleteRange lops s lo hi = Some (s', err) \<Longrightarrow> err = None"

text \<open>
  The map of a log without gaps is a list: entry \<open>i\<close> is element \<open>i - 1\<close>, and the entries
  carry their position.
\<close>

definition represents :: "(nat \<rightharpoonup> LogEntry) \<Rightarrow> LogEntry list \<Rightarrow> bool" where
  "represents m L \<longleftrightarrow>
     (\<forall>i. m i = (if 0 < i \<and> i \<le> length L then Some (L ! (i - 1)) else None)) \<and>
     map Index L = [1..<Suc (length L)]"

definition consecutive :: "nat \<Rightarrow> LogEntry list \<Rightarrow> bool" where
  "consecutive prev es \<longleftrightarrow> map Index es = [Suc prev..<Suc (prev + length es)]"

lemma consecutive_Nil [simp]: "consecutive prev []"
  by (simp add: consecutive_def)

lemma consecutive_Cons [simp]:
  "consecutive prev (e # es) \<longleftrightarrow> Index e = Suc prev \<and> consecutive (Suc prev) es"
  by (auto simp: consecutive_def upt_conv_Cons)

lemma consecutive_append:
  "consecutive prev (xs @ ys) \<longleftrightarrow> consecutive prev xs \<and> consecutive (prev + length xs) ys"
  by (induction xs arbitrary: prev) auto

lemma consecutive_take: "consecutive prev es \<Longrightarrow> consecutive prev (take n es)"
  using consecutive_append [of prev "take n es" "drop n es"] by simp

lemma consecutive_nth: "consecutive prev es \<Longrightarrow> k < length es \<Longrightarrow> Index (es ! k) = Suc (prev + k)"
  by (induction es arbitrary: prev k) (auto simp: nth_Cons split: nat.splits)

lemma consecutive_pos: "consecutive prev es \<Longrightarrow> e \<in> set es \<Longrightarrow> 0 < Index e"
  by (induction es arbitrary: prev) auto

lemma represents_consecutive: "represents m L \<Longrightarrow> consecutive 0 L"
  by (simp add: represents_def consecutive_def)

lemma represents_at: "represents m L \<Longrightarrow> 0 < i \<Longrightarrow> i \<le> length L \<Longrightarrow> m i = Some (L ! (i - 1))"
  by (simp add: represents_def)

lemma represents_none: "represents m L \<Longrightarrow> i = 0 \<or> length L < i \<Longrightarrow> m i = None"
  by (auto simp: represents_def)

lemma represents_dom: "represents m L \<Longrightarrow> dom m = {1..length L}"
  by (auto simp: represents_def dom_def split: if_splits)

lemma represents_unique:
  assumes "represents m L" and "represents m M"
  shows "L = M"
proof (rule nth_equalityI)
  have "{1..length L} = {1..length M}"
    by (rule trans [OF represents_dom [OF assms(1), symmetric] represents_dom [OF assms(2)]])
  then have "card {1..length L} = card {1..length M}" by (rule arg_cong)
  then show len: "length L = length M" by simp
  show "L ! i = M ! i" if "i < length L" for i
    using represents_at [OF assms(1), of "Suc i"] represents_at [OF assms(2), of "Suc i"] that len by simp
qed

lemma represents_empty: "represents Map.empty []"
  by (auto simp: represents_def)

lemma store_map_consecutive:
  "consecutive prev es \<Longrightarrow>
   store_map es i = (if prev < i \<and> i \<le> prev + length es then Some (es ! (i - prev - 1)) else None)"
proof (induction es arbitrary: prev)
  case (Cons e es)
  have "store_map (e # es) = [Index e \<mapsto> e] ++ store_map es"
    by (simp add: store_map_def map_add_def fun_eq_iff split: option.splits)
  with Cons show ?case by (auto simp: map_add_def nth_Cons split: nat.splits)
qed (simp add: store_map_def)

lemma represents_store:
  assumes "represents m L" and "consecutive (length L) es"
  shows "represents (m ++ store_map es) (L @ es)"
proof -
  have "consecutive 0 (L @ es)"
    using represents_consecutive [OF assms(1)] assms(2) by (simp add: consecutive_append)
  moreover have "(m ++ store_map es) i = (if 0 < i \<and> i \<le> length (L @ es) then Some ((L @ es) ! (i - 1)) else None)" for i
    using assms(1) by (auto simp: map_add_def store_map_consecutive [OF assms(2)] represents_def nth_append)
  ultimately show ?thesis by (simp add: represents_def consecutive_def)
qed

lemma represents_delete:
  assumes "represents m L" and "0 < lo" and "length L \<le> hi"
  shows "represents (m |` (- {lo..hi})) (take (lo - 1) L)"
proof -
  have "(m |` (- {lo..hi})) i =
      (if 0 < i \<and> i \<le> length (take (lo - 1) L) then Some (take (lo - 1) L ! (i - 1)) else None)" for i
    using assms by (auto simp: represents_def restrict_map_def min_def)
  then show ?thesis
    using consecutive_take [OF represents_consecutive [OF assms(1)], of "lo - 1"]
    by (auto simp: represents_def consecutive_def simp del: length_take)
qed

text \<open>Client lemmas: the operations on a store that holds a log without gaps.\<close>

context log_store
begin

definition holds :: "'l \<Rightarrow> LogEntry list \<Rightarrow> bool" where
  "holds s L \<longleftrightarrow> inv s \<and> represents (abs s) L"

lemma LastIndex_holds: "holds s L \<Longrightarrow> LastIndex lops s = (length L, None)"
proof -
  assume "holds s L"
  then have i: "inv s" and "represents (abs s) L" by (simp_all add: holds_def)
  from represents_dom [OF this(2)] have d: "dom (abs s) = {1..length L}" .
  have "Max (insert 0 {1..length L}) = length L"
    by (intro Max_eqI) (auto simp: Suc_le_eq)
  with LastIndex_law [OF i] d show ?thesis by simp
qed

lemma GetLog_holds:
  "holds s L \<Longrightarrow> 0 < i \<Longrightarrow> i \<le> length L \<Longrightarrow> GetLog lops s i = (Some (L ! (i - 1)), None)"
  unfolding holds_def using GetLog_hit represents_at by blast

lemma GetLog_absent:
  "holds s L \<Longrightarrow> i = 0 \<or> length L < i \<Longrightarrow> \<exists>err. snd (GetLog lops s i) = Some err"
  unfolding holds_def using GetLog_miss represents_none by blast

lemma StoreLogs_holds:
  assumes "holds s L" and "consecutive (length L) es" and "StoreLogs lops s es = (s', err)"
  shows "holds s' (if err = None then L @ es else L)"
  using assms StoreLogs_law [OF _ _ assms(3)] consecutive_pos [OF assms(2)]
    represents_store [OF _ assms(2)]
  by (auto simp: holds_def)

lemma DeleteRange_holds:
  assumes "holds s L" and "0 < lo" and "length L < 2 ^ 64 - 1"
  obtains s' err where "DeleteRange lops s lo (length L) = Some (s', err)"
    "holds s' (if err = None then take (lo - 1) L else L)"
proof -
  from assms(1) have i: "inv s" and r: "represents (abs s) L" by (simp_all add: holds_def)
  from DeleteRange_law [OF i assms(3)] obtain s' err
    where "DeleteRange lops s lo (length L) = Some (s', err)" "inv s'"
      "abs s' = (if err = None then abs s |` (- {lo..length L}) else abs s)" by blast
  with represents_delete [OF r assms(2) order.refl] r that show thesis by (auto simp: holds_def)
qed

end

text \<open>The key-value store of the term and the vote.\<close>

locale stable_store =
  fixes sops :: "'s StableStore"
  assumes Set_ok: "snd (Set sops s k v) = None"
    and SetUint64_ok: "snd (SetUint64 sops s k n) = None"
    and Get_Set: "Get sops (fst (Set sops s k v)) k = (v, None)"
    and GetUint64_Set: "k' \<noteq> k \<Longrightarrow> GetUint64 sops (fst (Set sops s k v)) k' = GetUint64 sops s k'"
    and GetUint64_SetUint64: "n < 2 ^ 64 \<Longrightarrow> GetUint64 sops (fst (SetUint64 sops s k n)) k = Ok n"

section \<open>The in-memory stores implement the interfaces\<close>

definition inmem_abs :: "InmemLogStore \<Rightarrow> nat \<rightharpoonup> LogEntry" where
  "inmem_abs s = map_of (entries s)"

text \<open>The bounds of a set of keys as \<^verbatim>\<open>highIdx\<close> and \<^verbatim>\<open>lowIdx\<close> keep them.\<close>

definition top_idx :: "nat set \<Rightarrow> nat" where
  "top_idx A = Max (insert 0 A)"

definition low_idx :: "nat set \<Rightarrow> nat" where
  "low_idx A = (if A = {} then 0 else Min A)"

lemma top_idx_insert: "finite A \<Longrightarrow> top_idx (insert k A) = (if top_idx A < k then k else top_idx A)"
proof -
  assume "finite A"
  then have "top_idx (insert k A) = max k (top_idx A)"
    unfolding top_idx_def by (subst insert_commute) (rule Max_insert, auto)
  then show ?thesis by (simp only: max_def not_less split: if_split) auto
qed

lemma top_idx_empty: "top_idx {} = 0"
  by (simp add: top_idx_def)

lemma low_idx_insert:
  "finite A \<Longrightarrow> 0 \<notin> A \<Longrightarrow>
   low_idx (insert k A) = (if low_idx A = 0 \<or> k < low_idx A then k else low_idx A)"
proof (cases "A = {}")
  case False
  assume "finite A" "0 \<notin> A"
  then have "Min A \<noteq> 0" using False Min_in by metis
  moreover have "Min (insert k A) = min k (Min A)" using \<open>finite A\<close> False by (rule Min_insert)
  ultimately show ?thesis using False by (simp only: low_idx_def min_def insert_not_empty if_False) auto
qed (simp add: low_idx_def)

lemma low_idx_empty: "low_idx {} = 0"
  by (simp add: low_idx_def)

definition inmem_inv :: "InmemLogStore \<Rightarrow> bool" where
  "inmem_inv s \<longleftrightarrow> distinct (map fst (entries s)) \<and> 0 \<notin> dom (inmem_abs s) \<and>
     highIdx s = top_idx (dom (inmem_abs s)) \<and> lowIdx s = low_idx (dom (inmem_abs s))"

lemma finite_inmem_abs [simp]: "finite (dom (inmem_abs s))"
  by (simp add: inmem_abs_def finite_dom_map_of)

lemma inmem_inv_new: "inmem_inv NewInmemLogStore"
  by (simp add: inmem_inv_def NewInmemLogStore_def inmem_abs_def top_idx_empty low_idx_empty)

lemma store_one_abs: "inmem_abs (store_one s e) = (inmem_abs s)(Index e \<mapsto> e)"
  by (simp add: inmem_abs_def store_one_def update_conv')

lemma store_one_inv:
  assumes "inmem_inv s" and "0 < Index e"
  shows "inmem_inv (store_one s e)"
proof -
  have "distinct (map fst (entries (store_one s e)))"
    using assms(1) by (simp add: inmem_inv_def store_one_def distinct_update)
  moreover have "highIdx (store_one s e) = top_idx (insert (Index e) (dom (inmem_abs s)))"
    and "lowIdx (store_one s e) = low_idx (insert (Index e) (dom (inmem_abs s)))"
    using assms(1) by (simp_all add: inmem_inv_def top_idx_insert low_idx_insert) (simp_all add: store_one_def)
  ultimately show ?thesis using assms by (simp add: inmem_inv_def store_one_abs)
qed

lemma inmem_StoreLogs_inv:
  "inmem_inv s \<Longrightarrow> \<forall>e \<in> set es. 0 < Index e \<Longrightarrow>
   inmem_inv (foldl store_one s es) \<and> inmem_abs (foldl store_one s es) = inmem_abs s ++ store_map es"
proof (induction es arbitrary: s)
  case (Cons e es)
  have "store_map (e # es) = [Index e \<mapsto> e] ++ store_map es"
    by (simp add: store_map_def map_add_def fun_eq_iff split: option.splits)
  with Cons store_one_inv [of s e] show ?case by (simp add: store_one_abs)
qed (simp add: store_map_def)

lemma foldl_delete: "distinct (map fst m) \<Longrightarrow>
   distinct (map fst (foldl (\<lambda>m i. AList.delete i m) m is)) \<and>
   map_of (foldl (\<lambda>m i. AList.delete i m) m is) = map_of m |` (- set is)"
proof (induction "is" arbitrary: m)
  case (Cons i "is")
  then show ?case
    by (simp add: distinct_delete delete_conv' restrict_map_def fun_eq_iff)
qed (simp add: restrict_map_def)

lemma foldl_rebound:
  "finite A \<Longrightarrow> 0 \<notin> A \<Longrightarrow> 0 \<notin> set ks \<Longrightarrow>
   foldl rebound (low_idx A, top_idx A) ks = (low_idx (A \<union> set ks), top_idx (A \<union> set ks))"
proof (induction ks arbitrary: A)
  case (Cons k ks)
  then have "rebound (low_idx A, top_idx A) k = (low_idx (insert k A), top_idx (insert k A))"
    by (simp add: rebound_def top_idx_insert low_idx_insert)
  with Cons.IH [of "insert k A"] Cons.prems show ?case by simp
qed simp

lemma inmem_DeleteRange_inv:
  assumes "inmem_inv s" and "hi < 2 ^ 64 - 1"
  shows "\<exists>s'. inmem_DeleteRange s lo hi = Some (s', None) \<and> inmem_inv s' \<and>
           inmem_abs s' = inmem_abs s |` (- {lo..hi})"
proof -
  let ?left = "foldl (\<lambda>m i. AList.delete i m) (entries s) [lo..<Suc hi]"
  let ?ks = "map fst ?left"
  from assms(1) have d: "distinct (map fst (entries s))" by (simp add: inmem_inv_def)
  have r: "set [lo..<Suc hi] = {lo..hi}" by auto
  note left = foldl_delete [OF d, of "[lo..<Suc hi]", unfolded r]
  have ks: "set ?ks = dom (map_of ?left)" by (simp add: dom_map_of_conv_image_fst)
  then have zero: "0 \<notin> set ?ks" using left assms(1) by (auto simp: inmem_inv_def inmem_abs_def)
  let ?s' = "\<lparr>entries = ?left, lowIdx = fst (foldl rebound (0, 0) ?ks),
              highIdx = snd (foldl rebound (0, 0) ?ks)\<rparr>"
  have del: "inmem_DeleteRange s lo hi = Some (?s', None)"
    unfolding inmem_DeleteRange_def Let_def using assms(2) by simp
  have "foldl rebound (0, 0) ?ks = (low_idx (set ?ks), top_idx (set ?ks))"
    using foldl_rebound [of "{}" ?ks] zero by (simp add: low_idx_empty top_idx_empty)
  then have "inmem_inv ?s'"
    using left zero ks by (simp add: inmem_inv_def inmem_abs_def)
  moreover have "inmem_abs ?s' = inmem_abs s |` (- {lo..hi})" using left by (simp add: inmem_abs_def)
  ultimately show ?thesis using del by blast
qed

interpretation inmem: reliable_log_store inmem_log inmem_inv inmem_abs
proof
  fix s s' :: InmemLogStore and i lo hi :: nat and e :: LogEntry and es :: "LogEntry list"
    and err :: "store_error option"
  show "inmem_inv s \<Longrightarrow> finite (dom (inmem_abs s))" by (simp add: inmem_abs_def finite_dom_map_of)
  show "inmem_inv s \<Longrightarrow> inmem_abs s 0 = None"
    by (auto simp: inmem_inv_def)
  show "inmem_inv s \<Longrightarrow> LastIndex inmem_log s = (Max (insert 0 (dom (inmem_abs s))), None)"
    by (simp add: inmem_log_def inmem_LastIndex_def inmem_inv_def top_idx_def)
  show "inmem_abs s i = Some e \<Longrightarrow> GetLog inmem_log s i = (Some e, None)"
    by (simp add: inmem_log_def inmem_GetLog_def inmem_abs_def)
  show "inmem_abs s i = None \<Longrightarrow> \<exists>err. snd (GetLog inmem_log s i) = Some err"
    by (simp add: inmem_log_def inmem_GetLog_def inmem_abs_def)
  show "StoreLog inmem_log s e = StoreLogs inmem_log s [e]"
    by (simp add: inmem_log_def inmem_StoreLog_def)
  show "inmem_inv s \<Longrightarrow> \<forall>e\<in>set es. 0 < Index e \<Longrightarrow> StoreLogs inmem_log s es = (s', err) \<Longrightarrow>
      inmem_inv s' \<and> inmem_abs s' = (if err = None then inmem_abs s ++ store_map es else inmem_abs s)"
    using inmem_StoreLogs_inv by (auto simp: inmem_log_def inmem_StoreLogs_def)
  show "inmem_inv s \<Longrightarrow> hi < 2 ^ 64 - 1 \<Longrightarrow>
      \<exists>s' err. DeleteRange inmem_log s lo hi = Some (s', err) \<and> inmem_inv s' \<and>
        inmem_abs s' = (if err = None then inmem_abs s |` (- {lo..hi}) else inmem_abs s)"
    using inmem_DeleteRange_inv [of s hi lo] by (auto simp: inmem_log_def)
  show "snd (StoreLogs inmem_log s es) = None" by (simp add: inmem_log_def inmem_StoreLogs_def)
  show "DeleteRange inmem_log s lo hi = Some (s', err) \<Longrightarrow> err = None"
    by (auto simp: inmem_log_def inmem_DeleteRange_def Let_def split: if_splits)
qed

interpretation inmem_kv: stable_store inmem_stable
  by unfold_locales
    (auto simp: inmem_stable_def inmem_Set_def inmem_SetUint64_def inmem_Get_def inmem_GetUint64_def
      update_conv' bytesToUint64_uint64ToBytes length_uint64ToBytes split: option.splits)

end
