(* ===== verification/Raft_Node.thy ===== *)
theory Raft_Node
  imports Raft_Store
begin

text \<open>
  One Raft server: \<^verbatim>\<open>raft.go\<close>, \<^verbatim>\<open>election.go\<close> and \<^verbatim>\<open>replication.go\<close>. Every handler that runs
  under \<^verbatim>\<open>r.mu\<close> is one function on the node; a method that gives the lock up in the middle (to
  send an RPC, to wait for votes) is one function per critical section. The stores and the state
  machine are the interface values of \<^verbatim>\<open>Raft_Store\<close>: \<open>lops\<close>, \<open>sops\<close> and \<open>fapply\<close>.

  \<^item> \<^verbatim>\<open>peers\<close> and \<^verbatim>\<open>pendingFutures\<close> are Go maps: association lists with distinct keys.
    A future is an object shared with the caller of \<^verbatim>\<open>Apply\<close>: \<open>pendingFutures\<close> maps a log
    index to a reference into \<open>futures\<close>.
  \<^item> \<open>commitNotifyCh\<close> and \<open>triggerCh\<close> are the channels of capacity 1 that carry only a token.
  \<^item> A nil entry with a nil error from \<^verbatim>\<open>GetLog\<close> would be dereferenced by the code; no store
    returns it, and \<open>got\<close> reads it as an error.
  \<^item> Logging is left out.
\<close>

section \<open>State\<close>

record peerState =
  ps_id :: string
  ps_addr :: string
  nextIndex :: nat
  matchIndex :: nat
  triggerCh :: bool

record applyRequest =
  req_data :: string
  req_future :: nat

record ('l, 's, 'f, 'r) RaftNode =
  config :: Config
  currentTerm :: nat
  votedFor :: string
  logStore :: 'l
  stableStore :: 's
  state :: ServerState
  commitIndex :: nat
  lastApplied :: nat
  peers :: "(string \<times> peerState) list"
  leaderID :: string
  leaderAddr :: string
  fsm :: 'f
  pendingFutures :: "(nat \<times> nat) list"
  futures :: "nat \<Rightarrow> 'r ApplyFuture"
  nextFuture :: nat
  applyCh :: "applyRequest list"
  commitNotifyCh :: bool
  shutdownCh :: bool

definition got :: "LogEntry option \<times> store_error option \<Rightarrow> LogEntry option" where
  "got p = (case snd p of None \<Rightarrow> fst p | Some err \<Rightarrow> None)"

definition last_idx :: "'l LogStore \<Rightarrow> 'l \<Rightarrow> nat" where
  "last_idx lops s = fst (LastIndex lops s)"

definition respond_at ::
    "nat \<Rightarrow> raft_error option \<Rightarrow> 'r option \<Rightarrow> ('l, 's, 'f, 'r) RaftNode \<Rightarrow> ('l, 's, 'f, 'r) RaftNode" where
  "respond_at ref err resp r = r\<lparr>futures := (futures r)(ref := respond err resp (futures r ref))\<rparr>"

section \<open>Persistent state and step-down\<close>

definition persistState ::
    "'s StableStore \<Rightarrow> ('l, 's, 'f, 'r) RaftNode \<Rightarrow> ('l, 's, 'f, 'r) RaftNode" where
  "persistState sops r =
     (let s1 = fst (SetUint64 sops (stableStore r) KeyCurrentTerm (currentTerm r));
          s2 = fst (Set sops s1 KeyVotedFor (votedFor r))
      in r\<lparr>stableStore := s2\<rparr>)"

definition restoreState ::
    "'s StableStore \<Rightarrow> ('l, 's, 'f, 'r) RaftNode \<Rightarrow> (raft_error, ('l, 's, 'f, 'r) RaftNode) go_result" where
  "restoreState sops r =
     (case GetUint64 sops (stableStore r) KeyCurrentTerm of
        Panic \<Rightarrow> Panic
      | Err e \<Rightarrow> Err (ErrRestore e)
      | Ok term \<Rightarrow>
          (case Get sops (stableStore r) KeyVotedFor of
             (v, Some e) \<Rightarrow> Err (ErrRestore e)
           | (v, None) \<Rightarrow> Ok (r\<lparr>currentTerm := term, votedFor := v\<rparr>)))"

definition NewRaftNode ::
    "'s StableStore \<Rightarrow> Config \<Rightarrow> 'l \<Rightarrow> 's \<Rightarrow> 'f \<Rightarrow> (raft_error, ('l, 's, 'f, 'r) RaftNode) go_result" where
  "NewRaftNode sops cfg ls ss f =
     (case validate cfg of
        Some e \<Rightarrow> Err e
      | None \<Rightarrow>
          restoreState sops
            \<lparr>config = cfg, currentTerm = 0, votedFor = [], logStore = ls, stableStore = ss,
             state = Follower, commitIndex = 0, lastApplied = 0, peers = [], leaderID = [],
             leaderAddr = [], fsm = f, pendingFutures = [], futures = (\<lambda>_. newApplyFuture),
             nextFuture = 0, applyCh = [], commitNotifyCh = False, shutdownCh = False\<rparr>)"

definition stepDown ::
    "'s StableStore \<Rightarrow> ('l, 's, 'f, 'r) RaftNode \<Rightarrow> nat \<Rightarrow> ('l, 's, 'f, 'r) RaftNode" where
  "stepDown sops r newTerm =
     persistState sops
       (r\<lparr>currentTerm := newTerm, state := Follower, votedFor := [], leaderID := [], leaderAddr := []\<rparr>)"

definition lastLogInfo :: "'l LogStore \<Rightarrow> ('l, 's, 'f, 'r) RaftNode \<Rightarrow> nat \<times> nat" where
  "lastLogInfo lops r =
     (case LastIndex lops (logStore r) of
        (lastIdx, err) \<Rightarrow>
          if err \<noteq> None \<or> lastIdx = 0 then (0, 0)
          else case got (GetLog lops (logStore r) lastIdx) of
                 None \<Rightarrow> (0, 0)
               | Some entry \<Rightarrow> (Index entry, Term entry))"

section \<open>Elections (election.go, runCandidate)\<close>

text \<open>\<^verbatim>\<open>startElection\<close>: the node, the request, and the addresses it is sent to.\<close>

definition startElection ::
    "'l LogStore \<Rightarrow> 's StableStore \<Rightarrow> ('l, 's, 'f, 'r) RaftNode \<Rightarrow>
     ('l, 's, 'f, 'r) RaftNode \<times> RequestVoteRequest \<times> string list" where
  "startElection lops sops r =
     (let me = ServerID (config r);
          r1 = persistState sops (r\<lparr>currentTerm := u64 (currentTerm r + 1), votedFor := me\<rparr>);
          (lastLogIndex, lastLogTerm) = lastLogInfo lops r1
      in (r1, \<lparr>rv_Term = currentTerm r1, rv_CandidateID = me,
               rv_LastLogIndex = lastLogIndex, rv_LastLogTerm = lastLogTerm\<rparr>,
          map Address (filter (\<lambda>p. ID p \<noteq> me) (Peers (config r)))))"

definition isLogUpToDate :: "nat \<Rightarrow> nat \<Rightarrow> nat \<Rightarrow> nat \<Rightarrow> bool" where
  "isLogUpToDate candidateLastTerm candidateLastIndex voterLastTerm voterLastIndex =
     (if candidateLastTerm > voterLastTerm then True
      else if candidateLastTerm = voterLastTerm \<and> candidateLastIndex \<ge> voterLastIndex then True
      else False)"

text \<open>\<^verbatim>\<open>handleRequestVote\<close>: the node, the response, and whether the election timer is reset.\<close>

definition handleRequestVote ::
    "'l LogStore \<Rightarrow> 's StableStore \<Rightarrow> ('l, 's, 'f, 'r) RaftNode \<Rightarrow> RequestVoteRequest \<Rightarrow>
     ('l, 's, 'f, 'r) RaftNode \<times> RequestVoteResponse \<times> bool" where
  "handleRequestVote lops sops r req =
     (if rv_Term req < currentTerm r then
        (r, \<lparr>rvr_Term = currentTerm r, rvr_VoteGranted = False\<rparr>, False)
      else
        let r1 = (if rv_Term req > currentTerm r then stepDown sops r (rv_Term req) else r);
            refuse = \<lparr>rvr_Term = currentTerm r1, rvr_VoteGranted = False\<rparr>
        in if votedFor r1 \<noteq> [] \<and> votedFor r1 \<noteq> rv_CandidateID req then (r1, refuse, False)
           else
             let (myLastIndex, myLastTerm) = lastLogInfo lops r1
             in if \<not> isLogUpToDate (rv_LastLogTerm req) (rv_LastLogIndex req) myLastTerm myLastIndex
                then (r1, refuse, False)
                else
                  let r2 = persistState sops (r1\<lparr>votedFor := rv_CandidateID req\<rparr>)
                  in (r2, \<lparr>rvr_Term = currentTerm r1, rvr_VoteGranted = True\<rparr>, True))"

definition quorum :: "('l, 's, 'f, 'r) RaftNode \<Rightarrow> nat" where
  "quorum r = length (Peers (config r)) div 2 + 1"

definition becomeLeader :: "('l, 's, 'f, 'r) RaftNode \<Rightarrow> ('l, 's, 'f, 'r) RaftNode" where
  "becomeLeader r =
     r\<lparr>state := Leader, leaderID := ServerID (config r),
       leaderAddr := find_addr (Peers (config r)) (ServerID (config r)) (leaderAddr r)\<rparr>"

text \<open>
  \<^verbatim>\<open>runCandidate\<close> up to its loop: the election is started and an immediate majority is checked.
  The third component is the local variable \<^verbatim>\<open>votes\<close>.
\<close>

definition candidate_start ::
    "'l LogStore \<Rightarrow> 's StableStore \<Rightarrow> ('l, 's, 'f, 'r) RaftNode \<Rightarrow>
     ('l, 's, 'f, 'r) RaftNode \<times> RequestVoteRequest \<times> string list \<times> nat" where
  "candidate_start lops sops r =
     (let (r1, req, targets) = startElection lops sops r; votes = 1
      in if votes \<ge> quorum r1 then (becomeLeader r1, req, targets, votes)
         else (r1, req, targets, votes))"

text \<open>
  The branch of \<^verbatim>\<open>runCandidate\<close>'s loop that receives a vote: the node, \<^verbatim>\<open>votes\<close>, and whether
  the function returns. The state is not looked at again between the test
  \<^verbatim>\<open>for r.State() == Candidate\<close> and this branch.
\<close>

definition candidate_vote ::
    "'s StableStore \<Rightarrow> ('l, 's, 'f, 'r) RaftNode \<Rightarrow> nat \<Rightarrow> RequestVoteResponse \<Rightarrow>
     ('l, 's, 'f, 'r) RaftNode \<times> nat \<times> bool" where
  "candidate_vote sops r votes vote =
     (if rvr_Term vote > currentTerm r then (stepDown sops r (rvr_Term vote), votes, True)
      else if rvr_VoteGranted vote then
        (if votes + 1 \<ge> quorum r then (becomeLeader r, votes + 1, True) else (r, votes + 1, False))
      else (r, votes, False))"

text \<open>The timer branch of \<^verbatim>\<open>runFollower\<close>.\<close>

definition follower_timeout :: "('l, 's, 'f, 'r) RaftNode \<Rightarrow> ('l, 's, 'f, 'r) RaftNode" where
  "follower_timeout r = r\<lparr>state := Candidate\<rparr>"

section \<open>Leader operations (raft.go)\<close>

text \<open>\<^verbatim>\<open>notifyCommit\<close> and \<^verbatim>\<open>triggerReplication\<close>: a non-blocking send leaves a token.\<close>

definition notifyCommit :: "('l, 's, 'f, 'r) RaftNode \<Rightarrow> ('l, 's, 'f, 'r) RaftNode" where
  "notifyCommit r = r\<lparr>commitNotifyCh := True\<rparr>"

definition triggerReplication :: "('l, 's, 'f, 'r) RaftNode \<Rightarrow> ('l, 's, 'f, 'r) RaftNode" where
  "triggerReplication r = r\<lparr>peers := map (\<lambda>(k, p). (k, p\<lparr>triggerCh := True\<rparr>)) (peers r)\<rparr>"

text \<open>The initialisation of \<^verbatim>\<open>runLeader\<close>.\<close>

definition initLeader :: "'l LogStore \<Rightarrow> ('l, 's, 'f, 'r) RaftNode \<Rightarrow> ('l, 's, 'f, 'r) RaftNode" where
  "initLeader lops r =
     (let lastIdx = last_idx lops (logStore r)
      in r\<lparr>peers := foldl
             (\<lambda>m p. if ID p = ServerID (config r) then m
                    else AList.update (ID p)
                      \<lparr>ps_id = ID p, ps_addr = Address p, nextIndex = u64 (lastIdx + 1),
                       matchIndex = 0, triggerCh = False\<rparr> m)
             [] (Peers (config r))\<rparr>)"

definition appendNoOp :: "'l LogStore \<Rightarrow> ('l, 's, 'f, 'r) RaftNode \<Rightarrow> ('l, 's, 'f, 'r) RaftNode" where
  "appendNoOp lops r =
     (let entry = \<lparr>Index = u64 (last_idx lops (logStore r) + 1), Term = currentTerm r, Data = []\<rparr>
      in case StoreLog lops (logStore r) entry of
           (ls, Some err) \<Rightarrow> r\<lparr>logStore := ls\<rparr>
         | (ls, None) \<Rightarrow> triggerReplication (r\<lparr>logStore := ls\<rparr>))"

definition handleApplyRequest ::
    "'l LogStore \<Rightarrow> ('l, 's, 'f, 'r) RaftNode \<Rightarrow> applyRequest \<Rightarrow> ('l, 's, 'f, 'r) RaftNode" where
  "handleApplyRequest lops r req =
     (if state r \<noteq> Leader then respond_at (req_future req) (Some ErrNotLeader) None r
      else
        let entry = \<lparr>Index = u64 (last_idx lops (logStore r) + 1), Term = currentTerm r,
                     Data = req_data req\<rparr>
        in case StoreLog lops (logStore r) entry of
             (ls, Some err) \<Rightarrow>
               respond_at (req_future req) (Some (ErrStoreLog err)) None (r\<lparr>logStore := ls\<rparr>)
           | (ls, None) \<Rightarrow>
               triggerReplication
                 (r\<lparr>logStore := ls,
                    pendingFutures := AList.update (Index entry) (req_future req) (pendingFutures r)\<rparr>))"

text \<open>The loop shared by \<^verbatim>\<open>failPendingFutures\<close> and \<^verbatim>\<open>Shutdown\<close>.\<close>

definition fail_all ::
    "raft_error \<Rightarrow> ('l, 's, 'f, 'r) RaftNode \<Rightarrow> ('l, 's, 'f, 'r) RaftNode" where
  "fail_all err r =
     foldl (\<lambda>r (idx, f). (respond_at f (Some err) None r)
              \<lparr>pendingFutures := AList.delete idx (pendingFutures r)\<rparr>)
       r (pendingFutures r)"

definition failPendingFutures :: "('l, 's, 'f, 'r) RaftNode \<Rightarrow> ('l, 's, 'f, 'r) RaftNode" where
  "failPendingFutures r = fail_all ErrLeaderLost r"

definition Shutdown :: "('l, 's, 'f, 'r) RaftNode \<Rightarrow> ('l, 's, 'f, 'r) RaftNode" where
  "Shutdown r =
     (if shutdownCh r then r
      else fail_all ErrShutdown (r\<lparr>shutdownCh := True, state := Follower\<rparr>))"

text \<open>
  The public \<^verbatim>\<open>Apply\<close>: \<open>choice\<close> is the case of the \<^verbatim>\<open>select\<close> that is taken (a send needs room
  in the channel of capacity 256). The result carries the reference of the returned future.
  \<open>apply_deadline\<close> is the timeout goroutine.
\<close>

datatype apply_choice = Enqueued | TimedOut | ShuttingDown

definition raft_Apply ::
    "('l, 's, 'f, 'r) RaftNode \<Rightarrow> string \<Rightarrow> apply_choice \<Rightarrow> (('l, 's, 'f, 'r) RaftNode \<times> nat) option" where
  "raft_Apply r data choice =
     (let f = nextFuture r;
          r1 = r\<lparr>futures := (futures r)(f := newApplyFuture), nextFuture := f + 1\<rparr>
      in if state r \<noteq> Leader then Some (respond_at f (Some ErrNotLeader) None r1, f)
         else case choice of
           Enqueued \<Rightarrow>
             if length (applyCh r) < 256
             then Some (r1\<lparr>applyCh := applyCh r @ [\<lparr>req_data = data, req_future = f\<rparr>]\<rparr>, f)
             else None
         | TimedOut \<Rightarrow> Some (respond_at f (Some ErrTimeout) None r1, f)
         | ShuttingDown \<Rightarrow>
             if shutdownCh r then Some (respond_at f (Some ErrShutdown) None r1, f) else None)"

definition apply_deadline ::
    "('l, 's, 'f, 'r) RaftNode \<Rightarrow> nat \<Rightarrow> apply_choice \<Rightarrow> ('l, 's, 'f, 'r) RaftNode option" where
  "apply_deadline r f choice =
     (case choice of
        TimedOut \<Rightarrow> Some (respond_at f (Some ErrTimeout) None r)
      | ShuttingDown \<Rightarrow> if shutdownCh r then Some (respond_at f (Some ErrShutdown) None r) else None
      | Enqueued \<Rightarrow> None)"

definition IsLeader :: "('l, 's, 'f, 'r) RaftNode \<Rightarrow> bool" where
  "IsLeader r = (state r = Leader)"

section \<open>Replication, leader side (replication.go)\<close>

text \<open>
  The entries from \<open>i\<close> on, at most \<open>n\<close> of them, up to the first one that cannot be read.
\<close>

fun gather :: "'l LogStore \<Rightarrow> 'l \<Rightarrow> nat \<Rightarrow> nat \<Rightarrow> LogEntry list" where
  "gather lops s i 0 = []"
| "gather lops s i (Suc n) =
     (case got (GetLog lops s i) of
        None \<Rightarrow> []
      | Some entry \<Rightarrow> entry # gather lops s (u64 (i + 1)) n)"

text \<open>The first half of \<^verbatim>\<open>replicateOnce\<close>; \<open>None\<close> when the node is not the leader any more.\<close>

definition replicate_request ::
    "'l LogStore \<Rightarrow> ('l, 's, 'f, 'r) RaftNode \<Rightarrow> peerState \<Rightarrow> AppendEntriesRequest option" where
  "replicate_request lops r peer =
     (if state r \<noteq> Leader then None
      else
        let prevLogIndex = u64_pred (nextIndex peer);
            prevLogTerm =
              (if prevLogIndex > 0 then
                 (case got (GetLog lops (logStore r) prevLogIndex) of
                    None \<Rightarrow> 0 | Some entry \<Rightarrow> Term entry)
               else 0);
            lastIdx = last_idx lops (logStore r);
            ents = (if nextIndex peer \<le> lastIdx
                    then gather lops (logStore r) (nextIndex peer) (lastIdx + 1 - nextIndex peer)
                    else [])
        in Some \<lparr>ae_Term = currentTerm r, ae_LeaderID = ServerID (config r),
                 ae_PrevLogIndex = prevLogIndex, ae_PrevLogTerm = prevLogTerm,
                 ae_Entries = ents, ae_LeaderCommit = commitIndex r\<rparr>)"

definition advanceCommitIndex :: "'l LogStore \<Rightarrow> ('l, 's, 'f, 'r) RaftNode \<Rightarrow> ('l, 's, 'f, 'r) RaftNode" where
  "advanceCommitIndex lops r =
     (let matches = last_idx lops (logStore r) # map (matchIndex \<circ> snd) (peers r);
          sorted_desc = rev (sort matches);
          majority = length matches div 2 + 1;
          newCommit = sorted_desc ! (majority - 1)
      in if newCommit \<le> commitIndex r then r
         else case got (GetLog lops (logStore r) newCommit) of
                None \<Rightarrow> r
              | Some entry \<Rightarrow>
                  if Term entry \<noteq> currentTerm r then r
                  else notifyCommit (r\<lparr>commitIndex := newCommit\<rparr>))"

text \<open>\<^verbatim>\<open>for i := lastIdx; i >= 1; i--\<close>: the last index at or below \<open>i\<close> whose entry has that term.\<close>

fun last_of_term :: "'l LogStore \<Rightarrow> 'l \<Rightarrow> nat \<Rightarrow> nat \<Rightarrow> nat" where
  "last_of_term lops s term 0 = 0"
| "last_of_term lops s term (Suc i) =
     (case got (GetLog lops s (Suc i)) of
        None \<Rightarrow> 0
      | Some entry \<Rightarrow> if Term entry = term then Suc i else last_of_term lops s term i)"

text \<open>
  The second half of \<^verbatim>\<open>replicateOnce\<close>, for the entries \<open>ents\<close> that were sent: the node and
  the peer. \<open>peer\<close> is a pointer; \<open>live\<close> tells whether it is the one in \<^verbatim>\<open>r.peers\<close> (a
  replicator of an earlier leadership holds a pointer that is not), so that an update through
  it is seen by \<^verbatim>\<open>advanceCommitIndex\<close>.
\<close>

definition put_peer ::
    "bool \<Rightarrow> peerState \<Rightarrow> ('l, 's, 'f, 'r) RaftNode \<Rightarrow> ('l, 's, 'f, 'r) RaftNode" where
  "put_peer live peer r =
     (if live then r\<lparr>peers := AList.update (ps_id peer) peer (peers r)\<rparr> else r)"

definition replicate_response ::
    "'l LogStore \<Rightarrow> 's StableStore \<Rightarrow> ('l, 's, 'f, 'r) RaftNode \<Rightarrow> bool \<Rightarrow> peerState \<Rightarrow>
     LogEntry list \<Rightarrow> AppendEntriesResponse \<Rightarrow> ('l, 's, 'f, 'r) RaftNode \<times> peerState" where
  "replicate_response lops sops r live peer ents resp =
     (if aer_Term resp > currentTerm r then (stepDown sops r (aer_Term resp), peer)
      else if aer_Success resp then
        let peer' = (if ents \<noteq> [] then
                       peer\<lparr>matchIndex := Index (last ents), nextIndex := u64 (Index (last ents) + 1)\<rparr>
                     else peer)
        in (advanceCommitIndex lops (put_peer live peer' r), peer')
      else
        let next = (if aer_ConflictTerm resp > 0 then
                      let conflictIdx = last_of_term lops (logStore r) (aer_ConflictTerm resp)
                                          (last_idx lops (logStore r))
                      in if conflictIdx > 0 then u64 (conflictIdx + 1) else aer_ConflictIndex resp
                    else aer_ConflictIndex resp);
            peer' = peer\<lparr>nextIndex := (if next < 1 then 1 else next)\<rparr>
        in (put_peer live peer' r, peer'))"

section \<open>Replication, follower side\<close>

text \<open>\<^verbatim>\<open>for i := PrevLogIndex - 1; i >= 1; i--\<close>: the first index of the run of that term.\<close>

fun first_of_term :: "'l LogStore \<Rightarrow> 'l \<Rightarrow> nat \<Rightarrow> nat \<Rightarrow> nat \<Rightarrow> nat" where
  "first_of_term lops s term 0 conflictIndex = conflictIndex"
| "first_of_term lops s term (Suc i) conflictIndex =
     (case got (GetLog lops s (Suc i)) of
        None \<Rightarrow> conflictIndex
      | Some e \<Rightarrow> if Term e \<noteq> term then conflictIndex
                  else first_of_term lops s term i (Suc i))"

text \<open>
  Step 3 of \<^verbatim>\<open>handleAppendEntries\<close>: the new store and whether every write succeeded; \<open>None\<close> when
  \<^verbatim>\<open>DeleteRange\<close> does not return.
\<close>

fun append_entries :: "'l LogStore \<Rightarrow> 'l \<Rightarrow> LogEntry list \<Rightarrow> ('l \<times> bool) option" where
  "append_entries lops s [] = Some (s, True)"
| "append_entries lops s (entry # rest) =
     (case got (GetLog lops s (Index entry)) of
        None \<Rightarrow>
          let (s', err) = StoreLogs lops s (entry # rest) in Some (s', err = None)
      | Some existing \<Rightarrow>
          if Term existing \<noteq> Term entry then
            (case DeleteRange lops s (Index entry) (last_idx lops s) of
               None \<Rightarrow> None
             | Some (s1, Some err) \<Rightarrow> Some (s1, False)
             | Some (s1, None) \<Rightarrow>
                 let (s', err) = StoreLogs lops s1 (entry # rest) in Some (s', err = None))
          else append_entries lops s rest)"

text \<open>Step 2: \<open>None\<close> when the log agrees at \<^verbatim>\<open>PrevLogIndex\<close>, else (ConflictTerm, ConflictIndex).\<close>

definition prev_conflict :: "'l LogStore \<Rightarrow> 'l \<Rightarrow> AppendEntriesRequest \<Rightarrow> (nat \<times> nat) option" where
  "prev_conflict lops s req =
     (if ae_PrevLogIndex req > 0 then
        (let lastIdx = last_idx lops s in
         if lastIdx < ae_PrevLogIndex req then Some (0, u64 (lastIdx + 1))
         else
           (case GetLog lops s (ae_PrevLogIndex req) of
              (prevEntry, err) \<Rightarrow>
                if err \<noteq> None \<or> map_option Term prevEntry \<noteq> Some (ae_PrevLogTerm req) then
                  (case prevEntry of
                     Some e \<Rightarrow> Some (Term e, first_of_term lops s (Term e) (ae_PrevLogIndex req - 1)
                                              (ae_PrevLogIndex req))
                   | None \<Rightarrow> Some (0, ae_PrevLogIndex req))
                else None))
      else None)"

definition accept_leader ::
    "'s StableStore \<Rightarrow> ('l, 's, 'f, 'r) RaftNode \<Rightarrow> AppendEntriesRequest \<Rightarrow> ('l, 's, 'f, 'r) RaftNode" where
  "accept_leader sops r req =
     (let r1 = (if ae_Term req > currentTerm r then stepDown sops r (ae_Term req)
                else if state r \<noteq> Follower then stepDown sops r (ae_Term req)
                else r)
      in r1\<lparr>state := Follower, leaderID := ae_LeaderID req,
            leaderAddr := find_addr (Peers (config r)) (ae_LeaderID req) (leaderAddr r1)\<rparr>)"

definition follower_commit ::
    "'l LogStore \<Rightarrow> ('l, 's, 'f, 'r) RaftNode \<Rightarrow> AppendEntriesRequest \<Rightarrow> ('l, 's, 'f, 'r) RaftNode" where
  "follower_commit lops r req =
     (if ae_LeaderCommit req > commitIndex r then
        let lastIdx = last_idx lops (logStore r);
            newCommit = (if lastIdx < ae_LeaderCommit req then lastIdx else ae_LeaderCommit req)
        in notifyCommit (r\<lparr>commitIndex := newCommit\<rparr>)
      else r)"

definition handleAppendEntries ::
    "'l LogStore \<Rightarrow> 's StableStore \<Rightarrow> ('l, 's, 'f, 'r) RaftNode \<Rightarrow> AppendEntriesRequest \<Rightarrow>
     (('l, 's, 'f, 'r) RaftNode \<times> AppendEntriesResponse \<times> bool) option" where
  "handleAppendEntries lops sops r req =
     (if ae_Term req < currentTerm r then
        Some (r, \<lparr>aer_Term = currentTerm r, aer_Success = False, aer_ConflictTerm = 0,
                  aer_ConflictIndex = 0\<rparr>, False)
      else
        let r1 = accept_leader sops r req;
            resp = \<lparr>aer_Term = currentTerm r1, aer_Success = False, aer_ConflictTerm = 0,
                    aer_ConflictIndex = 0\<rparr>
        in case prev_conflict lops (logStore r1) req of
             Some (term, index) \<Rightarrow>
               Some (r1, resp\<lparr>aer_ConflictTerm := term, aer_ConflictIndex := index\<rparr>, True)
           | None \<Rightarrow>
               (case append_entries lops (logStore r1) (ae_Entries req) of
                  None \<Rightarrow> None
                | Some (ls, ok) \<Rightarrow>
                    let r2 = r1\<lparr>logStore := ls\<rparr>
                    in if \<not> ok then Some (r2, resp, True)
                       else Some (follower_commit lops r2 req, resp\<lparr>aer_Success := True\<rparr>, True)))"

definition handleRPC ::
    "'l LogStore \<Rightarrow> 's StableStore \<Rightarrow> ('l, 's, 'f, 'r) RaftNode \<Rightarrow> RPC \<Rightarrow>
     (('l, 's, 'f, 'r) RaftNode \<times> RPCResponse \<times> bool) option" where
  "handleRPC lops sops r rpc =
     (case rpc of
        AppendEntriesRPC req \<Rightarrow>
          map_option (\<lambda>(r', resp, reset). (r', AppendEntriesReply resp, reset))
            (handleAppendEntries lops sops r req)
      | RequestVoteRPC req \<Rightarrow>
          (let (r', resp, reset) = handleRequestVote lops sops r req
           in Some (r', RequestVoteReply resp, reset))
      | OtherRPC \<Rightarrow> Some (r, UnknownRPCType, False))"

section \<open>The apply loop (raft.go)\<close>

text \<open>
  One iteration of \<^verbatim>\<open>applyCommitted\<close>; \<open>None\<close> when the state machine does not return. An
  entry that cannot be read is skipped.
\<close>

definition apply_one ::
    "'l LogStore \<Rightarrow> ('f \<Rightarrow> string \<Rightarrow> ('f \<times> 'r option) option) \<Rightarrow>
     nat \<Rightarrow> ('l, 's, 'f, 'r) RaftNode \<Rightarrow> ('l, 's, 'f, 'r) RaftNode option" where
  "apply_one lops fapply idx r =
     (case got (GetLog lops (logStore r) idx) of
        None \<Rightarrow> Some r
      | Some entry \<Rightarrow>
          map_option
            (\<lambda>(f', resp).
               let r1 = r\<lparr>fsm := f', lastApplied := idx\<rparr>
               in case map_of (pendingFutures r1) idx of
                    None \<Rightarrow> r1
                  | Some ref \<Rightarrow>
                      (respond_at ref None resp r1)
                        \<lparr>pendingFutures := AList.delete idx (pendingFutures r1)\<rparr>)
            (if length (Data entry) > 0 then fapply (fsm r) (Data entry) else Some (fsm r, None)))"

fun apply_range ::
    "'l LogStore \<Rightarrow> ('f \<Rightarrow> string \<Rightarrow> ('f \<times> 'r option) option) \<Rightarrow>
     nat list \<Rightarrow> ('l, 's, 'f, 'r) RaftNode \<Rightarrow> ('l, 's, 'f, 'r) RaftNode option" where
  "apply_range lops fapply [] r = Some r"
| "apply_range lops fapply (idx # is) r =
     Option.bind (apply_one lops fapply idx r) (apply_range lops fapply is)"

text \<open>
  The whole \<^verbatim>\<open>applyCommitted\<close>; with the largest \<^verbatim>\<open>uint64\<close> as commit index its loop would not
  end.
\<close>

definition applyCommitted ::
    "'l LogStore \<Rightarrow> ('f \<Rightarrow> string \<Rightarrow> ('f \<times> 'r option) option) \<Rightarrow>
     ('l, 's, 'f, 'r) RaftNode \<Rightarrow> ('l, 's, 'f, 'r) RaftNode option" where
  "applyCommitted lops fapply r =
     (if u64 (lastApplied r + 1) \<le> commitIndex r \<and> 2 ^ 64 - 1 \<le> commitIndex r then None
      else apply_range lops fapply [u64 (lastApplied r + 1)..<Suc (commitIndex r)] r)"

end
