(* ===== verification/Raft_Replication.thy ===== *)
theory Raft_Replication
  imports Raft_Node
begin

text \<open>
  Correctness of log replication. Inside the locale \<open>log_store\<close> (any store that keeps the
  contract of \<^verbatim>\<open>LogStore\<close>) the handlers are refined to functions on lists of entries:
  \<open>merge_log\<close> is what a follower's log becomes. The properties at the end are about nodes on
  the in-memory store, through its interpretation.
\<close>

section \<open>Reference: merging entries into a log\<close>

text \<open>What a follower's log becomes, and where it may be cut when the writing of the new entries fails.\<close>

fun merge_log :: "LogEntry list \<Rightarrow> LogEntry list \<Rightarrow> LogEntry list" where
  "merge_log L [] = L"
| "merge_log [] es = es"
| "merge_log (x # L) (e # es) = (if Term x = Term e then x # merge_log L es else e # es)"

definition conflict_cut :: "LogEntry list \<Rightarrow> nat \<Rightarrow> LogEntry list \<Rightarrow> nat \<Rightarrow> bool" where
  "conflict_cut L prev es n \<longleftrightarrow> n = length L \<or>
     n < length L \<and> prev \<le> n \<and> n < prev + length es \<and> Term (L ! n) \<noteq> Term (es ! (n - prev))"

definition appended :: "LogEntry list \<Rightarrow> nat \<Rightarrow> LogEntry list \<Rightarrow> LogEntry list" where
  "appended L prev es = take prev L @ merge_log (drop prev L) es"

lemma conflict_cut_all [simp]: "conflict_cut L prev es (length L)"
  by (simp add: conflict_cut_def)

lemma conflict_cut_Suc: "conflict_cut L (Suc prev) es n \<Longrightarrow> conflict_cut L prev (e # es) n"
  by (auto simp: conflict_cut_def nth_Cons split: nat.splits) (metis Suc_diff_Suc Suc_le_lessD diff_Suc_Suc nat.inject)

lemma merge_log_Nil [simp]: "merge_log [] es = es"
  by (cases es) simp_all

lemma appended_Nil [simp]: "appended L prev [] = L"
  by (simp add: appended_def)

lemma appended_same:
  assumes "prev < length L" and "Term (L ! prev) = Term e"
  shows "appended L prev (e # es) = appended L (Suc prev) es"
proof -
  from assms(1) have "drop prev L = L ! prev # drop (Suc prev) L" by (simp add: Cons_nth_drop_Suc)
  with assms show ?thesis by (simp add: appended_def take_Suc_conv_app_nth)
qed

lemma appended_conflict:
  assumes "prev < length L" and "Term (L ! prev) \<noteq> Term e"
  shows "appended L prev (e # es) = take prev L @ e # es"
proof -
  from assms(1) have "drop prev L = L ! prev # drop (Suc prev) L" by (simp add: Cons_nth_drop_Suc)
  with assms(2) show ?thesis by (simp add: appended_def)
qed

lemma appended_end: "appended L (length L) es = L @ es"
  by (simp add: appended_def)

lemma length_appended_ge:
  "prev \<le> length L \<Longrightarrow> prev + length es \<le> length (appended L prev es)"
proof (induction es arbitrary: prev)
  case (Cons e es)
  then show ?case
    by (cases "prev < length L"; cases "Term (L ! prev) = Term e")
      (use Cons.IH [of "Suc prev"] in \<open>auto simp: appended_same appended_conflict appended_end\<close>)
qed simp

lemma length_appended_le: "length (appended L prev es) \<le> max (length L) (prev + length es)"
proof (induction es arbitrary: prev)
  case (Cons e es)
  then show ?case
  proof (cases "prev < length L")
    case True
    then show ?thesis
      using Cons.IH [of "Suc prev"]
      by (cases "Term (L ! prev) = Term e") (auto simp: appended_same appended_conflict)
  next
    case False
    then show ?thesis by (simp add: appended_def)
  qed
qed simp

section \<open>What the handlers leave alone\<close>

lemma accept_leader_simps [simp]:
  "logStore (accept_leader sops r req) = logStore r" "config (accept_leader sops r req) = config r"
  "commitIndex (accept_leader sops r req) = commitIndex r"
  "state (accept_leader sops r req) = Follower"
  "leaderID (accept_leader sops r req) = ae_LeaderID req"
  "lastApplied (accept_leader sops r req) = lastApplied r"
  "pendingFutures (accept_leader sops r req) = pendingFutures r"
  "futures (accept_leader sops r req) = futures r" "fsm (accept_leader sops r req) = fsm r"
  by (simp_all add: accept_leader_def stepDown_def persistState_def Let_def)

lemma currentTerm_accept_leader [simp]:
  "currentTerm r \<le> ae_Term req \<Longrightarrow> currentTerm (accept_leader sops r req) = ae_Term req"
  by (simp add: accept_leader_def stepDown_def persistState_def Let_def)

lemma follower_commit_simps [simp]:
  "logStore (follower_commit lops r req) = logStore r" "config (follower_commit lops r req) = config r"
  "currentTerm (follower_commit lops r req) = currentTerm r"
  "votedFor (follower_commit lops r req) = votedFor r"
  "state (follower_commit lops r req) = state r" "leaderID (follower_commit lops r req) = leaderID r"
  by (simp_all add: follower_commit_def notifyCommit_def Let_def)

section \<open>The handlers on any log store\<close>

context log_store
begin

lemma last_idx_holds: "holds s L \<Longrightarrow> last_idx lops s = length L"
  by (simp add: last_idx_def LastIndex_holds)

lemma got_holds: "holds s L \<Longrightarrow> 0 < i \<Longrightarrow> i \<le> length L \<Longrightarrow> got (GetLog lops s i) = Some (L ! (i - 1))"
  using GetLog_holds [of s L i] by (simp add: got_def)

lemma got_absent: "holds s L \<Longrightarrow> i = 0 \<or> length L < i \<Longrightarrow> got (GetLog lops s i) = None"
  using GetLog_absent [of s L i] by (auto simp: got_def)

lemma append_entries_holds:
  assumes "holds s L" and "consecutive prev es" and "prev \<le> length L" and "length L < 2 ^ 64 - 1"
  shows "\<exists>s' ok. append_entries lops s es = Some (s', ok) \<and>
           (if ok then holds s' (appended L prev es) else \<exists>n. holds s' (take n L) \<and> conflict_cut L prev es n)"
  using assms(2,3)
proof (induction es arbitrary: prev)
  case Nil
  with assms(1) show ?case by auto
next
  case (Cons e es)
  from Cons.prems have idx: "Index e = Suc prev" by simp
  obtain s1 err1 where st: "StoreLogs lops s (e # es) = (s1, err1)" by (cases "StoreLogs lops s (e # es)")
  consider (new) "prev = length L" | (same) "prev < length L" "Term (L ! prev) = Term e"
    | (conflict) "prev < length L" "Term (L ! prev) \<noteq> Term e"
    using Cons.prems(2) by linarith
  then show ?case
  proof cases
    case new
    with StoreLogs_holds [OF assms(1) _ st] Cons.prems(1)
    have "holds s1 (if err1 = None then L @ e # es else L)" by simp
    moreover have "got (GetLog lops s (Index e)) = None"
      using got_absent [OF assms(1)] new idx by simp
    ultimately show ?thesis using st new by (auto simp: appended_end intro: exI [of _ "length L"])
  next
    case same
    then have "got (GetLog lops s (Index e)) = Some (L ! prev)" using got_holds [OF assms(1)] idx by simp
    with same(2) have "append_entries lops s (e # es) = append_entries lops s es" by simp
    moreover from Cons.IH [of "Suc prev"] Cons.prems same(1) obtain s' ok
      where "append_entries lops s es = Some (s', ok)"
        "if ok then holds s' (appended L (Suc prev) es) else \<exists>n. holds s' (take n L) \<and> conflict_cut L (Suc prev) es n"
      by auto
    ultimately show ?thesis using same
      by (intro exI [of _ s'] exI [of _ ok])
        (auto simp: appended_same simp del: append_entries.simps split: if_splits intro: conflict_cut_Suc)
  next
    case conflict
    then have g: "got (GetLog lops s (Index e)) = Some (L ! prev)" using got_holds [OF assms(1)] idx by simp
    obtain s2 err2 where d: "DeleteRange lops s (Suc prev) (length L) = Some (s2, err2)"
      and h2: "holds s2 (if err2 = None then take prev L else L)"
      by (rule DeleteRange_holds [OF assms(1) zero_less_Suc assms(4), of prev, unfolded diff_Suc_1])
    obtain s3 err3 where st2: "StoreLogs lops s2 (e # es) = (s3, err3)" by (cases "StoreLogs lops s2 (e # es)")
    note facts = g d conflict idx last_idx_holds [OF assms(1)]
    show ?thesis
    proof (cases err2)
      case None
      with h2 StoreLogs_holds [OF _ _ st2, of "take prev L"] Cons.prems(1) conflict(1)
      have "holds s3 (if err3 = None then take prev L @ e # es else take prev L)" by simp
      moreover from facts None st2 have "append_entries lops s (e # es) = Some (s3, err3 = None)" by simp
      ultimately show ?thesis using conflict
        by (intro exI [of _ s3] exI [of _ "err3 = None"])
          (auto simp: appended_conflict conflict_cut_def simp del: append_entries.simps intro!: exI [of _ prev])
    next
      case (Some x)
      with h2 have "holds s2 (take (length L) L)" by simp
      moreover from facts Some have "append_entries lops s (e # es) = Some (s2, False)" by simp
      ultimately show ?thesis
        by (intro exI [of _ s2] exI [of _ False]) (auto simp del: append_entries.simps take_all_iff
            intro: exI [of _ "length L"])
    qed
  qed
qed

lemma first_of_term_holds:
  assumes "holds s L"
  shows "i < c \<Longrightarrow> c \<le> length L \<Longrightarrow> 1 \<le> first_of_term lops s t i c \<and> first_of_term lops s t i c \<le> c"
proof (induction i arbitrary: c)
  case (Suc i)
  then have "got (GetLog lops s (Suc i)) = Some (L ! i)" using got_holds [OF assms, of "Suc i"] by simp
  with Suc.IH [of "Suc i"] Suc.prems show ?case by auto
qed simp

lemma prev_conflict_holds:
  assumes "holds s L" and "length L < 2 ^ 64 - 1"
  shows "prev_conflict lops s req = None \<longleftrightarrow>
           ae_PrevLogIndex req = 0 \<or> (ae_PrevLogIndex req \<le> length L \<and>
             Term (L ! (ae_PrevLogIndex req - 1)) = ae_PrevLogTerm req)"
    and "prev_conflict lops s req = Some (t, c) \<Longrightarrow>
           1 \<le> c \<and> c \<le> ae_PrevLogIndex req \<and>
           (0 < t \<longrightarrow> ae_PrevLogIndex req \<le> length L \<and> t = Term (L ! (ae_PrevLogIndex req - 1)) \<and>
              t \<noteq> ae_PrevLogTerm req)"
proof -
  let ?p = "ae_PrevLogIndex req"
  have u: "u64 (Suc (length L)) = Suc (length L)" using assms(2) by (simp add: u64_id)
  have g: "GetLog lops s ?p = (Some (L ! (?p - 1)), None)" if "0 < ?p" "?p \<le> length L"
    using GetLog_holds [OF assms(1) that] .
  show "prev_conflict lops s req = None \<longleftrightarrow>
      ?p = 0 \<or> (?p \<le> length L \<and> Term (L ! (?p - 1)) = ae_PrevLogTerm req)"
    using g by (auto simp: prev_conflict_def last_idx_holds [OF assms(1)] Let_def)
  assume c: "prev_conflict lops s req = Some (t, c)"
  then have pos: "0 < ?p" by (simp add: prev_conflict_def split: if_splits)
  show "1 \<le> c \<and> c \<le> ?p \<and> (0 < t \<longrightarrow> ?p \<le> length L \<and> t = Term (L ! (?p - 1)) \<and> t \<noteq> ae_PrevLogTerm req)"
  proof (cases "?p \<le> length L")
    case True
    have "1 \<le> first_of_term lops s u (?p - 1) ?p \<and> first_of_term lops s u (?p - 1) ?p \<le> ?p" for u
      by (rule first_of_term_holds [OF assms(1)]) (use True pos in auto)
    with c True pos g show ?thesis
      by (auto simp: prev_conflict_def last_idx_holds [OF assms(1)] Let_def split: if_splits)
  next
    case False
    with c pos u show ?thesis
      by (auto simp: prev_conflict_def last_idx_holds [OF assms(1)] Let_def split: if_splits)
  qed
qed

lemma gather_holds:
  assumes "holds s L" and "length L < 2 ^ 64 - 1"
  shows "0 < i \<Longrightarrow> i + n \<le> Suc (length L) \<Longrightarrow> gather lops s i n = take n (drop (i - 1) L)"
proof (induction n arbitrary: i)
  case (Suc n)
  have "i < 2 ^ 64" "Suc i < 2 ^ 64" using Suc.prems assms(2) by simp_all
  then have "u64 (i + 1) = Suc i" by (simp add: u64_id)
  moreover have "got (GetLog lops s i) = Some (L ! (i - 1))" using got_holds [OF assms(1)] Suc.prems by simp
  moreover have "drop (i - 1) L = L ! (i - 1) # drop i L"
    using Suc.prems Cons_nth_drop_Suc [of "i - 1" L] by simp
  ultimately show ?case using Suc by simp
qed simp

lemma last_of_term_holds:
  assumes "holds s L"
  shows "i \<le> length L \<Longrightarrow> last_of_term lops s t i = 0 \<or>
     (last_of_term lops s t i \<le> i \<and> Term (L ! (last_of_term lops s t i - 1)) = t)"
proof (induction i)
  case (Suc i)
  then have "got (GetLog lops s (Suc i)) = Some (L ! i)" using got_holds [OF assms, of "Suc i"] by simp
  with Suc show ?case by auto
qed simp

text \<open>The request of a leader whose \<^verbatim>\<open>nextIndex\<close> for the peer is in range.\<close>

lemma replicate_request_holds:
  assumes "holds (logStore r) L" and "length L < 2 ^ 64 - 1" and "state r = Leader"
    and "0 < nextIndex peer" and "nextIndex peer \<le> Suc (length L)"
  shows "replicate_request lops r peer = Some \<lparr>ae_Term = currentTerm r,
           ae_LeaderID = ServerID (config r), ae_PrevLogIndex = nextIndex peer - 1,
           ae_PrevLogTerm = (if 1 < nextIndex peer then Term (L ! (nextIndex peer - 2)) else 0),
           ae_Entries = drop (nextIndex peer - 1) L, ae_LeaderCommit = commitIndex r\<rparr>"
proof -
  let ?n = "nextIndex peer"
  have "got (GetLog lops (logStore r) (?n - 1)) = Some (L ! (?n - 2))" if "1 < ?n"
  proof -
    have "?n - 1 - 1 = ?n - 2" by simp
    with got_holds [OF assms(1), of "?n - 1"] that assms(5) show ?thesis by simp
  qed
  moreover have "gather lops (logStore r) ?n (Suc (length L) - ?n) = drop (?n - 1) L" if "?n \<le> length L"
    using gather_holds [OF assms(1,2,4), of "Suc (length L) - ?n"] that by simp
  ultimately show ?thesis
    using assms by (simp add: replicate_request_def Let_def last_idx_holds [OF assms(1)])
qed

text \<open>
  \<^verbatim>\<open>handleAppendEntries\<close> returns, and is the function \<open>appended\<close> on the log. The fields of the
  node it leaves alone are not mentioned.
\<close>

lemma follower_commit_index:
  "holds (logStore r) L \<Longrightarrow>
   commitIndex (follower_commit lops r req) = max (commitIndex r) (min (ae_LeaderCommit req) (length L)) \<or>
   commitIndex (follower_commit lops r req) = length L \<and> length L < commitIndex r"
  by (auto simp: follower_commit_def notifyCommit_def Let_def last_idx_holds max_def min_def)

lemma handleAppendEntries_stale:
  "ae_Term req < currentTerm r \<Longrightarrow>
   handleAppendEntries lops sops r req = Some (r, \<lparr>aer_Term = currentTerm r, aer_Success = False,
     aer_ConflictTerm = 0, aer_ConflictIndex = 0\<rparr>, False)"
  by (simp add: handleAppendEntries_def)

lemma handleAppendEntries_reject:
  assumes "holds (logStore r) L" and "length L < 2 ^ 64 - 1" and "currentTerm r \<le> ae_Term req"
    and "\<not> (ae_PrevLogIndex req = 0 \<or> ae_PrevLogIndex req \<le> length L \<and>
             Term (L ! (ae_PrevLogIndex req - 1)) = ae_PrevLogTerm req)"
  shows "\<exists>t c. handleAppendEntries lops sops r req =
           Some (accept_leader sops r req, \<lparr>aer_Term = ae_Term req, aer_Success = False,
             aer_ConflictTerm = t, aer_ConflictIndex = c\<rparr>, True) \<and>
           1 \<le> c \<and> c \<le> ae_PrevLogIndex req \<and>
           (0 < t \<longrightarrow> ae_PrevLogIndex req \<le> length L \<and>
              t = Term (L ! (ae_PrevLogIndex req - 1)) \<and> t \<noteq> ae_PrevLogTerm req)"
proof -
  from prev_conflict_holds(1) [OF assms(1,2)] assms(4)
  obtain t c where "prev_conflict lops (logStore r) req = Some (t, c)"
    by (cases "prev_conflict lops (logStore r) req") auto
  with prev_conflict_holds(2) [OF assms(1,2) this] assms(3) show ?thesis
    by (simp add: handleAppendEntries_def Let_def)
qed

lemma handleAppendEntries_accept:
  assumes "holds (logStore r) L" and "length L < 2 ^ 64 - 1" and "currentTerm r \<le> ae_Term req"
    and "ae_PrevLogIndex req = 0 \<or> ae_PrevLogIndex req \<le> length L \<and>
             Term (L ! (ae_PrevLogIndex req - 1)) = ae_PrevLogTerm req"
    and "consecutive (ae_PrevLogIndex req) (ae_Entries req)"
  obtains (stored) r1 where
      "handleAppendEntries lops sops r req = Some (follower_commit lops r1 req,
         \<lparr>aer_Term = ae_Term req, aer_Success = True, aer_ConflictTerm = 0, aer_ConflictIndex = 0\<rparr>, True)"
      "r1 = (accept_leader sops r req)\<lparr>logStore := logStore r1\<rparr>"
      "holds (logStore r1) (appended L (ae_PrevLogIndex req) (ae_Entries req))"
  | (failed) r1 n where
      "handleAppendEntries lops sops r req = Some (r1,
         \<lparr>aer_Term = ae_Term req, aer_Success = False, aer_ConflictTerm = 0, aer_ConflictIndex = 0\<rparr>, True)"
      "r1 = (accept_leader sops r req)\<lparr>logStore := logStore r1\<rparr>" "holds (logStore r1) (take n L)"
      "conflict_cut L (ae_PrevLogIndex req) (ae_Entries req) n"
proof -
  have le: "ae_PrevLogIndex req \<le> length L" using assms(4) by auto
  have nc: "prev_conflict lops (logStore r) req = None"
    using prev_conflict_holds(1) [OF assms(1,2)] assms(4) by simp
  obtain s' ok where ap: "append_entries lops (logStore r) (ae_Entries req) = Some (s', ok)"
    and h: "if ok then holds s' (appended L (ae_PrevLogIndex req) (ae_Entries req)) else
        \<exists>n. holds s' (take n L) \<and> conflict_cut L (ae_PrevLogIndex req) (ae_Entries req) n"
    using append_entries_holds [OF assms(1,5) le assms(2)] by blast
  let ?r1 = "(accept_leader sops r req)\<lparr>logStore := s'\<rparr>"
  show thesis
  proof (cases ok)
    case True
    with h nc ap assms(3) show thesis
      by (intro stored [of ?r1]) (simp_all add: handleAppendEntries_def Let_def)
  next
    case False
    with h obtain n where "holds s' (take n L)" "conflict_cut L (ae_PrevLogIndex req) (ae_Entries req) n" by auto
    with False nc ap assms(3) show thesis
      by (intro failed [of ?r1 n]) (simp_all add: handleAppendEntries_def Let_def)
  qed
qed

end

section \<open>Log matching\<close>

text \<open>
  The Log Matching Property of two logs: equal terms at an index mean equal logs up to it.
  \<open>term_coherent A B\<close>: where \<open>B\<close> has a term that \<open>A\<close> has at a higher index, \<open>A\<close> has
  it too (a term's entries are created by one leader at consecutive indices).
\<close>

definition log_matching :: "LogEntry list \<Rightarrow> LogEntry list \<Rightarrow> bool" where
  "log_matching A B \<longleftrightarrow>
     (\<forall>i < min (length A) (length B). Term (A ! i) = Term (B ! i) \<longrightarrow> take (Suc i) A = take (Suc i) B)"

definition term_coherent :: "LogEntry list \<Rightarrow> LogEntry list \<Rightarrow> bool" where
  "term_coherent A B \<longleftrightarrow>
     (\<forall>i < length B. \<forall>j < length A. i \<le> j \<and> Term (A ! j) = Term (B ! i) \<longrightarrow> Term (A ! i) = Term (B ! i))"

lemma log_matchingD:
  "log_matching A B \<Longrightarrow> i < length A \<Longrightarrow> i < length B \<Longrightarrow> Term (A ! i) = Term (B ! i) \<Longrightarrow>
   take (Suc i) A = take (Suc i) B"
  by (simp add: log_matching_def)

lemma log_matching_sym: "log_matching A B \<Longrightarrow> log_matching B A"
  by (auto simp: log_matching_def)

lemma log_matching_take: "log_matching A B \<Longrightarrow> log_matching A (take n B)"
  by (auto simp: log_matching_def min_def)

lemma log_matching_refl: "log_matching A A"
  by (simp add: log_matching_def)

lemma appended_prefix:
  assumes "log_matching L Ll"
  shows "take prev L = take prev Ll \<Longrightarrow> prev \<le> length L \<Longrightarrow> es = take k (drop prev Ll) \<Longrightarrow>
     (appended L prev es = L \<and> take (prev + length es) L = take (prev + length es) Ll) \<or>
     appended L prev es = take (prev + length es) Ll"
proof (induction es arbitrary: prev k)
  case Nil
  then show ?case by simp
next
  case (Cons e es)
  then obtain k' where k: "k = Suc k'" by (cases k) auto
  have lt: "prev < length Ll"
    using Cons.prems(3) by (metis drop_all list.distinct(1) not_le take_Nil)
  then have d: "drop prev Ll = Ll ! prev # drop (Suc prev) Ll" by (simp add: Cons_nth_drop_Suc)
  with Cons.prems(3) k have e: "e = Ll ! prev" and es: "es = take k' (drop (Suc prev) Ll)" by simp_all
  have full: "take prev L @ e # es = take (prev + length (e # es)) Ll"
    using Cons.prems(1,3) by (metis take_add length_take min.absorb_iff2 nle_le take_all take_take)
  consider (new) "prev = length L" | (same) "prev < length L" "Term (L ! prev) = Term e"
    | (conflict) "prev < length L" "Term (L ! prev) \<noteq> Term e"
    using Cons.prems(2) by linarith
  then show ?case
  proof cases
    case new
    with full show ?thesis by (simp add: appended_end)
  next
    case same
    then have "take (Suc prev) L = take (Suc prev) Ll" using log_matchingD [OF assms] lt e by simp
    from Cons.IH [OF this _ es] same show ?thesis by (simp add: appended_same)
  next
    case conflict
    with full show ?thesis by (simp add: appended_conflict)
  qed
qed

text \<open>
  A follower that accepts a request cut out of the leader's log \<open>Ll\<close> ends with a log that
  agrees with \<open>Ll\<close> on everything that was sent, and that still matches every log that
  matched both.
\<close>

lemma prev_agreement:
  assumes "log_matching L Ll" and "prev \<le> length Ll"
    and "prev = 0 \<or> prev \<le> length L \<and> Term (L ! (prev - 1)) = Term (Ll ! (prev - 1))"
  shows "take prev L = take prev Ll" "prev \<le> length L"
  using assms log_matchingD [OF assms(1), of "prev - 1"] by (cases prev; auto)+

lemma appended_matching:
  assumes "log_matching L Ll" and "take prev L = take prev Ll" and "prev \<le> length L"
    and "es = take k (drop prev Ll)"
  shows "take (prev + length es) (appended L prev es) = take (prev + length es) Ll"
    and "log_matching B L \<Longrightarrow> log_matching B Ll \<Longrightarrow> log_matching B (appended L prev es)"
  using appended_prefix [OF assms] log_matching_take by (auto simp: min_def)

text \<open>A request that the log already contains changes nothing.\<close>

lemma appended_id:
  assumes "log_matching L Ll"
  shows "take prev L = take prev Ll \<Longrightarrow> prev \<le> length L \<Longrightarrow> es = take k (drop prev Ll) \<Longrightarrow>
     take (prev + length es) L = take (prev + length es) Ll \<Longrightarrow> appended L prev es = L"
proof (induction es arbitrary: prev k)
  case (Cons e es)
  then obtain k' where k: "k = Suc k'" by (cases k) auto
  have lt: "prev < length Ll"
    using Cons.prems(3) by (metis drop_all list.distinct(1) not_le take_Nil)
  then have "drop prev Ll = Ll ! prev # drop (Suc prev) Ll" by (simp add: Cons_nth_drop_Suc)
  with Cons.prems(3) k have e: "e = Ll ! prev" and es: "es = take k' (drop (Suc prev) Ll)" by simp_all
  have t: "take (Suc prev) L = take (Suc prev) Ll"
    using arg_cong [OF Cons.prems(4), of "take (Suc prev)"] by simp
  then have "length (take (Suc prev) L) = Suc prev" using lt by simp
  then have lt': "prev < length L" by simp
  have "L ! prev = Ll ! prev" using arg_cong [OF t, of "\<lambda>xs. xs ! prev"] by simp
  with Cons.IH [OF t _ es] Cons.prems(4) lt' e show ?case by (simp add: appended_same)
qed simp

section \<open>One replication round\<close>

text \<open>
  A round of \<^verbatim>\<open>replicateOnce\<close> with a follower that is reached: request, handler, response.
  \<open>catch_up\<close> repeats it, as \<^verbatim>\<open>runReplicator\<close> does, until the follower accepts.
\<close>

definition replication_round ::
    "'l LogStore \<Rightarrow> 's StableStore \<Rightarrow> ('l, 's, 'f, 'r) RaftNode \<Rightarrow> peerState \<Rightarrow>
     ('l, 's, 'f, 'r) RaftNode \<Rightarrow>
     (('l, 's, 'f, 'r) RaftNode \<times> peerState \<times> ('l, 's, 'f, 'r) RaftNode \<times> bool) option" where
  "replication_round lops sops leader peer follower =
     Option.bind (replicate_request lops leader peer) (\<lambda>req.
       Option.bind (handleAppendEntries lops sops follower req) (\<lambda>(follower', resp, _).
         let (leader', peer') = replicate_response lops sops leader True peer (ae_Entries req) resp
         in Some (leader', peer', follower', aer_Success resp)))"

fun catch_up ::
    "nat \<Rightarrow> 'l LogStore \<Rightarrow> 's StableStore \<Rightarrow> ('l, 's, 'f, 'r) RaftNode \<Rightarrow> peerState \<Rightarrow>
     ('l, 's, 'f, 'r) RaftNode \<Rightarrow>
     (('l, 's, 'f, 'r) RaftNode \<times> peerState \<times> ('l, 's, 'f, 'r) RaftNode) option" where
  "catch_up 0 lops sops leader peer follower = None"
| "catch_up (Suc n) lops sops leader peer follower =
     Option.bind (replication_round lops sops leader peer follower)
       (\<lambda>(leader', peer', follower', ok).
          if ok then Some (leader', peer', follower')
          else catch_up n lops sops leader' peer' follower')"

context reliable_log_store
begin

lemma append_entries_reliable:
  "append_entries lops s es = Some (s', ok) \<Longrightarrow> ok"
proof (induction es arbitrary: s)
  case (Cons e es)
  have r: "err = None" if "StoreLogs lops s1 xs = (s2, err)" for s1 xs s2 err
    using StoreLogs_reliable [of s1 xs] that by simp
  show ?case
  proof (cases "got (GetLog lops s (Index e))")
    case None
    with Cons.prems r show ?thesis by (auto split: prod.splits)
  next
    case (Some x)
    show ?thesis
    proof (cases "Term x = Term e")
      case True
      with Some Cons show ?thesis by simp
    next
      case False
      obtain s1 err1 where "DeleteRange lops s (Index e) (last_idx lops s) = Some (s1, err1)"
        using Cons.prems Some False by (cases "DeleteRange lops s (Index e) (last_idx lops s)") auto
      with DeleteRange_reliable [OF this] Cons.prems Some False r show ?thesis
        by (auto split: prod.splits)
    qed
  qed
qed simp

lemma handleAppendEntries_success:
  assumes "holds (logStore r) L" and "length L < 2 ^ 64 - 1" and "currentTerm r \<le> ae_Term req"
    and "ae_PrevLogIndex req = 0 \<or> ae_PrevLogIndex req \<le> length L \<and>
             Term (L ! (ae_PrevLogIndex req - 1)) = ae_PrevLogTerm req"
    and "consecutive (ae_PrevLogIndex req) (ae_Entries req)"
  obtains r1 where
      "handleAppendEntries lops sops r req = Some (follower_commit lops r1 req,
         \<lparr>aer_Term = ae_Term req, aer_Success = True, aer_ConflictTerm = 0, aer_ConflictIndex = 0\<rparr>, True)"
      "r1 = (accept_leader sops r req)\<lparr>logStore := logStore r1\<rparr>"
      "holds (logStore r1) (appended L (ae_PrevLogIndex req) (ae_Entries req))"
  using assms
proof (cases rule: handleAppendEntries_accept [where sops = sops])
  case (stored r1)
  with that show thesis by blast
next
  case (failed r1 n)
  have nc: "prev_conflict lops (logStore r) req = None"
    using prev_conflict_holds(1) [OF assms(1,2)] assms(4) by simp
  obtain s' ok where "append_entries lops (logStore r) (ae_Entries req) = Some (s', ok)"
    using append_entries_holds [OF assms(1,5) _ assms(2)] assms(4) by auto
  with append_entries_reliable [OF this] nc failed(1) assms(3) show thesis
    by (simp add: handleAppendEntries_def Let_def)
qed

lemma consecutive_drop_holds: "holds s L \<Longrightarrow> n \<le> length L \<Longrightarrow> consecutive n (drop n L)"
proof -
  assume "holds s L" and n: "n \<le> length L"
  then have "consecutive 0 (take n L @ drop n L)"
    unfolding holds_def append_take_drop_id using represents_consecutive by blast
  with n show ?thesis by (simp add: consecutive_append del: append_take_drop_id)
qed

text \<open>A rejected request moves \<^verbatim>\<open>nextIndex\<close> back, and never below 1.\<close>

lemma replicate_response_backs_up:
  assumes "holds (logStore leader) Ll" and "length Ll < 2 ^ 64 - 1"
    and "nextIndex peer \<le> Suc (length Ll)" and "term_coherent Ll L"
    and "1 \<le> c" and "c < nextIndex peer"
    and "0 < t \<Longrightarrow> nextIndex peer - 1 \<le> length L \<and> t = Term (L ! (nextIndex peer - 2)) \<and>
            t \<noteq> Term (Ll ! (nextIndex peer - 2))"
  shows "\<exists>leader' peer'. replicate_response lops sops leader True peer es
           \<lparr>aer_Term = currentTerm leader, aer_Success = False, aer_ConflictTerm = t,
            aer_ConflictIndex = c\<rparr> = (leader', peer') \<and>
         0 < nextIndex peer' \<and> nextIndex peer' < nextIndex peer \<and> matchIndex peer' = matchIndex peer \<and>
         logStore leader' = logStore leader \<and> state leader' = state leader \<and>
         currentTerm leader' = currentTerm leader \<and> config leader' = config leader"
proof -
  let ?j = "last_of_term lops (logStore leader) t (length Ll)"
  have j: "?j + 1 < nextIndex peer" if "0 < t" "0 < ?j"
  proof (rule ccontr)
    assume "\<not> ?j + 1 < nextIndex peer"
    with that assms(6,7) have p: "nextIndex peer - 2 \<le> ?j - 1" "nextIndex peer - 2 < length L"
      "1 < nextIndex peer" using assms(5) by auto
    from last_of_term_holds [OF assms(1) order.refl, of t] that
    have "?j \<le> length Ll" "Term (Ll ! (?j - 1)) = t" by auto
    moreover from this that have "?j - 1 < length Ll" by simp
    ultimately have "Term (Ll ! (nextIndex peer - 2)) = Term (L ! (nextIndex peer - 2))"
      using assms(4) [unfolded term_coherent_def, rule_format, OF p(2), of "?j - 1"] p(1) assms(7) that
      by simp
    with assms(7) that show False by simp
  qed
  then have "u64 (Suc ?j) = Suc ?j" if "0 < t" "0 < ?j"
    using that assms(2,3) by (intro u64_id) force
  with j assms(5,6) show ?thesis
    by (auto simp: replicate_response_def Let_def last_idx_holds [OF assms(1)] put_peer_def)
qed

text \<open>One round: accepted where the logs agree before \<^verbatim>\<open>nextIndex\<close>, refused and backed up elsewhere.\<close>

lemma replication_round_accepted:
  assumes "holds (logStore leader) Ll" and "length Ll < 2 ^ 64 - 1" and "state leader = Leader"
    and "0 < nextIndex peer" and "nextIndex peer \<le> Suc (length Ll)"
    and "holds (logStore follower) L" and "length L < 2 ^ 64 - 1"
    and "currentTerm follower \<le> currentTerm leader"
    and "log_matching L Ll" and "term_coherent Ll L"
    and "nextIndex peer - 1 = 0 \<or> nextIndex peer - 1 \<le> length L \<and> Term (L ! (nextIndex peer - 1 - 1)) = (if 1 < nextIndex peer then Term (Ll ! (nextIndex peer - 2)) else 0)"
  obtains (accepted) leader' peer' follower' where
      "replication_round lops sops leader peer follower = Some (leader', peer', follower', True)"
      "holds (logStore follower') (appended L (nextIndex peer - 1) (drop (nextIndex peer - 1) Ll))"
      "take (length Ll) (appended L (nextIndex peer - 1) (drop (nextIndex peer - 1) Ll)) = Ll"
      "matchIndex peer' = (if nextIndex peer \<le> length Ll then length Ll else matchIndex peer)"
proof -
  let ?p = "nextIndex peer - 1"
  define req where "req = \<lparr>ae_Term = currentTerm leader,
           ae_LeaderID = ServerID (config leader), ae_PrevLogIndex = ?p,
           ae_PrevLogTerm = (if 1 < nextIndex peer then Term (Ll ! (nextIndex peer - 2)) else 0),
           ae_Entries = drop ?p Ll, ae_LeaderCommit = commitIndex leader\<rparr>"
  note request = replicate_request_holds [OF assms(1-5), folded req_def]
  have le: "?p \<le> length Ll" using assms(5) by simp
  have two: "?p - 1 = nextIndex peer - 2" by simp
  have tm: "currentTerm follower \<le> ae_Term req" using assms(8) by (simp add: req_def)
  have True0: "?p = 0 \<or> ?p \<le> length L \<and> Term (L ! (?p - 1)) = ae_PrevLogTerm req"
    using assms(11) by (simp add: req_def)
  from True0 have agr: "?p = 0 \<or> ?p \<le> length L \<and> Term (L ! (?p - 1)) = Term (Ll ! (?p - 1))"
    by (auto simp: req_def numeral_2_eq_2 split: if_splits)
  have prefix: "take (length Ll) (appended L ?p (drop ?p Ll)) = Ll"
    using appended_matching(1) [OF assms(9) prev_agreement [OF assms(9) le agr], of "drop ?p Ll" "length Ll"] le
    by simp
  have "ae_PrevLogIndex req = 0 \<or> ae_PrevLogIndex req \<le> length L \<and>
      Term (L ! (ae_PrevLogIndex req - 1)) = ae_PrevLogTerm req"
    "consecutive (ae_PrevLogIndex req) (ae_Entries req)"
    using True0 consecutive_drop_holds [OF assms(1) le] by (simp_all add: req_def)
  from handleAppendEntries_success [OF assms(6,7) tm this] obtain r1 where r1:
    "handleAppendEntries lops sops follower req = Some (follower_commit lops r1 req,
       \<lparr>aer_Term = ae_Term req, aer_Success = True, aer_ConflictTerm = 0, aer_ConflictIndex = 0\<rparr>, True)"
    "holds (logStore r1) (appended L ?p (drop ?p Ll))"
    by (auto simp: req_def)
  obtain leader' peer' where resp: "replicate_response lops sops leader True peer (ae_Entries req)
       \<lparr>aer_Term = ae_Term req, aer_Success = True, aer_ConflictTerm = 0, aer_ConflictIndex = 0\<rparr> =
       (leader', peer')" by fastforce
  have "Index (last (drop ?p Ll)) = length Ll" if "nextIndex peer \<le> length Ll"
    using consecutive_nth [OF consecutive_drop_holds [OF assms(1) le], of "length (drop ?p Ll) - 1"] that assms(4)
    by (simp add: last_conv_nth)
  with resp assms(4) have "matchIndex peer' = (if nextIndex peer \<le> length Ll then length Ll else matchIndex peer)"
    by (auto simp: replicate_response_def Let_def req_def split: if_splits)
  moreover have "replication_round lops sops leader peer follower =
      Some (leader', peer', follower_commit lops r1 req, True)"
    using request r1(1) resp by (simp add: replication_round_def)
  moreover have "holds (logStore (follower_commit lops r1 req)) (appended L ?p (drop ?p Ll))"
    using r1(2) by simp
  ultimately show thesis using accepted prefix by blast
qed

lemma replication_round_backed_up:
  assumes "holds (logStore leader) Ll" and "length Ll < 2 ^ 64 - 1" and "state leader = Leader"
    and "0 < nextIndex peer" and "nextIndex peer \<le> Suc (length Ll)"
    and "holds (logStore follower) L" and "length L < 2 ^ 64 - 1"
    and "currentTerm follower \<le> currentTerm leader"
    and "log_matching L Ll" and "term_coherent Ll L"
    and "\<not> (nextIndex peer - 1 = 0 \<or> nextIndex peer - 1 \<le> length L \<and> Term (L ! (nextIndex peer - 1 - 1)) = (if 1 < nextIndex peer then Term (Ll ! (nextIndex peer - 2)) else 0))"
  obtains (backed_up) leader' peer' follower' where
      "replication_round lops sops leader peer follower = Some (leader', peer', follower', False)"
      "0 < nextIndex peer'" "nextIndex peer' < nextIndex peer"
      "logStore leader' = logStore leader" "state leader' = Leader"
      "currentTerm leader' = currentTerm leader" "logStore follower' = logStore follower"
      "currentTerm follower' = currentTerm leader"
proof -
  let ?p = "nextIndex peer - 1"
  define req where "req = \<lparr>ae_Term = currentTerm leader,
           ae_LeaderID = ServerID (config leader), ae_PrevLogIndex = ?p,
           ae_PrevLogTerm = (if 1 < nextIndex peer then Term (Ll ! (nextIndex peer - 2)) else 0),
           ae_Entries = drop ?p Ll, ae_LeaderCommit = commitIndex leader\<rparr>"
  note request = replicate_request_holds [OF assms(1-5), folded req_def]
  have le: "?p \<le> length Ll" using assms(5) by simp
  have two: "?p - 1 = nextIndex peer - 2" by simp
  have tm: "currentTerm follower \<le> ae_Term req" using assms(8) by (simp add: req_def)
  have False0: "\<not> (?p = 0 \<or> ?p \<le> length L \<and> Term (L ! (?p - 1)) = ae_PrevLogTerm req)"
    using assms(11) by (auto simp: req_def split: if_splits)
  from False0 have rej: "\<not> (ae_PrevLogIndex req = 0 \<or> ae_PrevLogIndex req \<le> length L \<and>
      Term (L ! (ae_PrevLogIndex req - 1)) = ae_PrevLogTerm req)" by (auto simp: req_def split: if_splits)
  from handleAppendEntries_reject [OF assms(6,7) tm rej, of sops] obtain t c where h:
    "handleAppendEntries lops sops follower req = Some (accept_leader sops follower req,
       \<lparr>aer_Term = ae_Term req, aer_Success = False, aer_ConflictTerm = t, aer_ConflictIndex = c\<rparr>, True)"
    and c: "1 \<le> c" "c < nextIndex peer"
    and t: "0 < t \<Longrightarrow> ?p \<le> length L \<and> t = Term (L ! (nextIndex peer - 2)) \<and> t \<noteq> Term (Ll ! (nextIndex peer - 2))"
    using False0 by (auto simp: req_def numeral_2_eq_2 split: if_splits)
  from replicate_response_backs_up [OF assms(1,2,5,10) c t, of sops "ae_Entries req"] obtain leader' peer'
    where "replicate_response lops sops leader True peer (ae_Entries req)
       \<lparr>aer_Term = ae_Term req, aer_Success = False, aer_ConflictTerm = t, aer_ConflictIndex = c\<rparr> =
       (leader', peer')" and bk: "0 < nextIndex peer'" "nextIndex peer' < nextIndex peer"
       "logStore leader' = logStore leader" "state leader' = Leader"
       "currentTerm leader' = currentTerm leader"
    using assms(3) by (auto simp: req_def)
  with h request have "replication_round lops sops leader peer follower =
      Some (leader', peer', accept_leader sops follower req, False)"
    by (simp add: replication_round_def)
  from backed_up [OF this bk] tm show thesis by (simp add: req_def)
qed

lemma replication_round_cases:
  assumes "holds (logStore leader) Ll" and "length Ll < 2 ^ 64 - 1" and "state leader = Leader"
    and "0 < nextIndex peer" and "nextIndex peer \<le> Suc (length Ll)"
    and "holds (logStore follower) L" and "length L < 2 ^ 64 - 1"
    and "currentTerm follower \<le> currentTerm leader"
    and "log_matching L Ll" and "term_coherent Ll L"
  obtains (accepted) leader' peer' follower' where
      "replication_round lops sops leader peer follower = Some (leader', peer', follower', True)"
      "holds (logStore follower') (appended L (nextIndex peer - 1) (drop (nextIndex peer - 1) Ll))"
      "take (length Ll) (appended L (nextIndex peer - 1) (drop (nextIndex peer - 1) Ll)) = Ll"
      "matchIndex peer' = (if nextIndex peer \<le> length Ll then length Ll else matchIndex peer)"
  | (backed_up) leader' peer' follower' where
      "replication_round lops sops leader peer follower = Some (leader', peer', follower', False)"
      "0 < nextIndex peer'" "nextIndex peer' < nextIndex peer"
      "logStore leader' = logStore leader" "state leader' = Leader"
      "currentTerm leader' = currentTerm leader" "logStore follower' = logStore follower"
      "currentTerm follower' = currentTerm leader"
proof (cases "nextIndex peer - 1 = 0 \<or> nextIndex peer - 1 \<le> length L \<and> Term (L ! (nextIndex peer - 1 - 1)) = (if 1 < nextIndex peer then Term (Ll ! (nextIndex peer - 2)) else 0)")
  case True
  then show thesis by (rule replication_round_accepted [OF assms, of sops]) (rule accepted)
next
  case False
  then show thesis by (rule replication_round_backed_up [OF assms, of sops]) (rule backed_up)
qed

lemma catch_up_holds:
  assumes "holds (logStore leader) Ll" and "length Ll < 2 ^ 64 - 1"
    and "length L < 2 ^ 64 - 1" and "log_matching L Ll" and "term_coherent Ll L"
  shows "state leader = Leader \<Longrightarrow> 0 < nextIndex peer \<Longrightarrow> nextIndex peer \<le> Suc (length Ll) \<Longrightarrow>
    holds (logStore follower) L \<Longrightarrow> currentTerm follower \<le> currentTerm leader \<Longrightarrow>
    holds (logStore leader) Ll \<Longrightarrow> nextIndex peer \<le> n \<Longrightarrow>
    \<exists>leader' peer' follower' L'. catch_up n lops sops leader peer follower = Some (leader', peer', follower') \<and>
      holds (logStore follower') L' \<and> take (length Ll) L' = Ll"
proof (induction n arbitrary: leader peer follower)
  case 0
  then show ?case by simp
next
  case (Suc n)
  from Suc.prems(6) assms(2) Suc.prems(1-4) assms(3) Suc.prems(5) assms(4,5) show ?case
  proof (cases rule: replication_round_cases [where sops = sops])
    case (accepted leader' peer' follower')
    then show ?thesis by auto
  next
    case (backed_up leader' peer' follower')
    have "\<exists>leader'' peer'' follower'' L'. catch_up n lops sops leader' peer' follower' =
        Some (leader'', peer'', follower'') \<and> holds (logStore follower'') L' \<and> take (length Ll) L' = Ll"
      by (rule Suc.IH) (use backed_up Suc.prems in auto)
    with backed_up(1) show ?thesis by simp
  qed
qed

end

section \<open>Committing\<close>

text \<open>The \<open>k\<close>-th largest element is reached by \<open>k + 1\<close> elements, and nothing larger is.\<close>

lemma sorted_filter_ge:
  fixes ys :: "nat list"
  assumes "sorted ys" and "i < length ys"
  shows "length ys - i \<le> length (filter (\<lambda>x. ys ! i \<le> x) ys)"
    and "ys ! i < w \<Longrightarrow> length (filter (\<lambda>x. w \<le> x) ys) < length ys - i"
proof -
  have split: "filter P ys = filter P (take i ys) @ filter P (drop i ys)" for P
    by (metis append_take_drop_id filter_append)
  have "\<forall>x \<in> set (drop i ys). ys ! i \<le> x"
    using assms by (auto simp: in_set_conv_nth intro!: sorted_nth_mono)
  then have "filter (\<lambda>x. ys ! i \<le> x) (drop i ys) = drop i ys" by (simp add: filter_id_conv)
  then show "length ys - i \<le> length (filter (\<lambda>x. ys ! i \<le> x) ys)"
    by (subst split) simp
  assume w: "ys ! i < w"
  have "\<forall>x \<in> set (take i ys). x \<le> ys ! i"
    using assms by (auto simp: in_set_conv_nth intro!: sorted_nth_mono)
  then have "filter (\<lambda>x. w \<le> x) (take i ys) = []" using w by (force simp: filter_empty_conv)
  moreover have "drop i ys = ys ! i # drop (Suc i) ys" using assms(2) by (simp add: Cons_nth_drop_Suc)
  then have "length (filter (\<lambda>x. w \<le> x) (drop i ys)) < length ys - i"
    using w length_filter_le [of "\<lambda>x. w \<le> x" "drop (Suc i) ys"] assms(2) by simp
  ultimately show "length (filter (\<lambda>x. w \<le> x) ys) < length ys - i" by (subst split) simp
qed

lemma length_filter_sort: "length (filter P (sort xs)) = length (filter P (xs :: nat list))"
  by (simp add: filter_sort)

lemma kth_largest:
  fixes xs :: "nat list"
  assumes "k < length xs"
  shows "k < length (filter (\<lambda>x. rev (sort xs) ! k \<le> x) xs)"
    and "rev (sort xs) ! k < w \<Longrightarrow> length (filter (\<lambda>x. w \<le> x) xs) \<le> k"
proof -
  let ?i = "length xs - Suc k"
  have v: "rev (sort xs) ! k = sort xs ! ?i" using assms by (simp add: rev_nth)
  have i: "?i < length (sort xs)" using assms by simp
  note f = sorted_filter_ge [OF sorted_sort i]
  show "k < length (filter (\<lambda>x. rev (sort xs) ! k \<le> x) xs)"
    using f(1) assms by (simp add: v length_filter_sort)
  show "length (filter (\<lambda>x. w \<le> x) xs) \<le> k" if "rev (sort xs) ! k < w"
    using f(2) [of w] assms that by (simp add: v length_filter_sort)
qed

text \<open>The indices a leader counts: its own log and what each peer acknowledged.\<close>

definition matches :: "LogEntry list \<Rightarrow> ('l, 's, 'f, 'r) RaftNode \<Rightarrow> nat list" where
  "matches L r = length L # map (matchIndex \<circ> snd) (peers r)"

definition on_majority :: "nat list \<Rightarrow> nat \<Rightarrow> bool" where
  "on_majority ms n \<longleftrightarrow> length ms < 2 * length (filter (\<lambda>m. n \<le> m) ms)"

context log_store
begin

lemma advanceCommitIndex_cases:
  assumes "holds (logStore r) L"
  obtains (unchanged) "advanceCommitIndex lops r = r"
      "\<And>n. on_majority (matches L r) n \<Longrightarrow> commitIndex r < n \<Longrightarrow>
         \<exists>m \<ge> n. on_majority (matches L r) m \<and> (length L < m \<or> Term (L ! (m - 1)) \<noteq> currentTerm r)"
  | (advanced) n where "advanceCommitIndex lops r = notifyCommit (r\<lparr>commitIndex := n\<rparr>)"
      "commitIndex r < n" "n \<le> length L" "Term (L ! (n - 1)) = currentTerm r"
      "on_majority (matches L r) n" "\<And>m. on_majority (matches L r) m \<Longrightarrow> m \<le> n"
proof -
  let ?ms = "matches L r"
  define n where "n = rev (sort ?ms) ! (length ?ms div 2)"
  have lt: "length ?ms div 2 < length ?ms" by (simp add: matches_def)
  note kth = kth_largest [OF lt]
  have maj: "on_majority ?ms n" using kth(1) by (simp add: on_majority_def n_def)
  have top: "m \<le> n" if "on_majority ?ms m" for m
    using kth(2) [of m] that by (force simp: on_majority_def n_def not_le [symmetric])
  have ac: "advanceCommitIndex lops r =
      (if n \<le> commitIndex r then r
       else case got (GetLog lops (logStore r) n) of None \<Rightarrow> r
         | Some entry \<Rightarrow> if Term entry \<noteq> currentTerm r then r else notifyCommit (r\<lparr>commitIndex := n\<rparr>))"
    unfolding advanceCommitIndex_def Let_def n_def matches_def last_idx_holds [OF assms]
      add_diff_cancel_right' ..
  show thesis
  proof (cases "commitIndex r < n \<and> n \<le> length L \<and> Term (L ! (n - 1)) = currentTerm r")
    case True
    then have "got (GetLog lops (logStore r) n) = Some (L ! (n - 1))" using got_holds [OF assms, of n] by simp
    with True ac maj top show thesis by (intro advanced [of n]) simp_all
  next
    case False
    have "advanceCommitIndex lops r = r"
    proof (cases "commitIndex r < n \<and> n \<le> length L")
      case True
      then have "got (GetLog lops (logStore r) n) = Some (L ! (n - 1))" using got_holds [OF assms, of n] by simp
      with True False ac show ?thesis by simp
    next
      case False
      then show ?thesis using ac got_absent [OF assms, of n] by (cases "n \<le> commitIndex r") auto
    qed
    then show thesis
    proof (rule unchanged)
      fix m assume "on_majority ?ms m" and "commitIndex r < m"
      with top [of m] False maj
      show "\<exists>k \<ge> m. on_majority ?ms k \<and> (length L < k \<or> Term (L ! (k - 1)) \<noteq> currentTerm r)"
        by (intro exI [of _ n]) auto
    qed
  qed
qed

text \<open>
  With sorted terms nothing that could be committed is missed: looking only at the highest
  index that is on a majority is enough.
\<close>

lemma advanceCommitIndex_complete:
  assumes "holds (logStore r) L" and "sorted (map Term L)" and "\<forall>e \<in> set L. Term e \<le> currentTerm r"
    and "\<forall>m \<in> set (matches L r). m \<le> length L"
    and "on_majority (matches L r) n" and "0 < n" and "n \<le> length L" and "Term (L ! (n - 1)) = currentTerm r"
  shows "n \<le> commitIndex (advanceCommitIndex lops r)"
  using assms(1)
proof (cases rule: advanceCommitIndex_cases)
  case unchanged
  show ?thesis
  proof (rule ccontr)
    assume "\<not> ?thesis"
    with unchanged assms(5) obtain m where m: "n \<le> m" "on_majority (matches L r) m"
      "length L < m \<or> Term (L ! (m - 1)) \<noteq> currentTerm r" by force
    have "filter (\<lambda>x. m \<le> x) (matches L r) \<noteq> []" using m(2) by (auto simp: on_majority_def)
    then obtain x where "x \<in> set (matches L r)" "m \<le> x" by (auto simp: filter_empty_conv)
    with assms(4) have le: "m \<le> length L" by force
    have "Term (L ! (n - 1)) \<le> Term (L ! (m - 1))"
      using sorted_nth_mono [OF assms(2), of "n - 1" "m - 1"] m(1) le assms(6) by simp
    moreover have "L ! (m - 1) \<in> set L" using le assms(6) m(1) by simp
    ultimately have "Term (L ! (m - 1)) = currentTerm r" using assms(3,8) by (simp add: order_antisym)
    with m(3) le show False by simp
  qed
next
  case (advanced m)
  then show ?thesis using assms(5) by (simp add: notifyCommit_def)
qed

end

section \<open>Nodes on the in-memory store\<close>

text \<open>The store holds exactly the log \<open>L\<close>.\<close>

definition inmem_holds :: "InmemLogStore \<Rightarrow> LogEntry list \<Rightarrow> bool" where
  "inmem_holds s L \<longleftrightarrow> inmem_inv s \<and> represents (inmem_abs s) L"

lemma inmem_holds_eq: "inmem_holds = inmem.holds"
  by (simp add: fun_eq_iff inmem_holds_def inmem.holds_def)

definition mk_log :: "LogEntry list \<Rightarrow> InmemLogStore" where
  "mk_log es = fst (inmem_StoreLogs NewInmemLogStore es)"

lemma inmem_holds_new: "inmem_holds NewInmemLogStore []"
  using represents_empty inmem_inv_new by (simp add: inmem_holds_def inmem_abs_def NewInmemLogStore_def)

lemma inmem_holds_mk_log:
  assumes "consecutive 0 es"
  shows "inmem_holds (mk_log es) es"
  using inmem.StoreLogs_holds [of NewInmemLogStore "[]" es "mk_log es" None] assms inmem_holds_new
  by (simp add: inmem_holds_eq inmem_log_def inmem_StoreLogs_def mk_log_def)

text \<open>Three servers; a node of server \<open>"a"\<close> with a given log, term and state.\<close>

definition three_peers :: "PeerConfig list" where
  "three_peers = [\<lparr>ID = ''a'', Address = ''a:1''\<rparr>, \<lparr>ID = ''b'', Address = ''b:1''\<rparr>,
                  \<lparr>ID = ''c'', Address = ''c:1''\<rparr>]"

definition ex_config :: "string \<Rightarrow> Config" where
  "ex_config me = DefaultConfig\<lparr>ServerID := me, Peers := three_peers, has_LogStore := True,
                    has_StableStore := True, has_FSM := True\<rparr>"

definition ex_node ::
    "string \<Rightarrow> LogEntry list \<Rightarrow> nat \<Rightarrow> ServerState \<Rightarrow>
     (InmemLogStore, InmemStableStore, string list, nat) RaftNode" where
  "ex_node me es t st =
     \<lparr>config = ex_config me, currentTerm = t, votedFor = [], logStore = mk_log es,
      stableStore = NewInmemStableStore, state = st, commitIndex = 0, lastApplied = 0, peers = [],
      leaderID = [], leaderAddr = [], fsm = [], pendingFutures = [], futures = (\<lambda>_. newApplyFuture),
      nextFuture = 0, applyCh = [], commitNotifyCh = False, shutdownCh = False\<rparr>"

definition ex_peer :: "string \<Rightarrow> nat \<Rightarrow> nat \<Rightarrow> peerState" where
  "ex_peer p n m = \<lparr>ps_id = p, ps_addr = p @ '':1'', nextIndex = n, matchIndex = m, triggerCh = False\<rparr>"

definition ex_entry :: "nat \<Rightarrow> nat \<Rightarrow> string \<Rightarrow> LogEntry" where
  "ex_entry i t d = \<lparr>Index = i, Term = t, Data = d\<rparr>"

lemma ex_entry_simps [simp]: "Index (ex_entry i t d) = i" "Term (ex_entry i t d) = t" "Data (ex_entry i t d) = d"
  by (simp_all add: ex_entry_def)

lemma ex_node_simps [simp]:
  "logStore (ex_node me es t st) = mk_log es" "currentTerm (ex_node me es t st) = t"
  "state (ex_node me es t st) = st" "commitIndex (ex_node me es t st) = 0"
  "peers (ex_node me es t st) = []" "config (ex_node me es t st) = ex_config me"
  by (simp_all add: ex_node_def)

lemma ex_peer_simps [simp]: "nextIndex (ex_peer p n m) = n" "matchIndex (ex_peer p n m) = m"
  by (simp_all add: ex_peer_def)

text \<open>The leader's log, and a follower that diverged in term 2.\<close>

definition leader_log :: "LogEntry list" where
  "leader_log = [ex_entry 1 1 ''x'', ex_entry 2 3 ''y'', ex_entry 3 3 ''z'']"

definition follower_log :: "LogEntry list" where
  "follower_log = [ex_entry 1 1 ''x'', ex_entry 2 2 ''u'', ex_entry 3 2 ''v'', ex_entry 4 2 ''w'']"

lemma example_logs:
  "inmem_holds (mk_log leader_log) leader_log" "inmem_holds (mk_log follower_log) follower_log"
  by (rule inmem_holds_mk_log, simp add: leader_log_def follower_log_def)+

lemma example_matching: "log_matching follower_log leader_log" "term_coherent leader_log follower_log"
  by (auto simp: log_matching_def term_coherent_def leader_log_def follower_log_def less_Suc_eq numeral_eq_Suc)

lemma handleAppendEntries_spec:
  assumes "inmem_holds (logStore r) L" and "length L < 2 ^ 64 - 1"
    and "consecutive (ae_PrevLogIndex req) (ae_Entries req)"
  shows "\<exists>r' resp reset L'. handleAppendEntries inmem_log sops r req = Some (r', resp, reset) \<and>
           inmem_holds (logStore r') L' \<and>
           (aer_Success resp \<longleftrightarrow> currentTerm r \<le> ae_Term req \<and>
              (ae_PrevLogIndex req = 0 \<or> ae_PrevLogIndex req \<le> length L \<and>
                 Term (L ! (ae_PrevLogIndex req - 1)) = ae_PrevLogTerm req)) \<and>
           L' = (if aer_Success resp then appended L (ae_PrevLogIndex req) (ae_Entries req) else L) \<and>
           currentTerm r' = max (currentTerm r) (ae_Term req) \<and> aer_Term resp = currentTerm r'"
proof -
  note h = assms(1) [unfolded inmem_holds_eq]
  let ?ok = "ae_PrevLogIndex req = 0 \<or> ae_PrevLogIndex req \<le> length L \<and>
                 Term (L ! (ae_PrevLogIndex req - 1)) = ae_PrevLogTerm req"
  consider (stale) "ae_Term req < currentTerm r" | (reject) "currentTerm r \<le> ae_Term req" "\<not> ?ok"
    | (accept) "currentTerm r \<le> ae_Term req" "?ok" by linarith
  then show ?thesis
  proof cases
    case stale
    with inmem.handleAppendEntries_stale [OF stale, of sops] assms(1) show ?thesis by auto
  next
    case reject
    from inmem.handleAppendEntries_reject [OF h assms(2) reject, of sops] obtain t c where
      "handleAppendEntries inmem_log sops r req = Some (accept_leader sops r req,
         \<lparr>aer_Term = ae_Term req, aer_Success = False, aer_ConflictTerm = t, aer_ConflictIndex = c\<rparr>, True)"
      by blast
    with assms(1) reject show ?thesis
      by (intro exI [of _ "accept_leader sops r req"] exI [of _ "\<lparr>aer_Term = ae_Term req,
            aer_Success = False, aer_ConflictTerm = t, aer_ConflictIndex = c\<rparr>"] exI [of _ True] exI [of _ L])
        (auto simp: max_def)
  next
    case accept
    obtain r1 where r1: "handleAppendEntries inmem_log sops r req = Some (follower_commit inmem_log r1 req,
         \<lparr>aer_Term = ae_Term req, aer_Success = True, aer_ConflictTerm = 0, aer_ConflictIndex = 0\<rparr>, True)"
      "r1 = (accept_leader sops r req)\<lparr>logStore := logStore r1\<rparr>"
      "inmem_holds (logStore r1) (appended L (ae_PrevLogIndex req) (ae_Entries req))"
      using inmem.handleAppendEntries_success [OF h assms(2) accept assms(3)] unfolding inmem_holds_eq by metis
    have "currentTerm r1 = ae_Term req"
      by (subst r1(2)) (simp add: accept(1))
    with r1(1,3) accept show ?thesis
      by (intro exI [of _ "follower_commit inmem_log r1 req"] exI [of _ "\<lparr>aer_Term = ae_Term req,
            aer_Success = True, aer_ConflictTerm = 0, aer_ConflictIndex = 0\<rparr>"] exI [of _ True]
            exI [of _ "appended L (ae_PrevLogIndex req) (ae_Entries req)"])
        auto
  qed
qed

section \<open>Properties\<close>

text \<open>
  C10. \<^verbatim>\<open>handleAppendEntries\<close> implements the specification on logs. For a request with
  consecutive entries it returns; it accepts exactly when the request's term is current and the
  log agrees at \<^verbatim>\<open>PrevLogIndex\<close>; the log becomes \<open>appended\<close> (entries with equal terms are
  kept, the first conflict truncates) when it accepts and is unchanged when it refuses.
\<close>

theorem handleAppendEntries_refines:
  assumes "inmem_holds (logStore r) L" and "length L < 2 ^ 64 - 1"
    and "consecutive (ae_PrevLogIndex req) (ae_Entries req)"
  shows "\<exists>r' resp reset L'. handleAppendEntries inmem_log sops r req = Some (r', resp, reset) \<and>
           inmem_holds (logStore r') L' \<and>
           (aer_Success resp \<longleftrightarrow> currentTerm r \<le> ae_Term req \<and>
              (ae_PrevLogIndex req = 0 \<or> ae_PrevLogIndex req \<le> length L \<and>
                 Term (L ! (ae_PrevLogIndex req - 1)) = ae_PrevLogTerm req)) \<and>
           L' = (if aer_Success resp then appended L (ae_PrevLogIndex req) (ae_Entries req) else L) \<and>
           currentTerm r' = max (currentTerm r) (ae_Term req) \<and> aer_Term resp = currentTerm r'"
  by (rule handleAppendEntries_spec [OF assms])

theorem handleAppendEntries_refines_witness:
  "\<exists>r' resp reset L'.
     handleAppendEntries inmem_log inmem_stable (ex_node ''b'' follower_log 2 Follower)
       \<lparr>ae_Term = 3, ae_LeaderID = ''a'', ae_PrevLogIndex = 1, ae_PrevLogTerm = 1,
        ae_Entries = drop 1 leader_log, ae_LeaderCommit = 0\<rparr> = Some (r', resp, reset) \<and>
     inmem_holds (logStore r') L' \<and> aer_Success resp \<and> L' = leader_log \<and> currentTerm r' = 3"
proof -
  have "consecutive 1 (drop 1 leader_log)" by (simp add: leader_log_def)
  with handleAppendEntries_refines [of "ex_node ''b'' follower_log 2 Follower" follower_log
      "\<lparr>ae_Term = 3, ae_LeaderID = ''a'', ae_PrevLogIndex = 1, ae_PrevLogTerm = 1,
        ae_Entries = drop 1 leader_log, ae_LeaderCommit = 0\<rparr>" inmem_stable] example_logs
  show ?thesis by (auto simp: follower_log_def leader_log_def appended_def)
qed

text \<open>
  The inductive step of the Log Matching Property. When a follower accepts a request whose
  entries are cut out of the leader's log \<open>Ll\<close> at \<^verbatim>\<open>PrevLogIndex\<close>, its new log agrees with
  \<open>Ll\<close> on everything sent, and it matches every log \<open>B\<close> of the cluster that matched both
  the follower's old log and \<open>Ll\<close>; entries the follower has beyond a matching request are
  not lost.
\<close>

theorem AppendEntries_keeps_log_matching:
  assumes "inmem_holds (logStore r) L" and "length L < 2 ^ 64 - 1"
    and "inmem_holds leader_store Ll" and "log_matching L Ll"
    and "ae_PrevLogIndex req \<le> length Ll"
    and "ae_PrevLogIndex req = 0 \<or> ae_PrevLogTerm req = Term (Ll ! (ae_PrevLogIndex req - 1))"
    and "ae_Entries req = take k (drop (ae_PrevLogIndex req) Ll)"
    and "handleAppendEntries inmem_log sops r req = Some (r', resp, reset)" and "aer_Success resp"
    and "log_matching B L" and "log_matching B Ll"
  shows "\<exists>L'. inmem_holds (logStore r') L' \<and>
           take (ae_PrevLogIndex req + length (ae_Entries req)) L' =
             take (ae_PrevLogIndex req + length (ae_Entries req)) Ll \<and>
           log_matching B L' \<and>
           (take (ae_PrevLogIndex req + length (ae_Entries req)) L =
              take (ae_PrevLogIndex req + length (ae_Entries req)) Ll \<longrightarrow> L' = L)"
proof -
  let ?p = "ae_PrevLogIndex req" and ?es = "ae_Entries req"
  have "consecutive ?p (drop ?p Ll)"
    using inmem.consecutive_drop_holds assms(3,5) unfolding inmem_holds_eq by blast
  then have con: "consecutive ?p ?es" using assms(7) consecutive_take by simp
  from handleAppendEntries_spec [OF assms(1,2) con, of sops] assms(8,9)
  have h: "inmem_holds (logStore r') (appended L ?p ?es)"
    and ok: "?p = 0 \<or> ?p \<le> length L \<and> Term (L ! (?p - 1)) = ae_PrevLogTerm req" by auto
  from ok assms(6) have agr: "?p = 0 \<or> ?p \<le> length L \<and> Term (L ! (?p - 1)) = Term (Ll ! (?p - 1))" by auto
  note pa = prev_agreement [OF assms(4,5) agr]
  note m = appended_matching [OF assms(4) pa assms(7)]
  have "appended L ?p ?es = L" if "take (?p + length ?es) L = take (?p + length ?es) Ll"
    using appended_id [OF assms(4) pa assms(7) that] .
  with h m(1) m(2) [OF assms(10,11)] show ?thesis by blast
qed

text \<open>The request of the example leader to the example follower, cut at index 1.\<close>

theorem AppendEntries_keeps_log_matching_witness:
  "\<exists>r' resp reset L'.
     handleAppendEntries inmem_log inmem_stable (ex_node ''b'' follower_log 2 Follower)
       \<lparr>ae_Term = 3, ae_LeaderID = ''a'', ae_PrevLogIndex = 1, ae_PrevLogTerm = 1,
        ae_Entries = take 1 (drop 1 leader_log), ae_LeaderCommit = 0\<rparr> = Some (r', resp, reset) \<and>
     inmem_holds (logStore r') L' \<and> take 2 L' = take 2 leader_log \<and> log_matching leader_log L'"
proof -
  let ?r = "ex_node ''b'' follower_log 2 Follower"
  let ?req = "\<lparr>ae_Term = 3, ae_LeaderID = ''a'', ae_PrevLogIndex = 1, ae_PrevLogTerm = 1,
        ae_Entries = take 1 (drop 1 leader_log), ae_LeaderCommit = 0\<rparr>"
  have hr: "inmem_holds (logStore ?r) follower_log" and len: "length follower_log < 2 ^ 64 - 1"
    using example_logs by (simp_all add: follower_log_def)
  have con: "consecutive (ae_PrevLogIndex ?req) (ae_Entries ?req)" by (simp add: leader_log_def)
  obtain r' resp reset where step: "handleAppendEntries inmem_log inmem_stable ?r ?req = Some (r', resp, reset)"
    and ok: "aer_Success resp"
    using handleAppendEntries_spec [OF hr len con, of inmem_stable] by (auto simp: follower_log_def)
  have two: "ae_PrevLogIndex ?req + length (ae_Entries ?req) = 2" by (simp add: leader_log_def)
  have fin: "\<exists>L'. inmem_holds (logStore r') L' \<and>
      take (ae_PrevLogIndex ?req + length (ae_Entries ?req)) L' =
        take (ae_PrevLogIndex ?req + length (ae_Entries ?req)) leader_log \<and> log_matching leader_log L' \<and>
      (take (ae_PrevLogIndex ?req + length (ae_Entries ?req)) follower_log =
         take (ae_PrevLogIndex ?req + length (ae_Entries ?req)) leader_log \<longrightarrow> L' = follower_log)"
    by (rule AppendEntries_keeps_log_matching [OF hr len example_logs(1) example_matching(1) _ _ _ step ok
          log_matching_sym [OF example_matching(1)] log_matching_refl, of 1])
      (simp_all add: leader_log_def)
  from fin [unfolded two] step show ?thesis by blast
qed

text \<open>
  C14. Replication catches up. From any \<^verbatim>\<open>nextIndex\<close> in range, with logs that match and
  terms created by one leader each, repeating \<^verbatim>\<open>replicateOnce\<close> against a follower that answers
  terminates within \<^verbatim>\<open>nextIndex\<close> rounds with the follower's log extending the leader's: each
  refusal moves \<^verbatim>\<open>nextIndex\<close> strictly back.
\<close>

theorem replication_catches_up:
  assumes "inmem_holds (logStore leader) Ll" and "length Ll < 2 ^ 64 - 1"
    and "inmem_holds (logStore follower) L" and "length L < 2 ^ 64 - 1"
    and "log_matching L Ll" and "term_coherent Ll L"
    and "state leader = Leader" and "0 < nextIndex peer" and "nextIndex peer \<le> Suc (length Ll)"
    and "currentTerm follower \<le> currentTerm leader"
  shows "\<exists>leader' peer' follower' L'.
           catch_up (nextIndex peer) inmem_log sops leader peer follower = Some (leader', peer', follower') \<and>
           inmem_holds (logStore follower') L' \<and> take (length Ll) L' = Ll"
  unfolding inmem_holds_eq
  by (rule inmem.catch_up_holds [OF assms(1) [unfolded inmem_holds_eq] assms(2,4,5,6,7,8,9)
        assms(3) [unfolded inmem_holds_eq] assms(10) assms(1) [unfolded inmem_holds_eq] order.refl])

theorem replication_catches_up_witness:
  "\<exists>leader' peer' follower' L'.
     catch_up (nextIndex (ex_peer ''b'' 4 0)) inmem_log inmem_stable (ex_node ''a'' leader_log 3 Leader)
       (ex_peer ''b'' 4 0) (ex_node ''b'' follower_log 2 Follower) = Some (leader', peer', follower') \<and>
     inmem_holds (logStore follower') L' \<and> take (length leader_log) L' = leader_log"
  by (rule replication_catches_up [OF _ _ _ _ example_matching])
    (simp_all add: example_logs, simp_all add: leader_log_def follower_log_def)

text \<open>
  C11. What a leader commits is on a majority. When \<^verbatim>\<open>advanceCommitIndex\<close> moves the commit
  index to \<open>n\<close>, then \<open>n\<close> is an index of the log whose entry has the current term, more than
  half of the servers (the leader and the acknowledged peers) have it, and no higher index is on
  a majority. With sorted terms it misses nothing: every current-term index on a majority is
  committed afterwards.
\<close>

theorem advanceCommitIndex_correct:
  assumes "inmem_holds (logStore r) L" and "sorted (map Term L)"
    and "\<forall>e \<in> set L. Term e \<le> currentTerm r" and "\<forall>m \<in> set (matches L r). m \<le> length L"
  defines "r' \<equiv> advanceCommitIndex inmem_log r"
  shows "(commitIndex r' = commitIndex r \<or>
           commitIndex r < commitIndex r' \<and> commitIndex r' \<le> length L \<and>
           Term (L ! (commitIndex r' - 1)) = currentTerm r \<and> on_majority (matches L r) (commitIndex r')) \<and>
         (\<forall>n. 0 < n \<and> n \<le> length L \<and> on_majority (matches L r) n \<and> Term (L ! (n - 1)) = currentTerm r \<longrightarrow>
            n \<le> commitIndex r')"
proof -
  note h = assms(1) [unfolded inmem_holds_eq]
  have "commitIndex r' = commitIndex r \<or>
        commitIndex r < commitIndex r' \<and> commitIndex r' \<le> length L \<and>
        Term (L ! (commitIndex r' - 1)) = currentTerm r \<and> on_majority (matches L r) (commitIndex r')"
    using h by (cases rule: inmem.advanceCommitIndex_cases) (auto simp: r'_def notifyCommit_def)
  moreover have "n \<le> commitIndex r'"
    if "0 < n" "n \<le> length L" "on_majority (matches L r) n" "Term (L ! (n - 1)) = currentTerm r" for n
    unfolding r'_def using inmem.advanceCommitIndex_complete [OF h assms(2-4) that(3,1,2,4)] .
  ultimately show ?thesis by blast
qed

definition commit_example :: "(InmemLogStore, InmemStableStore, string list, nat) RaftNode" where
  "commit_example = (ex_node ''a'' leader_log 3 Leader)
     \<lparr>peers := [(''b'', ex_peer ''b'' 3 2), (''c'', ex_peer ''c'' 1 0)]\<rparr>"

theorem advanceCommitIndex_correct_witness:
  "commitIndex (advanceCommitIndex inmem_log commit_example) = 2 \<and>
   on_majority (matches leader_log commit_example) 2"
proof -
  have "inmem_holds (logStore commit_example) leader_log" by (simp add: commit_example_def example_logs)
  note c = advanceCommitIndex_correct [OF this]
  have m: "matches leader_log commit_example = [3, 2, 0]"
    by (simp add: matches_def commit_example_def leader_log_def)
  have two: "on_majority (matches leader_log commit_example) 2" by (simp add: m on_majority_def)
  have top: "\<not> on_majority (matches leader_log commit_example) n" if "2 < n" for n
    using that by (simp add: m on_majority_def)
  have t: "sorted (map Term leader_log)" "\<forall>e\<in>set leader_log. Term e \<le> currentTerm commit_example"
    "\<forall>m\<in>set (matches leader_log commit_example). m \<le> length leader_log"
    unfolding m by (simp_all add: leader_log_def commit_example_def)
  let ?n = "commitIndex (advanceCommitIndex inmem_log commit_example)"
  have old: "commitIndex commit_example = 0" by (simp add: commit_example_def)
  have e: "0 < (2 :: nat) \<and> 2 \<le> length leader_log \<and> on_majority (matches leader_log commit_example) 2 \<and>
      Term (leader_log ! (2 - 1)) = currentTerm commit_example"
    using two by (simp add: leader_log_def commit_example_def)
  have ge: "2 \<le> ?n" by (rule c [OF t, THEN conjunct2, rule_format, OF e])
  from c [OF t, THEN conjunct1] ge old have "on_majority (matches leader_log commit_example) ?n" by linarith
  with top [of ?n] ge have "?n = 2" by linarith
  with two show ?thesis by blast
qed

end
