(* ===== verification/Raft_Apply.thy ===== *)
theory Raft_Apply
  imports Raft_Replication
begin

text \<open>
  From committed entries to the state machine: \<^verbatim>\<open>applyCommitted\<close> and the futures of clients.
  \<open>apply_datas\<close> is the specification, the commands of a stretch of log run in order (a no-op
  entry has no data and is skipped).
\<close>

section \<open>Specification\<close>

fun apply_datas :: "('f \<Rightarrow> string \<Rightarrow> ('f \<times> 'r option) option) \<Rightarrow> 'f \<Rightarrow> string list \<Rightarrow> 'f option" where
  "apply_datas fapply f [] = Some f"
| "apply_datas fapply f (d # ds) =
     (if d = [] then apply_datas fapply f ds
      else Option.bind (fapply f d) (\<lambda>(f', resp). apply_datas fapply f' ds))"

lemma apply_datas_append:
  "apply_datas fapply f (xs @ ys) = Option.bind (apply_datas fapply f xs) (\<lambda>g. apply_datas fapply g ys)"
  by (induction xs arbitrary: f) (auto split: bind_splits)

text \<open>The state machine of a node is the run of the first \<^verbatim>\<open>lastApplied\<close> entries of its log.\<close>

definition applied_ok ::
    "('f \<Rightarrow> string \<Rightarrow> ('f \<times> 'r option) option) \<Rightarrow> 'f \<Rightarrow> LogEntry list \<Rightarrow> ('l, 's, 'f, 'r) RaftNode \<Rightarrow> bool" where
  "applied_ok fapply init L r \<longleftrightarrow>
     lastApplied r \<le> length L \<and>
     apply_datas fapply init (map Data (take (lastApplied r) L)) = Some (fsm r)"

text \<open>The state machine returns on every command.\<close>

definition fsm_total :: "('f \<Rightarrow> string \<Rightarrow> ('f \<times> 'r option) option) \<Rightarrow> bool" where
  "fsm_total fapply \<longleftrightarrow> (\<forall>f d. fapply f d \<noteq> None)"

section \<open>The apply loop\<close>

lemma apply_one_keeps:
  assumes "apply_one lops fapply idx r = Some r'"
  shows "logStore r' = logStore r" "commitIndex r' = commitIndex r" "state r' = state r"
    "currentTerm r' = currentTerm r"
  using assms
  by (auto simp: apply_one_def respond_at_def Let_def split: option.splits prod.splits)

context log_store
begin

lemma apply_one_holds:
  assumes "holds (logStore r) L" and "0 < i" and "i \<le> length L"
    and "apply_one lops fapply i r = Some r'"
  shows "lastApplied r' = i \<and> apply_datas fapply (fsm r) [Data (L ! (i - 1))] = Some (fsm r')"
proof -
  let ?e = "L ! (i - 1)"
  have g: "got (GetLog lops (logStore r) i) = Some ?e" using got_holds [OF assms(1-3)] .
  show ?thesis
  proof (cases "Data ?e = []")
    case True
    with assms(4) g show ?thesis
      by (auto simp: apply_one_def respond_at_def Let_def split: option.splits)
  next
    case False
    with assms(4) g obtain f' resp where "fapply (fsm r) (Data ?e) = Some (f', resp)"
      by (auto simp: apply_one_def)
    with False assms(4) g show ?thesis
      by (auto simp: apply_one_def respond_at_def Let_def split: option.splits)
  qed
qed

lemma apply_one_total:
  assumes "fsm_total fapply"
  shows "\<exists>r'. apply_one lops fapply i r = Some r'"
  using assms by (auto simp: apply_one_def fsm_total_def split: option.splits)

lemma apply_range_holds:
  assumes "b \<le> length L"
  shows "holds (logStore r) L \<Longrightarrow> a \<le> b \<Longrightarrow> lastApplied r = a \<Longrightarrow>
    apply_range lops fapply [Suc a..<Suc b] r = Some r' \<Longrightarrow>
    lastApplied r' = b \<and> logStore r' = logStore r \<and> commitIndex r' = commitIndex r \<and>
    apply_datas fapply (fsm r) (map Data (drop a (take b L))) = Some (fsm r')"
proof (induction "b - a" arbitrary: a r)
  case 0
  then show ?case by simp
next
  case (Suc n)
  then have lt: "a < b" by simp
  then have up: "[Suc a..<Suc b] = Suc a # [Suc (Suc a)..<Suc b]" by (simp add: upt_conv_Cons)
  from Suc.prems(4) obtain r1 where one: "apply_one lops fapply (Suc a) r = Some r1"
    and rest: "apply_range lops fapply [Suc (Suc a)..<Suc b] r1 = Some r'"
    unfolding up by (auto split: bind_splits)
  have "Suc a \<le> length L" using lt assms by simp
  from apply_one_holds [OF Suc.prems(1) _ this one] have s1: "lastApplied r1 = Suc a"
    "apply_datas fapply (fsm r) [Data (L ! a)] = Some (fsm r1)" by simp_all
  note keeps = apply_one_keeps [OF one]
  have n: "n = b - Suc a" using Suc.hyps(2) by simp
  have "holds (logStore r1) L" using Suc.prems(1) keeps by simp
  from Suc.hyps(1) [OF n this _ s1(1) rest] lt keeps
  have s2: "lastApplied r' = b" "logStore r' = logStore r" "commitIndex r' = commitIndex r"
    "apply_datas fapply (fsm r1) (map Data (drop (Suc a) (take b L))) = Some (fsm r')" by simp_all
  have "drop a (take b L) = L ! a # drop (Suc a) (take b L)"
    using lt assms Cons_nth_drop_Suc [of a "take b L"] by simp
  then have "map Data (drop a (take b L)) = [Data (L ! a)] @ map Data (drop (Suc a) (take b L))" by simp
  with s1(2) s2 show ?case by (simp only: apply_datas_append) simp
qed

lemma apply_range_total:
  assumes "fsm_total fapply"
  shows "\<exists>r'. apply_range lops fapply is r = Some r'"
proof (induction "is" arbitrary: r)
  case (Cons i "is")
  from apply_one_total [OF assms, of i r] obtain r1 where "apply_one lops fapply i r = Some r1" by blast
  with Cons show ?case by simp
qed simp

lemma applyCommitted_holds:
  assumes "holds (logStore r) L" and "commitIndex r \<le> length L" and "length L < 2 ^ 64 - 1"
    and "applied_ok fapply init L r" and "applyCommitted lops fapply r = Some r'"
  shows "applied_ok fapply init L r' \<and> lastApplied r' = max (lastApplied r) (commitIndex r) \<and>
         logStore r' = logStore r \<and> commitIndex r' = commitIndex r"
proof -
  from assms(3,4) have u: "u64 (Suc (lastApplied r)) = Suc (lastApplied r)"
    by (auto simp: applied_ok_def intro: u64_id)
  have run: "apply_range lops fapply [Suc (lastApplied r)..<Suc (commitIndex r)] r = Some r'"
    using assms(5) unfolding applyCommitted_def by (simp add: u split: if_splits)
  show ?thesis
  proof (cases "lastApplied r \<le> commitIndex r")
    case True
    from apply_range_holds [OF assms(2,1) True refl run]
    have s: "lastApplied r' = commitIndex r" "logStore r' = logStore r" "commitIndex r' = commitIndex r"
      "apply_datas fapply (fsm r) (map Data (drop (lastApplied r) (take (commitIndex r) L))) = Some (fsm r')"
      by simp_all
    have "take (lastApplied r) L @ drop (lastApplied r) (take (commitIndex r) L) = take (commitIndex r) L"
      using True by (metis append_take_drop_id min.absorb1 take_take)
    then have "map Data (take (commitIndex r) L) =
        map Data (take (lastApplied r) L) @ map Data (drop (lastApplied r) (take (commitIndex r) L))"
      by (metis map_append)
    with s assms(2,4) True show ?thesis by (simp add: applied_ok_def apply_datas_append max_def)
  next
    case False
    with run have "r' = r" by simp
    with False assms(4) show ?thesis by simp
  qed
qed

lemma applyCommitted_total:
  assumes "fsm_total fapply" and "commitIndex r < 2 ^ 64 - 1"
  shows "\<exists>r'. applyCommitted lops fapply r = Some r'"
  using apply_range_total [OF assms(1), of _ r] assms(2) by (simp only: applyCommitted_def) auto

end

section \<open>Examples\<close>

text \<open>A state machine that records the commands it was given.\<close>

definition recorder :: "string list \<Rightarrow> string \<Rightarrow> (string list \<times> nat option) option" where
  "recorder f d = Some (f @ [d], Some (length f + 1))"

lemma mk_log_example_last [simp]: "highIdx (mk_log leader_log) = 3"
  by (simp add: mk_log_def leader_log_def inmem_StoreLogs_def NewInmemLogStore_def store_one_def)

definition deposed :: "(InmemLogStore, InmemStableStore, string list, nat) RaftNode" where
  "deposed = (ex_node ''a'' [ex_entry 1 1 ''mine''] 1 Leader)\<lparr>pendingFutures := [(1, 0)], nextFuture := 1\<rparr>"

definition overwrite_req :: AppendEntriesRequest where
  "overwrite_req = \<lparr>ae_Term = 2, ae_LeaderID = ''b'', ae_PrevLogIndex = 0, ae_PrevLogTerm = 0,
     ae_Entries = [ex_entry 1 2 ''other''], ae_LeaderCommit = 1\<rparr>"

section \<open>Properties\<close>

text \<open>
  Committed entries reach the state machine exactly once and in log order. For a state
  machine that returns, \<^verbatim>\<open>applyCommitted\<close> returns, and keeps the invariant that the state machine
  is the run of the first \<^verbatim>\<open>lastApplied\<close> entries of the log, with \<^verbatim>\<open>lastApplied\<close> moved up to
  the commit index.
\<close>

theorem applyCommitted_in_order:
  assumes "inmem_holds (logStore r) L" and "commitIndex r \<le> length L" and "length L < 2 ^ 64 - 1"
    and "applied_ok fapply init L r" and "fsm_total fapply"
  shows "\<exists>r'. applyCommitted inmem_log fapply r = Some r' \<and> applied_ok fapply init L r' \<and>
           lastApplied r' = max (lastApplied r) (commitIndex r) \<and>
           logStore r' = logStore r \<and> commitIndex r' = commitIndex r"
proof -
  have "commitIndex r < 2 ^ 64 - 1" using assms(2,3) by simp
  from inmem.applyCommitted_total [OF assms(5) this] obtain r'
    where "applyCommitted inmem_log fapply r = Some r'" by blast
  with inmem.applyCommitted_holds [OF assms(1) [unfolded inmem_holds_eq] assms(2-4) this] show ?thesis by blast
qed

theorem applyCommitted_in_order_witness:
  "\<exists>r'. applyCommitted inmem_log recorder ((ex_node ''b'' leader_log 3 Follower)\<lparr>commitIndex := 2\<rparr>) = Some r' \<and>
     applied_ok recorder [] leader_log r' \<and> lastApplied r' = 2"
proof -
  let ?r = "(ex_node ''b'' leader_log 3 Follower)\<lparr>commitIndex := 2\<rparr>"
  have "inmem_holds (logStore ?r) leader_log" "commitIndex ?r \<le> length leader_log"
    "length leader_log < 2 ^ 64 - 1" "applied_ok recorder [] leader_log ?r"
    using example_logs by (simp_all add: applied_ok_def ex_node_def leader_log_def)
  moreover have "fsm_total recorder" by (simp add: fsm_total_def recorder_def)
  ultimately have "\<exists>r'. applyCommitted inmem_log recorder ?r = Some r' \<and> applied_ok recorder [] leader_log r' \<and>
      lastApplied r' = max (lastApplied ?r) (commitIndex ?r) \<and> logStore r' = logStore ?r \<and>
      commitIndex r' = commitIndex ?r"
    by (rule applyCommitted_in_order)
  then show ?thesis by (auto simp: ex_node_def)
qed

text \<open>
  Replicas agree. Two nodes whose logs match, that started from the same state machine and
  have applied the same number of entries, of which the last has the same term in both logs, are
  in the same state.
\<close>

theorem replicas_agree:
  assumes "applied_ok fapply init L1 r1" and "applied_ok fapply init L2 r2" and "log_matching L1 L2"
    and "lastApplied r1 = lastApplied r2" and "0 < lastApplied r1"
    and "Term (L1 ! (lastApplied r1 - 1)) = Term (L2 ! (lastApplied r2 - 1))"
  shows "fsm r1 = fsm r2"
proof -
  from assms(1,2,4,5) have "lastApplied r1 - 1 < length L1" "lastApplied r1 - 1 < length L2"
    by (auto simp: applied_ok_def)
  from log_matchingD [OF assms(3) this] assms(4-6)
  have "take (lastApplied r1) L1 = take (lastApplied r2) L2" by simp
  with assms(1,2) show ?thesis by (simp add: applied_ok_def)
qed

theorem replicas_agree_witness:
  "fsm ((ex_node ''a'' leader_log 3 Leader)\<lparr>lastApplied := 1, fsm := [''x'']\<rparr>) =
   fsm ((ex_node ''b'' follower_log 2 Follower)\<lparr>lastApplied := 1, fsm := [''x'']\<rparr>)"
  by (rule replicas_agree [of recorder "[]" leader_log _ follower_log])
    (simp_all add: applied_ok_def recorder_def log_matching_sym [OF example_matching(1)],
      simp_all add: leader_log_def follower_log_def recorder_def)

text \<open>
  C33. A deposed leader may acknowledge a command it lost. The node proposed \<open>"mine"\<close> at
  index 1 in term 1; a leader of term 2 overwrites index 1 and commits it. If the apply
  goroutine runs before the run goroutine reaches \<^verbatim>\<open>failPendingFutures\<close> (the commit
  notification is sent inside the handler), the client's future is resolved with a nil error
  and with the result of the other command, although \<open>"mine"\<close> is in no log.
\<close>

theorem deposed_leader_false_ack:
  "\<exists>r1 resp reset r2.
     handleAppendEntries inmem_log inmem_stable deposed overwrite_req = Some (r1, resp, reset) \<and>
     commitNotifyCh r1 \<and> applyCommitted inmem_log recorder r1 = Some r2 \<and>
     outcome (futures (failPendingFutures r2) 0) = Some (None, Some 1) \<and> fsm r2 = [''other''] \<and>
     ''mine'' \<notin> Data ` ran (inmem_abs (logStore r2))"
proof -
  let ?h = "handleAppendEntries inmem_log inmem_stable deposed overwrite_req"
  obtain r1 resp reset where h: "?h = Some (r1, resp, reset)" and
    c: "commitNotifyCh r1" "commitIndex r1 = 1" "lastApplied r1 = 0" "fsm r1 = []"
    "pendingFutures r1 = [(1, 0)]" "futures r1 = (\<lambda>_. newApplyFuture)"
    "logStore r1 = mk_log [ex_entry 1 2 ''other'']"
    by (simp add: handleAppendEntries_def deposed_def overwrite_req_def ex_node_def prev_conflict_def
        accept_leader_def stepDown_def persistState_def follower_commit_def notifyCommit_def
        inmem_log_def got_def inmem_GetLog_def mk_log_def inmem_StoreLogs_def store_one_def
        NewInmemLogStore_def inmem_DeleteRange_def last_idx_def inmem_LastIndex_def rebound_def)
  have "got (GetLog inmem_log (logStore r1) 1) = Some (ex_entry 1 2 ''other'')"
    by (simp add: c inmem_log_def got_def inmem_GetLog_def mk_log_def inmem_StoreLogs_def store_one_def
        NewInmemLogStore_def)
  then obtain r2 where a: "applyCommitted inmem_log recorder r1 = Some r2" and
    r2: "fsm r2 = [''other'']" "pendingFutures r2 = []" "logStore r2 = logStore r1"
    "futures r2 0 = respond None (Some 1) newApplyFuture"
    by (simp add: applyCommitted_def apply_one_def c u64_def recorder_def respond_at_def)
  have "outcome (futures (failPendingFutures r2) 0) = Some (None, Some 1)"
    using r2 outcome_respond [of newApplyFuture None "Some (1 :: nat)"]
    by (simp add: failPendingFutures_def fail_all_def) (simp add: newApplyFuture_def)
  moreover have "''mine'' \<notin> Data ` ran (inmem_abs (logStore r2))"
    by (auto simp: ran_def r2 c inmem_abs_def mk_log_def inmem_StoreLogs_def store_one_def NewInmemLogStore_def
        split: if_splits)
  ultimately show ?thesis using h c(1) a r2(1) by blast
qed

end
