(* ===== verification/Raft_Election.thy ===== *)
theory Raft_Election
  imports Raft_Apply
begin

text \<open>
  Terms, votes and their persistence, for one node: the critical sections of \<^verbatim>\<open>raft.go\<close>,
  \<^verbatim>\<open>election.go\<close> and \<^verbatim>\<open>replication.go\<close> as a step relation, in which messages and votes are
  arbitrary, and what every step keeps.
\<close>

section \<open>The steps of a node\<close>

text \<open>
  Steps that leave the term, the vote, the role and the configuration alone: proposing a command,
  appending its entry, applying committed ones, resolving futures, preparing leadership.
\<close>

inductive local_step ::
    "'l LogStore \<Rightarrow> ('f \<Rightarrow> string \<Rightarrow> ('f \<times> 'r option) option) \<Rightarrow>
     ('l, 's, 'f, 'r) RaftNode \<Rightarrow> ('l, 's, 'f, 'r) RaftNode \<Rightarrow> bool"
  for lops fapply where
  local_Apply: "raft_Apply r data choice = Some (r', f) \<Longrightarrow> local_step lops fapply r r'"
| local_deadline: "apply_deadline r f choice = Some r' \<Longrightarrow> local_step lops fapply r r'"
| local_request: "applyCh r = req # reqs \<Longrightarrow>
    local_step lops fapply r (handleApplyRequest lops (r\<lparr>applyCh := reqs\<rparr>) req)"
| local_init: "local_step lops fapply r (initLeader lops r)"
| local_fail: "local_step lops fapply r (failPendingFutures r)"
| local_commit: "applyCommitted lops fapply (r\<lparr>commitNotifyCh := False\<rparr>) = Some r' \<Longrightarrow>
    local_step lops fapply r r'"

text \<open>Messages carry \<^verbatim>\<open>uint64\<close> terms.\<close>

fun rpc_term :: "RPC \<Rightarrow> nat" where
  "rpc_term (AppendEntriesRPC req) = ae_Term req"
| "rpc_term (RequestVoteRPC req) = rv_Term req"
| "rpc_term OtherRPC = 0"

text \<open>
  All steps. \<open>node_noop\<close> and \<open>node_vote\<close> have no guard on the role: the code does not look at it
  again when \<^verbatim>\<open>runLeader\<close> appends its no-op entry or a vote arrives. A crash loses everything but the stores.
\<close>

inductive node_step ::
    "'l LogStore \<Rightarrow> 's StableStore \<Rightarrow> ('f \<Rightarrow> string \<Rightarrow> ('f \<times> 'r option) option) \<Rightarrow>
     ('l, 's, 'f, 'r) RaftNode \<Rightarrow> ('l, 's, 'f, 'r) RaftNode \<Rightarrow> bool"
  for lops sops fapply where
  node_local: "local_step lops fapply r r' \<Longrightarrow> node_step lops sops fapply r r'"
| node_noop: "node_step lops sops fapply r (appendNoOp lops r)"
| node_timeout: "state r = Follower \<Longrightarrow> node_step lops sops fapply r (follower_timeout r)"
| node_elect: "candidate_start lops sops r = (r', req, targets, votes) \<Longrightarrow>
    node_step lops sops fapply r r'"
| node_vote: "candidate_vote sops r votes vote = (r', votes', done) \<Longrightarrow> rvr_Term vote < 2 ^ 64 \<Longrightarrow>
    node_step lops sops fapply r r'"
| node_rpc: "handleRPC lops sops r rpc = Some (r', resp, reset) \<Longrightarrow> rpc_term rpc < 2 ^ 64 \<Longrightarrow>
    node_step lops sops fapply r r'"
| node_reply: "replicate_response lops sops r live peer ents resp = (r', peer') \<Longrightarrow>
    aer_Term resp < 2 ^ 64 \<Longrightarrow> node_step lops sops fapply r r'"
| node_shutdown: "node_step lops sops fapply r (Shutdown r)"
| node_restart: "NewRaftNode sops (config r) (logStore r) (stableStore r) f = Ok r' \<Longrightarrow>
    node_step lops sops fapply r r'"

section \<open>What the functions keep\<close>

text \<open>The part of a node that elections are about.\<close>

definition same_vote :: "('l, 's, 'f, 'r) RaftNode \<Rightarrow> ('l, 's, 'f, 'r) RaftNode \<Rightarrow> bool" where
  "same_vote r r' \<longleftrightarrow> currentTerm r' = currentTerm r \<and> votedFor r' = votedFor r \<and>
     stableStore r' = stableStore r \<and> state r' = state r \<and> config r' = config r"

lemma same_vote_refl [simp]: "same_vote r r"
  by (simp add: same_vote_def)

lemma same_vote_trans: "same_vote a b \<Longrightarrow> same_vote b c \<Longrightarrow> same_vote a c"
  by (simp add: same_vote_def)

lemma same_vote_respond_at [simp]: "same_vote r (respond_at f e x r)"
  by (simp add: same_vote_def respond_at_def)

lemma same_vote_trigger [simp]: "same_vote r (triggerReplication r) "
  by (simp add: same_vote_def triggerReplication_def)

lemma same_vote_fail_all: "same_vote r (fail_all err r)"
proof -
  have "same_vote r (foldl (\<lambda>r (idx, f). (respond_at f (Some err) None r)
          \<lparr>pendingFutures := AList.delete idx (pendingFutures r)\<rparr>) r xs)" for xs
    by (induction xs arbitrary: r) (auto simp: same_vote_def respond_at_def)
  then show ?thesis by (simp add: fail_all_def)
qed

lemma same_vote_apply_one: "apply_one lops fapply i r = Some r' \<Longrightarrow> same_vote r r'"
  by (auto simp: apply_one_def respond_at_def same_vote_def Let_def split: option.splits prod.splits)

lemma same_vote_apply_range: "apply_range lops fapply is r = Some r' \<Longrightarrow> same_vote r r'"
proof (induction "is" arbitrary: r)
  case (Cons i "is")
  then obtain r1 where "apply_one lops fapply i r = Some r1" "apply_range lops fapply is r1 = Some r'"
    by (auto split: bind_splits)
  with Cons.IH same_vote_apply_one same_vote_trans show ?case by blast
qed simp

lemma same_vote_applyCommitted: "applyCommitted lops fapply r = Some r' \<Longrightarrow> same_vote r r'"
  by (auto simp: applyCommitted_def split: if_splits intro: same_vote_apply_range)

lemma local_step_same_vote: "local_step lops fapply r r' \<Longrightarrow> same_vote r r'"
proof (induction rule: local_step.induct)
  case (local_Apply r data choice r' f)
  then show ?case
    by (auto simp: raft_Apply_def same_vote_def respond_at_def Let_def split: if_splits apply_choice.splits)
next
  case (local_deadline r f choice r')
  then show ?case
    by (auto simp: apply_deadline_def same_vote_def respond_at_def split: if_splits apply_choice.splits)
next
  case (local_request r req reqs)
  then show ?case
    by (auto simp: handleApplyRequest_def same_vote_def respond_at_def triggerReplication_def Let_def
        split: prod.splits option.splits)
next
  case (local_init r)
  then show ?case by (simp add: initLeader_def same_vote_def Let_def)
next
  case (local_fail r)
  then show ?case by (simp add: failPendingFutures_def same_vote_fail_all)
next
  case (local_commit r r')
  from same_vote_applyCommitted [OF this] show ?case by (simp add: same_vote_def)
qed

lemma same_vote_noop: "same_vote r (appendNoOp lops r)"
  by (auto simp: appendNoOp_def same_vote_def triggerReplication_def Let_def split: prod.splits option.splits)

lemma same_vote_advance: "same_vote r (advanceCommitIndex lops r)"
  by (simp add: advanceCommitIndex_def same_vote_def notifyCommit_def Let_def split: option.splits)

lemma replicate_response_cases:
  assumes "replicate_response lops sops r live peer ents resp = (r', peer')"
  obtains "same_vote r r'" | "r' = stepDown sops r (aer_Term resp)" "currentTerm r < aer_Term resp"
proof -
  have pp: "same_vote r (put_peer live p r)" for p by (simp add: put_peer_def same_vote_def)
  then have ap: "same_vote r (advanceCommitIndex lops (put_peer live p r))" for p
    using same_vote_advance same_vote_trans by blast
  show thesis
  proof (cases "currentTerm r < aer_Term resp")
    case True
    with assms that(2) show thesis by (simp add: replicate_response_def)
  next
    case False
    have "same_vote r (fst (replicate_response lops sops r live peer ents resp))"
    proof (cases "aer_Success resp")
      case True
      with False show ?thesis unfolding replicate_response_def Let_def by (simp add: ap)
    next
      case False
      with \<open>\<not> currentTerm r < aer_Term resp\<close> show ?thesis
        unfolding replicate_response_def Let_def by (simp add: pp)
    qed
    with assms that(1) show thesis by simp
  qed
qed

lemma stepDown_simps [simp]:
  "currentTerm (stepDown sops r t) = t" "votedFor (stepDown sops r t) = []"
  "state (stepDown sops r t) = Follower" "config (stepDown sops r t) = config r"
  "logStore (stepDown sops r t) = logStore r"
  by (simp_all add: stepDown_def persistState_def Let_def)

lemma persistState_simps [simp]:
  "currentTerm (persistState sops r) = currentTerm r" "votedFor (persistState sops r) = votedFor r"
  "state (persistState sops r) = state r" "config (persistState sops r) = config r"
  "logStore (persistState sops r) = logStore r"
  by (simp_all add: persistState_def Let_def)

text \<open>\<^verbatim>\<open>handleRequestVote\<close>, case by case.\<close>

lemma handleRequestVote_cases:
  assumes "handleRequestVote lops sops r req = (r', resp, reset)"
  obtains (stale) "rv_Term req < currentTerm r" "r' = r" "\<not> rvr_VoteGranted resp"
  | (refused) "currentTerm r \<le> rv_Term req" "\<not> rvr_VoteGranted resp"
      "r' = (if currentTerm r < rv_Term req then stepDown sops r (rv_Term req) else r)"
  | (granted) r1 where "currentTerm r \<le> rv_Term req" "rvr_VoteGranted resp"
      "r1 = (if currentTerm r < rv_Term req then stepDown sops r (rv_Term req) else r)"
      "votedFor r1 = [] \<or> votedFor r1 = rv_CandidateID req"
      "r' = persistState sops (r1\<lparr>votedFor := rv_CandidateID req\<rparr>)"
      "isLogUpToDate (rv_LastLogTerm req) (rv_LastLogIndex req) (snd (lastLogInfo lops r1)) (fst (lastLogInfo lops r1))"
proof (cases "rv_Term req < currentTerm r")
  case True
  with assms have "(r, \<lparr>rvr_Term = currentTerm r, rvr_VoteGranted = False\<rparr>, False) = (r', resp, reset)"
    by (simp only: handleRequestVote_def if_True)
  then have "r' = r" "\<not> rvr_VoteGranted resp" by auto
  with True show thesis by (rule stale)
next
  case False
  define r1 where "r1 = (if currentTerm r < rv_Term req then stepDown sops r (rv_Term req) else r)"
  have eq: "handleRequestVote lops sops r req =
      (if votedFor r1 \<noteq> [] \<and> votedFor r1 \<noteq> rv_CandidateID req
       then (r1, \<lparr>rvr_Term = currentTerm r1, rvr_VoteGranted = False\<rparr>, False)
       else case lastLogInfo lops r1 of (i, t) \<Rightarrow>
         if \<not> isLogUpToDate (rv_LastLogTerm req) (rv_LastLogIndex req) t i
         then (r1, \<lparr>rvr_Term = currentTerm r1, rvr_VoteGranted = False\<rparr>, False)
         else (persistState sops (r1\<lparr>votedFor := rv_CandidateID req\<rparr>),
               \<lparr>rvr_Term = currentTerm r1, rvr_VoteGranted = True\<rparr>, True))"
    unfolding handleRequestVote_def r1_def Let_def using False by (simp only: if_False)
  show thesis
  proof (cases "rvr_VoteGranted resp")
    case True
    obtain i t where ll: "lastLogInfo lops r1 = (i, t)" by fastforce
    note facts = assms [unfolded eq ll prod.case]
    have ok: "\<not> (votedFor r1 \<noteq> [] \<and> votedFor r1 \<noteq> rv_CandidateID req)"
      "isLogUpToDate (rv_LastLogTerm req) (rv_LastLogIndex req) t i"
      using facts True by (auto split: if_splits)
    with facts have r': "r' = persistState sops (r1\<lparr>votedFor := rv_CandidateID req\<rparr>)" by simp
    show thesis
      by (rule granted [OF _ True r1_def _ r']) (use False ok ll in auto)
  next
    case refuse: False
    obtain i t where ll: "lastLogInfo lops r1 = (i, t)" by fastforce
    have "r' = r1" using assms [unfolded eq ll prod.case] refuse by (auto split: if_splits)
    with False refuse refused r1_def show thesis by simp
  qed
qed

lemma handleAppendEntries_vote:
  assumes "handleAppendEntries lops sops r req = Some (r', resp, reset)"
  obtains (stale) "ae_Term req < currentTerm r" "r' = r"
  | (accepted) "currentTerm r \<le> ae_Term req" "currentTerm r' = ae_Term req" "state r' = Follower"
      "config r' = config r" "votedFor r' = votedFor (accept_leader sops r req)"
      "stableStore r' = stableStore (accept_leader sops r req)"
proof (cases "ae_Term req < currentTerm r")
  case True
  with assms have "Some (r, \<lparr>aer_Term = currentTerm r, aer_Success = False, aer_ConflictTerm = 0,
      aer_ConflictIndex = 0\<rparr>, False) = Some (r', resp, reset)"
    by (simp only: handleAppendEntries_def if_True)
  with True show thesis by (intro stale) simp_all
next
  case False
  have fc: "same_vote r (follower_commit lops r q)" for r :: "('a, 'b, 'c, 'd) RaftNode" and q
    by (simp add: follower_commit_def notifyCommit_def same_vote_def Let_def)
  have "\<exists>ls. same_vote ((accept_leader sops r req)\<lparr>logStore := ls\<rparr>) r' \<or> r' = accept_leader sops r req"
  proof (cases "prev_conflict lops (logStore r) req")
    case None
    let ?r = "accept_leader sops r req"
    note m = assms [unfolded handleAppendEntries_def Let_def]
    obtain ls ok where a: "append_entries lops (logStore r) (ae_Entries req) = Some (ls, ok)"
      using m False None by (cases "append_entries lops (logStore r) (ae_Entries req)") auto
    have "r' = ?r\<lparr>logStore := ls\<rparr> \<or> r' = follower_commit lops (?r\<lparr>logStore := ls\<rparr>) req"
      using m False None a by (cases ok) simp_all
    then show ?thesis using fc [of "?r\<lparr>logStore := ls\<rparr>" req] same_vote_refl by metis
  next
    case (Some p)
    obtain t c where "p = (t, c)" by (cases p)
    with Some False assms show ?thesis by (auto simp: handleAppendEntries_def Let_def)
  qed
  with False accepted show thesis by (auto simp: same_vote_def)
qed

section \<open>Elections\<close>

lemma becomeLeader_simps [simp]:
  "currentTerm (becomeLeader r) = currentTerm r" "votedFor (becomeLeader r) = votedFor r"
  "state (becomeLeader r) = Leader" "config (becomeLeader r) = config r"
  "stableStore (becomeLeader r) = stableStore r" "logStore (becomeLeader r) = logStore r"
  by (simp_all add: becomeLeader_def)

lemma candidate_start_cases:
  assumes "candidate_start lops sops r = (r', req, targets, votes)"
  defines "r1 \<equiv> persistState sops (r\<lparr>currentTerm := u64 (currentTerm r + 1), votedFor := ServerID (config r)\<rparr>)"
  shows "r' = (if quorum r = 1 then becomeLeader r1 else r1)" "votes = 1"
    "rv_Term req = u64 (currentTerm r + 1)" "rv_CandidateID req = ServerID (config r)"
proof -
  obtain i t where ll: "lastLogInfo lops r1 = (i, t)" by fastforce
  define rq where "rq = \<lparr>rv_Term = u64 (currentTerm r + 1), rv_CandidateID = ServerID (config r),
    rv_LastLogIndex = i, rv_LastLogTerm = t\<rparr>"
  have "currentTerm r1 = u64 (currentTerm r + 1)" by (simp add: r1_def)
  then have "startElection lops sops r =
      (r1, rq, map Address (filter (\<lambda>p. ID p \<noteq> ServerID (config r)) (Peers (config r))))"
    by (simp only: startElection_def Let_def r1_def [symmetric] ll prod.case rq_def)
  moreover have "quorum r1 \<le> 1 \<longleftrightarrow> quorum r = 1" by (auto simp: quorum_def r1_def)
  ultimately have "r' = (if quorum r = 1 then becomeLeader r1 else r1) \<and> votes = 1 \<and> req = rq"
    using assms(1) by (simp add: candidate_start_def split: if_splits)
  then show "r' = (if quorum r = 1 then becomeLeader r1 else r1)" "votes = 1"
    "rv_Term req = u64 (currentTerm r + 1)" "rv_CandidateID req = ServerID (config r)"
    by (simp_all add: rq_def)
qed

lemma candidate_vote_cases:
  assumes "candidate_vote sops r votes vote = (r', votes', done)"
  obtains (newer) "currentTerm r < rvr_Term vote" "r' = stepDown sops r (rvr_Term vote)"
  | (refused) "rvr_Term vote \<le> currentTerm r" "\<not> rvr_VoteGranted vote" "r' = r" "votes' = votes"
  | (counted) "rvr_Term vote \<le> currentTerm r" "rvr_VoteGranted vote" "votes' = votes + 1"
      "votes' < quorum r" "r' = r"
  | (won) "rvr_Term vote \<le> currentTerm r" "rvr_VoteGranted vote" "votes' = votes + 1"
      "quorum r \<le> votes'" "r' = becomeLeader r"
proof -
  consider "currentTerm r < rvr_Term vote" | "rvr_Term vote \<le> currentTerm r" "\<not> rvr_VoteGranted vote"
    | "rvr_Term vote \<le> currentTerm r" "rvr_VoteGranted vote" "votes + 1 < quorum r"
    | "rvr_Term vote \<le> currentTerm r" "rvr_VoteGranted vote" "quorum r \<le> votes + 1"
    by linarith
  then show thesis
  proof cases
    case 1
    with assms have "r' = stepDown sops r (rvr_Term vote)" by (simp add: candidate_vote_def)
    with 1 show thesis by (rule newer)
  next
    case 2
    with assms have "r' = r" "votes' = votes" by (simp_all add: candidate_vote_def)
    with 2 show thesis by (rule refused)
  next
    case 3
    with assms have "votes' = votes + 1" "votes' < quorum r" "r' = r" by (auto simp: candidate_vote_def)
    with 3(1,2) show thesis by (rule counted)
  next
    case 4
    with assms have "votes' = votes + 1" "quorum r \<le> votes'" "r' = becomeLeader r" by (auto simp: candidate_vote_def)
    with 4(1,2) show thesis by (rule won)
  qed
qed

lemma handleRPC_cases:
  assumes "handleRPC lops sops r rpc = Some (r', resp, reset)"
  obtains (append) req aer where "handleAppendEntries lops sops r req = Some (r', aer, reset)"
      "rpc = AppendEntriesRPC req"
  | (vote) req rvr where "handleRequestVote lops sops r req = (r', rvr, reset)"
      "rpc = RequestVoteRPC req"
  | (other) "r' = r"
proof (cases rpc)
  case (AppendEntriesRPC req)
  with assms append show thesis by (auto simp: handleRPC_def)
next
  case (RequestVoteRPC req)
  obtain r2 resp2 reset2 where h: "handleRequestVote lops sops r req = (r2, resp2, reset2)"
    by (cases "handleRequestVote lops sops r req")
  with RequestVoteRPC assms have "r2 = r'" "reset2 = reset" by (auto simp: handleRPC_def)
  with h vote RequestVoteRPC show thesis by blast
next
  case OtherRPC
  with assms other show thesis by (simp add: handleRPC_def)
qed

lemma accept_leader_vote:
  "accept_leader sops r req =
     (let r1 = (if ae_Term req > currentTerm r \<or> state r \<noteq> Follower then stepDown sops r (ae_Term req) else r)
      in r1\<lparr>state := Follower, leaderID := ae_LeaderID req,
            leaderAddr := find_addr (Peers (config r)) (ae_LeaderID req) (leaderAddr r1)\<rparr>)"
  by (simp add: accept_leader_def Let_def)

lemma NewRaftNode_vote:
  assumes "NewRaftNode sops cfg ls ss f = Ok r'"
  shows "GetUint64 sops ss KeyCurrentTerm = Ok (currentTerm r')"
    "Get sops ss KeyVotedFor = (votedFor r', None)" "stableStore r' = ss" "logStore r' = ls"
    "state r' = Follower" "config r' = cfg" "commitIndex r' = 0" "lastApplied r' = 0" "fsm r' = f"
  using assms by (auto simp: NewRaftNode_def restoreState_def split: option.splits go_result.splits prod.splits)

section \<open>Persistence\<close>

text \<open>The stable store holds the term and the vote in memory.\<close>

definition persisted :: "'s StableStore \<Rightarrow> ('l, 's, 'f, 'r) RaftNode \<Rightarrow> bool" where
  "persisted sops r \<longleftrightarrow>
     GetUint64 sops (stableStore r) KeyCurrentTerm = Ok (currentTerm r) \<and>
     Get sops (stableStore r) KeyVotedFor = (votedFor r, None)"

lemma persisted_same_vote: "same_vote r r' \<Longrightarrow> persisted sops r' \<longleftrightarrow> persisted sops r"
  by (simp add: persisted_def same_vote_def)

lemma persisted_update:
  "persisted sops (r\<lparr>state := st, leaderID := i, leaderAddr := a\<rparr>) \<longleftrightarrow> persisted sops r"
  by (simp add: persisted_def)

context stable_store
begin

lemma persisted_persistState: "currentTerm r < 2 ^ 64 \<Longrightarrow> persisted sops (persistState sops r)"
proof -
  assume "currentTerm r < 2 ^ 64"
  moreover have "KeyCurrentTerm \<noteq> KeyVotedFor" by (simp add: KeyCurrentTerm_def KeyVotedFor_def)
  ultimately show ?thesis
    by (simp add: persisted_def persistState_def Let_def Get_Set GetUint64_Set GetUint64_SetUint64)
qed

lemma persisted_stepDown: "t < 2 ^ 64 \<Longrightarrow> persisted sops (stepDown sops r t)"
  unfolding stepDown_def by (rule persisted_persistState) simp

lemma persisted_handleRequestVote:
  assumes "handleRequestVote lops sops r req = (r', resp, reset)" and "persisted sops r"
    and "currentTerm r < 2 ^ 64" and "rv_Term req < 2 ^ 64"
  shows "persisted sops r'"
  using assms(1)
proof (cases rule: handleRequestVote_cases)
  case (granted r1)
  then show ?thesis using assms(3,4) by (auto intro!: persisted_persistState)
qed (use assms persisted_stepDown in auto)

lemma persisted_accept_leader:
  assumes "persisted sops r" and "ae_Term req < 2 ^ 64"
  shows "persisted sops (accept_leader sops r req)"
  using assms persisted_stepDown [OF assms(2), of r]
  by (simp add: accept_leader_vote Let_def persisted_update)

lemma persisted_handleAppendEntries:
  assumes "handleAppendEntries lops sops r req = Some (r', resp, reset)" and "persisted sops r"
    and "ae_Term req < 2 ^ 64"
  shows "persisted sops r'"
  using assms(1)
proof (cases rule: handleAppendEntries_vote)
  case accepted
  with persisted_accept_leader [OF assms(2,3)] show ?thesis by (simp add: persisted_def)
qed (use assms in simp)

lemma persisted_candidate_start:
  assumes "candidate_start lops sops r = (r', req, targets, votes)"
  shows "persisted sops r'"
proof -
  have "persisted sops (persistState sops (r\<lparr>currentTerm := u64 (currentTerm r + 1), votedFor := ServerID (config r)\<rparr>))"
    by (rule persisted_persistState) (simp add: u64_def)
  with candidate_start_cases(1) [OF assms] show ?thesis by (auto simp: persisted_def)
qed

text \<open>Every step of a node keeps the store in step with memory, and terms never go back.\<close>

definition node_ok :: "('l, 's, 'f, 'r) RaftNode \<Rightarrow> bool" where
  "node_ok r \<longleftrightarrow> persisted sops r \<and> currentTerm r < 2 ^ 64"

lemma node_ok_step:
  assumes "node_step lops sops fapply r r'" and "node_ok r"
  shows "node_ok r'"
  using assms
proof (induction rule: node_step.induct)
  case (node_local r r')
  with local_step_same_vote [OF node_local(1)] show ?case
    by (simp add: node_ok_def persisted_same_vote) (simp add: same_vote_def)
next
  case (node_noop r)
  with same_vote_noop [of r lops] show ?case
    by (simp add: node_ok_def persisted_same_vote) (simp add: same_vote_def)
next
  case (node_timeout r)
  then show ?case by (simp add: node_ok_def persisted_def follower_timeout_def)
next
  case (node_elect r r' req targets votes)
  with persisted_candidate_start [OF node_elect(1)] candidate_start_cases(1) [OF node_elect(1)] show ?case
    by (auto simp: node_ok_def u64_def)
next
  case (node_vote r votes vote r' votes' d)
  from node_vote(1) show ?case
    by (cases rule: candidate_vote_cases)
      (use node_vote persisted_stepDown in \<open>auto simp: node_ok_def persisted_def\<close>)
next
  case (node_rpc r rpc r' resp reset)
  from node_rpc(1) show ?case
  proof (cases rule: handleRPC_cases)
    case (append req aer)
    have t: "ae_Term req < 2 ^ 64" using node_rpc(2) append(2) by simp
    from append(1) have "currentTerm r' < 2 ^ 64"
      by (cases rule: handleAppendEntries_vote) (use node_rpc t in \<open>auto simp: node_ok_def\<close>)
    with persisted_handleAppendEntries [OF append(1) _ t] node_rpc show ?thesis by (simp add: node_ok_def)
  next
    case (vote req rvr)
    have t: "rv_Term req < 2 ^ 64" using node_rpc(2) vote(2) by simp
    from vote(1) have "currentTerm r' < 2 ^ 64"
      by (cases rule: handleRequestVote_cases) (use node_rpc t in \<open>auto simp: node_ok_def\<close>)
    with persisted_handleRequestVote [OF vote(1) _ _ t] node_rpc show ?thesis by (simp add: node_ok_def)
  qed (use node_rpc in simp)
next
  case (node_reply r live peer ents resp r' peer')
  from node_reply(1) show ?case
  proof (cases rule: replicate_response_cases)
    case 1
    with node_reply show ?thesis by (simp add: node_ok_def persisted_same_vote) (simp add: same_vote_def)
  next
    case 2
    with node_reply persisted_stepDown show ?thesis by (simp add: node_ok_def)
  qed
next
  case (node_shutdown r)
  have "same_vote (r\<lparr>shutdownCh := True, state := Follower\<rparr>) (fail_all ErrShutdown (r\<lparr>shutdownCh := True, state := Follower\<rparr>))"
    by (rule same_vote_fail_all)
  with node_shutdown show ?case
    by (auto simp: Shutdown_def node_ok_def persisted_def same_vote_def)
next
  case (node_restart r f r')
  note n = NewRaftNode_vote [OF node_restart(1)]
  with node_restart(2) show ?case by (auto simp: node_ok_def persisted_def)
qed

lemma node_term_mono:
  assumes "node_step lops sops fapply r r'" and "node_ok r" and "Suc (currentTerm r) < 2 ^ 64"
  shows "currentTerm r \<le> currentTerm r'"
  using assms
proof (induction rule: node_step.induct)
  case (node_local r r')
  with local_step_same_vote [OF node_local(1)] show ?case by (simp add: same_vote_def)
next
  case (node_noop r)
  with same_vote_noop [of r lops] show ?case by (simp add: same_vote_def)
next
  case (node_timeout r)
  then show ?case by (simp add: follower_timeout_def)
next
  case (node_elect r r' req targets votes)
  have "u64 (currentTerm r + 1) = Suc (currentTerm r)" using node_elect(3) by (simp add: u64_id)
  with candidate_start_cases(1) [OF node_elect(1)] show ?case by simp
next
  case (node_vote r votes vote r' votes' d)
  from node_vote(1) show ?case by (cases rule: candidate_vote_cases) auto
next
  case (node_rpc r rpc r' resp reset)
  from node_rpc(1) show ?case
  proof (cases rule: handleRPC_cases)
    case (append req aer)
    from append(1) show ?thesis by (cases rule: handleAppendEntries_vote) auto
  next
    case (vote req rvr)
    from vote(1) show ?thesis by (cases rule: handleRequestVote_cases) auto
  qed simp
next
  case (node_reply r live peer ents resp r' peer')
  from node_reply(1) show ?case by (cases rule: replicate_response_cases) (auto simp: same_vote_def)
next
  case (node_shutdown r)
  have "same_vote (r\<lparr>shutdownCh := True, state := Follower\<rparr>) (fail_all ErrShutdown (r\<lparr>shutdownCh := True, state := Follower\<rparr>))"
    by (rule same_vote_fail_all)
  then show ?case by (auto simp: Shutdown_def same_vote_def)
next
  case (node_restart r f r')
  from NewRaftNode_vote(1) [OF node_restart(1)] node_restart(2) show ?case
    by (simp add: node_ok_def persisted_def)
qed

lemma follower_vote_final:
  assumes "node_step lops sops fapply r r'" and "node_ok r" and "Suc (currentTerm r) < 2 ^ 64"
    and "state r = Follower" and "votedFor r \<noteq> []" and "currentTerm r' = currentTerm r"
  shows "votedFor r' = votedFor r"
  using assms
proof (induction rule: node_step.induct)
  case (node_local r r')
  with local_step_same_vote [OF node_local(1)] show ?case by (simp add: same_vote_def)
next
  case (node_noop r)
  with same_vote_noop [of r lops] show ?case by (simp add: same_vote_def)
next
  case (node_timeout r)
  then show ?case by (simp add: follower_timeout_def)
next
  case (node_elect r r' req targets votes)
  have "u64 (currentTerm r + 1) = Suc (currentTerm r)" using node_elect(3) by (simp add: u64_id)
  with candidate_start_cases(1) [OF node_elect(1)] node_elect show ?case by (simp split: if_splits)
next
  case (node_vote r votes vote r' votes' d)
  from node_vote(1) show ?case by (cases rule: candidate_vote_cases) (use node_vote in auto)
next
  case (node_rpc r rpc r' resp reset)
  from node_rpc(1) show ?case
  proof (cases rule: handleRPC_cases)
    case (append req aer)
    from append(1) show ?thesis
      by (cases rule: handleAppendEntries_vote) (use node_rpc in \<open>auto simp: accept_leader_vote Let_def\<close>)
  next
    case (vote req rvr)
    from vote(1) show ?thesis
      by (cases rule: handleRequestVote_cases) (use node_rpc(4-7) in \<open>auto split: if_splits\<close>)
  qed simp
next
  case (node_reply r live peer ents resp r' peer')
  from node_reply(1) show ?case
    by (cases rule: replicate_response_cases) (use node_reply in \<open>auto simp: same_vote_def\<close>)
next
  case (node_shutdown r)
  have "same_vote (r\<lparr>shutdownCh := True, state := Follower\<rparr>) (fail_all ErrShutdown (r\<lparr>shutdownCh := True, state := Follower\<rparr>))"
    by (rule same_vote_fail_all)
  then show ?case by (auto simp: Shutdown_def same_vote_def)
next
  case (node_restart r f r')
  from NewRaftNode_vote(2) [OF node_restart(1)] node_restart(2) show ?case
    by (simp add: node_ok_def persisted_def)
qed

lemma node_ok_reachable:
  "(node_step lops sops fapply)\<^sup>*\<^sup>* r r' \<Longrightarrow> node_ok r \<Longrightarrow> node_ok r'"
  by (induction rule: rtranclp_induct) (auto intro: node_ok_step)

lemma restart_restores:
  assumes "node_ok r" and "validate cfg = None"
  shows "\<exists>r'. NewRaftNode sops cfg (logStore r) (stableStore r) f = Ok r' \<and>
           currentTerm r' = currentTerm r \<and> votedFor r' = votedFor r \<and>
           logStore r' = logStore r \<and> state r' = Follower"
  using assms by (simp add: NewRaftNode_def restoreState_def node_ok_def persisted_def)

end

section \<open>Properties\<close>

lemma fresh_node_ok:
  assumes "NewRaftNode inmem_stable cfg ls NewInmemStableStore f = Ok r"
  shows "inmem_kv.node_ok r" "validate cfg = None"
proof -
  note n = NewRaftNode_vote [OF assms]
  have "GetUint64 inmem_stable NewInmemStableStore KeyCurrentTerm = Ok 0"
    by (simp add: inmem_stable_def inmem_GetUint64_def inmem_Get_def NewInmemStableStore_def)
  with n show "inmem_kv.node_ok r" by (simp add: inmem_kv.node_ok_def persisted_def)
  show "validate cfg = None" using assms by (simp add: NewRaftNode_def split: option.splits)
qed

definition fresh_node :: "string \<Rightarrow> (InmemLogStore, InmemStableStore, string list, nat) RaftNode" where
  "fresh_node me = (ex_node me [] 0 Follower)"

lemma fresh_node_new:
  "me \<in> {''a'', ''b'', ''c''} \<Longrightarrow>
   NewRaftNode inmem_stable (ex_config me) (mk_log []) NewInmemStableStore [] = Ok (fresh_node me)"
  by (auto simp: NewRaftNode_def restoreState_def validate_def ex_config_def three_peers_def DefaultConfig_def
      millisecond_def inmem_stable_def inmem_GetUint64_def inmem_Get_def NewInmemStableStore_def fresh_node_def
      ex_node_def)

text \<open>
  A crash loses no vote. From a fresh start, after any sequence of steps of the node
  (elections, RPCs, stepping down, shutdowns, earlier crashes), restarting it from its stores
  succeeds and gives a follower with exactly the term, the vote and the log it had: the node
  persists every change before it answers.
\<close>

theorem restart_keeps_term_and_vote:
  assumes "NewRaftNode inmem_stable cfg ls NewInmemStableStore f0 = Ok r0"
    and "(node_step inmem_log inmem_stable fapply)\<^sup>*\<^sup>* r0 r"
  shows "\<exists>r'. NewRaftNode inmem_stable cfg (logStore r) (stableStore r) f = Ok r' \<and>
           currentTerm r' = currentTerm r \<and> votedFor r' = votedFor r \<and>
           logStore r' = logStore r \<and> state r' = Follower"
  using inmem_kv.restart_restores [OF inmem_kv.node_ok_reachable [OF assms(2) fresh_node_ok(1) [OF assms(1)]]
      fresh_node_ok(2) [OF assms(1)]] .

definition elected_node :: "(InmemLogStore, InmemStableStore, string list, nat) RaftNode" where
  "elected_node = fst (candidate_start inmem_log inmem_stable (follower_timeout (fresh_node ''a'')))"

theorem restart_keeps_term_and_vote_witness:
  "\<exists>r'. NewRaftNode inmem_stable (ex_config ''a'') (logStore elected_node) (stableStore elected_node) [] = Ok r' \<and>
     currentTerm r' = currentTerm elected_node \<and> votedFor r' = votedFor elected_node \<and>
     logStore r' = logStore elected_node \<and> state r' = Follower"
proof (rule restart_keeps_term_and_vote)
  show "NewRaftNode inmem_stable (ex_config ''a'') (mk_log []) NewInmemStableStore [] = Ok (fresh_node ''a'')"
    by (rule fresh_node_new) simp
  have "node_step inmem_log inmem_stable recorder (fresh_node ''a'') (follower_timeout (fresh_node ''a''))"
    by (rule node_timeout) (simp add: fresh_node_def)
  moreover obtain req targets votes where
    "candidate_start inmem_log inmem_stable (follower_timeout (fresh_node ''a'')) = (elected_node, req, targets, votes)"
    by (metis elected_node_def prod.collapse)
  then have "node_step inmem_log inmem_stable recorder (follower_timeout (fresh_node ''a'')) elected_node"
    by (rule node_elect)
  ultimately show "(node_step inmem_log inmem_stable recorder)\<^sup>*\<^sup>* (fresh_node ''a'') elected_node"
    by (meson rtranclp.rtrancl_into_rtrancl rtranclp.rtrancl_refl)
qed

text \<open>
  Terms never go back, and a follower's vote is final in its term: in every step of a node
  whose store is in step with its memory, the term does not decrease, and if it stays, a follower
  that has voted keeps its vote. (A term of \<open>2^64 - 1\<close>, which would wrap, is excluded.)
\<close>

theorem terms_and_votes_monotone:
  assumes "node_step inmem_log inmem_stable fapply r r'"
    and "persisted inmem_stable r" and "Suc (currentTerm r) < 2 ^ 64"
  shows "currentTerm r \<le> currentTerm r' \<and>
         (currentTerm r' = currentTerm r \<and> state r = Follower \<and> votedFor r \<noteq> [] \<longrightarrow> votedFor r' = votedFor r)"
proof -
  from assms(2,3) have ok: "inmem_kv.node_ok r" by (simp add: inmem_kv.node_ok_def)
  show ?thesis
    using inmem_kv.node_term_mono [OF assms(1) ok assms(3)] inmem_kv.follower_vote_final [OF assms(1) ok assms(3)]
    by blast
qed

definition voted_node :: "(InmemLogStore, InmemStableStore, string list, nat) RaftNode" where
  "voted_node = persistState inmem_stable ((ex_node ''b'' [] 3 Follower)\<lparr>votedFor := ''a''\<rparr>)"

theorem terms_and_votes_monotone_witness:
  "currentTerm voted_node \<le> currentTerm (Shutdown voted_node) \<and> votedFor (Shutdown voted_node) = votedFor voted_node"
proof -
  have "persisted inmem_stable voted_node" unfolding voted_node_def
    by (rule inmem_kv.persisted_persistState) simp
  moreover have "Suc (currentTerm voted_node) < 2 ^ 64" "state voted_node = Follower" "votedFor voted_node \<noteq> []"
    "currentTerm (Shutdown voted_node) = currentTerm voted_node"
    by (simp_all add: voted_node_def Shutdown_def fail_all_def ex_node_def persistState_def Let_def)
  ultimately show ?thesis
    using terms_and_votes_monotone [OF node_shutdown [of inmem_log inmem_stable recorder voted_node]] by blast
qed

text \<open>
  C34. A candidate can become leader of a term it never asked votes for. \<^verbatim>\<open>runCandidate\<close> tests
  the role before it waits and not when a vote arrives. A candidate of term 5 waits; the answer of
  a replicator left over from an earlier leadership reports term 7 and steps the node down; then a
  vote granted in term 5 arrives, reaches the quorum, and the node is leader in term 7.
\<close>

theorem stale_vote_elects_in_new_term:
  "\<exists>r0 r1 r2 peer' votes' d.
     state r0 = Candidate \<and> currentTerm r0 = 5 \<and> config r0 = ex_config ''a'' \<and>
     replicate_response inmem_log inmem_stable (r0 :: (InmemLogStore, InmemStableStore, string list, nat) RaftNode)
       False (ex_peer ''b'' 1 0) []
       \<lparr>aer_Term = 7, aer_Success = False, aer_ConflictTerm = 0, aer_ConflictIndex = 0\<rparr> = (r1, peer') \<and>
     state r1 = Follower \<and>
     candidate_vote inmem_stable r1 1 \<lparr>rvr_Term = 5, rvr_VoteGranted = True\<rparr> = (r2, votes', d) \<and>
     state r2 = Leader \<and> currentTerm r2 = 7 \<and> votedFor r2 = []"
proof -
  let ?r0 = "ex_node ''a'' [] 5 Candidate"
  let ?r1 = "stepDown inmem_stable ?r0 7"
  have "replicate_response inmem_log inmem_stable ?r0 False (ex_peer ''b'' 1 0) []
      \<lparr>aer_Term = 7, aer_Success = False, aer_ConflictTerm = 0, aer_ConflictIndex = 0\<rparr> =
      (?r1, ex_peer ''b'' 1 0)" by (simp add: replicate_response_def)
  moreover have "quorum ?r1 = 2" by (simp add: quorum_def ex_config_def three_peers_def)
  then have "candidate_vote inmem_stable ?r1 1 \<lparr>rvr_Term = 5, rvr_VoteGranted = True\<rparr> = (becomeLeader ?r1, 2, True)"
    by (simp add: candidate_vote_def)
  ultimately show ?thesis
    by (intro exI [of _ ?r0] exI [of _ ?r1] exI [of _ "becomeLeader ?r1"] exI [of _ "ex_peer ''b'' 1 0"]
        exI [of _ 2] exI [of _ True]) simp
qed

text \<open>
  A server can vote twice in one term. A candidate that meets the leader of its own term
  is stepped down by \<^verbatim>\<open>stepDown\<close>, which clears \<^verbatim>\<open>votedFor\<close> although the term stays: after its
  vote for itself it grants a second vote, to another candidate, in the same term.
\<close>

theorem candidate_votes_twice:
  "\<exists>r0 r1 resp1 reset1 r2 reset2.
     votedFor (r0 :: (InmemLogStore, InmemStableStore, string list, nat) RaftNode) = ''a'' \<and> currentTerm r0 = 1 \<and>
     handleAppendEntries inmem_log inmem_stable r0
       \<lparr>ae_Term = 1, ae_LeaderID = ''b'', ae_PrevLogIndex = 0, ae_PrevLogTerm = 0, ae_Entries = [],
        ae_LeaderCommit = 0\<rparr> = Some (r1, resp1, reset1) \<and>
     handleRequestVote inmem_log inmem_stable r1
       \<lparr>rv_Term = 1, rv_CandidateID = ''c'', rv_LastLogIndex = 0, rv_LastLogTerm = 0\<rparr> =
       (r2, \<lparr>rvr_Term = 1, rvr_VoteGranted = True\<rparr>, reset2) \<and>
     votedFor r2 = ''c'' \<and> currentTerm r2 = 1"
proof -
  let ?r0 = "(ex_node ''a'' [] 1 Candidate)\<lparr>votedFor := ''a''\<rparr>"
  let ?req = "\<lparr>ae_Term = 1, ae_LeaderID = ''b'', ae_PrevLogIndex = 0, ae_PrevLogTerm = 0, ae_Entries = [],
        ae_LeaderCommit = 0\<rparr>"
  let ?r1 = "accept_leader inmem_stable ?r0 ?req"
  have "handleAppendEntries inmem_log inmem_stable ?r0 ?req =
      Some (?r1, \<lparr>aer_Term = 1, aer_Success = True, aer_ConflictTerm = 0, aer_ConflictIndex = 0\<rparr>, True)"
    by (simp add: handleAppendEntries_def prev_conflict_def follower_commit_def)
  moreover have v: "votedFor ?r1 = []" "currentTerm ?r1 = 1" "logStore ?r1 = mk_log []"
    by (simp_all add: accept_leader_vote Let_def)
  have "lastLogInfo inmem_log ?r1 = (0, 0)"
    by (simp add: lastLogInfo_def inmem_log_def inmem_LastIndex_def mk_log_def inmem_StoreLogs_def
        NewInmemLogStore_def)
  with v have "handleRequestVote inmem_log inmem_stable ?r1
       \<lparr>rv_Term = 1, rv_CandidateID = ''c'', rv_LastLogIndex = 0, rv_LastLogTerm = 0\<rparr> =
       (persistState inmem_stable (?r1\<lparr>votedFor := ''c''\<rparr>), \<lparr>rvr_Term = 1, rvr_VoteGranted = True\<rparr>, True)"
    by (simp add: handleRequestVote_def isLogUpToDate_def Let_def)
  ultimately show ?thesis using v
    by (intro exI [of _ ?r0] exI [of _ ?r1] exI [of _ "\<lparr>aer_Term = 1, aer_Success = True, aer_ConflictTerm = 0,
          aer_ConflictIndex = 0\<rparr>"] exI [of _ True] exI [of _ "persistState inmem_stable (?r1\<lparr>votedFor := ''c''\<rparr>)"])
      simp
qed

end
