(* ===== verification/Election_Spec.thy ===== *)
theory Election_Spec
  imports Raft_Types
begin

text \<open>
  The abstract election protocol that the cluster implements: servers with a term, a vote and a
  role, the votes cast so far and the leaders elected so far (both only grow). Votes are cast by
  a candidate for itself when it starts an election, and by a server for another one; a candidate
  that meets the leader of its own term gives its vote back and may cast another one. The theory
  shows that there is never more than one leader per term. The cluster theory shows that the
  nodes' handlers implement these steps.
\<close>

section \<open>The protocol\<close>

record Election =
  tm :: "string \<Rightarrow> nat"
  vt :: "string \<Rightarrow> string"
  st :: "string \<Rightarrow> ServerState"
  ballot :: "string \<Rightarrow> string set"
  cast :: "(nat \<times> string \<times> string) set"
  elected :: "(nat \<times> string) set"

definition majority :: "string set \<Rightarrow> nat" where
  "majority servers = card servers div 2 + 1"

definition crown :: "string set \<Rightarrow> string \<Rightarrow> Election \<Rightarrow> Election" where
  "crown servers n E =
     (if majority servers \<le> card (ballot E n)
      then E\<lparr>st := (st E)(n := Leader), elected := insert (tm E n, n) (elected E)\<rparr> else E)"

inductive estep :: "string set \<Rightarrow> Election \<Rightarrow> Election \<Rightarrow> bool" for servers where
  e_elect: "n \<in> servers \<Longrightarrow> st E n \<noteq> Leader \<Longrightarrow>
    estep servers E (crown servers n
      (E\<lparr>tm := (tm E)(n := tm E n + 1), vt := (vt E)(n := n), st := (st E)(n := Candidate),
         ballot := (ballot E)(n := {n}), cast := insert (tm E n + 1, n, n) (cast E)\<rparr>))"
| e_newer: "n \<in> servers \<Longrightarrow> tm E n < t \<Longrightarrow>
    estep servers E (E\<lparr>tm := (tm E)(n := t), vt := (vt E)(n := []), st := (st E)(n := Follower)\<rparr>)"
| e_quit: "n \<in> servers \<Longrightarrow> estep servers E (E\<lparr>st := (st E)(n := Follower)\<rparr>)"
| e_meet: "n \<in> servers \<Longrightarrow> (tm E n, l) \<in> elected E \<Longrightarrow> l \<noteq> n \<Longrightarrow> st E n \<noteq> Follower \<Longrightarrow>
    estep servers E (E\<lparr>vt := (vt E)(n := []), st := (st E)(n := Follower)\<rparr>)"
| e_grant: "n \<in> servers \<Longrightarrow> c \<in> servers \<Longrightarrow> c \<noteq> n \<Longrightarrow> vt E n = [] \<or> vt E n = c \<Longrightarrow>
    estep servers E (E\<lparr>vt := (vt E)(n := c), cast := insert (tm E n, n, c) (cast E)\<rparr>)"
| e_count: "c \<in> servers \<Longrightarrow> st E c = Candidate \<Longrightarrow> v \<in> servers \<Longrightarrow> (tm E c, v, c) \<in> cast E \<Longrightarrow>
    estep servers E (crown servers c (E\<lparr>ballot := (ballot E)(c := insert v (ballot E c))\<rparr>))"

section \<open>The invariant\<close>

definition roles_ok :: "string set \<Rightarrow> Election \<Rightarrow> bool" where
  "roles_ok servers E \<longleftrightarrow>
     (\<forall>n \<in> servers. st E n \<noteq> Follower \<longrightarrow> vt E n = n) \<and>
     (\<forall>n \<in> servers. st E n = Leader \<longrightarrow> (tm E n, n) \<in> elected E) \<and>
     (\<forall>n \<in> servers. st E n = Candidate \<longrightarrow>
        ballot E n \<subseteq> servers \<and> n \<in> ballot E n \<and> (\<forall>v \<in> ballot E n. (tm E n, v, n) \<in> cast E))"

definition votes_ok :: "string set \<Rightarrow> Election \<Rightarrow> bool" where
  "votes_ok servers E \<longleftrightarrow>
     (\<forall>t v c. (t, v, c) \<in> cast E \<longrightarrow> v \<in> servers \<and> c \<in> servers \<and> t \<le> tm E v \<and>
        (c \<noteq> v \<and> t = tm E v \<longrightarrow> vt E v = c \<and> st E v = Follower)) \<and>
     (\<forall>t v c d. (t, v, c) \<in> cast E \<and> (t, v, d) \<in> cast E \<and> c \<noteq> v \<and> d \<noteq> v \<longrightarrow> c = d)"

definition second_ok :: "Election \<Rightarrow> bool" where
  "second_ok E \<longleftrightarrow>
     (\<forall>v. (tm E v, v, v) \<in> cast E \<longrightarrow> vt E v = v \<or> (\<exists>l. l \<noteq> v \<and> (tm E v, l) \<in> elected E)) \<and>
     (\<forall>t v c. (t, v, v) \<in> cast E \<and> (t, v, c) \<in> cast E \<and> c \<noteq> v \<longrightarrow> (\<exists>l. l \<noteq> v \<and> (t, l) \<in> elected E))"

definition elected_ok :: "string set \<Rightarrow> Election \<Rightarrow> bool" where
  "elected_ok servers E \<longleftrightarrow>
     (\<forall>t l. (t, l) \<in> elected E \<longrightarrow> (t, l, l) \<in> cast E \<and>
        (\<exists>Q \<subseteq> servers. majority servers \<le> card Q \<and> (\<forall>v \<in> Q. (t, v, l) \<in> cast E)))"

definition one_leader :: "Election \<Rightarrow> bool" where
  "one_leader E \<longleftrightarrow> (\<forall>t l m. (t, l) \<in> elected E \<and> (t, m) \<in> elected E \<longrightarrow> l = m)"

definition election_inv :: "string set \<Rightarrow> Election \<Rightarrow> bool" where
  "election_inv servers E \<longleftrightarrow>
     roles_ok servers E \<and> votes_ok servers E \<and> second_ok E \<and> elected_ok servers E \<and> one_leader E"

lemma election_invD:
  assumes "election_inv servers E"
  shows "roles_ok servers E" "votes_ok servers E" "second_ok E" "elected_ok servers E" "one_leader E"
  using assms by (simp_all add: election_inv_def)

lemma votes_okD:
  assumes "votes_ok servers E" and "(t, v, c) \<in> cast E"
  shows "v \<in> servers" "c \<in> servers" "t \<le> tm E v"
    "c \<noteq> v \<Longrightarrow> t = tm E v \<Longrightarrow> vt E v = c \<and> st E v = Follower"
    "(t, v, d) \<in> cast E \<Longrightarrow> c \<noteq> v \<Longrightarrow> d \<noteq> v \<Longrightarrow> c = d"
  using assms unfolding votes_ok_def by blast+

lemma elected_okD:
  assumes "elected_ok servers E" and "(t, l) \<in> elected E"
  obtains Q where "(t, l, l) \<in> cast E" "Q \<subseteq> servers" "majority servers \<le> card Q"
    "\<And>v. v \<in> Q \<Longrightarrow> (t, v, l) \<in> cast E"
  using assms unfolding elected_ok_def by (meson subset_iff)

lemma votes_okI:
  assumes "\<And>t v c. (t, v, c) \<in> cast E \<Longrightarrow> v \<in> servers \<and> c \<in> servers \<and> t \<le> tm E v"
    and "\<And>t v c. (t, v, c) \<in> cast E \<Longrightarrow> c \<noteq> v \<Longrightarrow> t = tm E v \<Longrightarrow> vt E v = c \<and> st E v = Follower"
    and "\<And>t v c d. (t, v, c) \<in> cast E \<Longrightarrow> (t, v, d) \<in> cast E \<Longrightarrow> c \<noteq> v \<Longrightarrow> d \<noteq> v \<Longrightarrow> c = d"
  shows "votes_ok servers E"
  unfolding votes_ok_def using assms by metis

lemma second_okD:
  assumes "second_ok E"
  shows "(tm E v, v, v) \<in> cast E \<Longrightarrow> vt E v = v \<or> (\<exists>l. l \<noteq> v \<and> (tm E v, l) \<in> elected E)"
    and "(t, v, v) \<in> cast E \<Longrightarrow> (t, v, c) \<in> cast E \<Longrightarrow> c \<noteq> v \<Longrightarrow> \<exists>l. l \<noteq> v \<and> (t, l) \<in> elected E"
  using assms unfolding second_ok_def by blast+

lemma second_okI:
  assumes "\<And>v. (tm E v, v, v) \<in> cast E \<Longrightarrow> vt E v \<noteq> v \<Longrightarrow> \<exists>l. l \<noteq> v \<and> (tm E v, l) \<in> elected E"
    and "\<And>t v c. (t, v, v) \<in> cast E \<Longrightarrow> (t, v, c) \<in> cast E \<Longrightarrow> c \<noteq> v \<Longrightarrow> \<exists>l. l \<noteq> v \<and> (t, l) \<in> elected E"
  shows "second_ok E"
  unfolding second_ok_def using assms by blast

text \<open>More votes and the same leaders, or the other way round, keep the last two parts.\<close>

lemma elected_ok_mono:
  "elected_ok servers E \<Longrightarrow> cast E \<subseteq> cast E' \<Longrightarrow> elected E' = elected E \<Longrightarrow> elected_ok servers E'"
  unfolding elected_ok_def by (metis subsetD)

lemma one_leader_cong: "elected E' = elected E \<Longrightarrow> one_leader E' = one_leader E"
  by (simp add: one_leader_def)

text \<open>Two majorities meet.\<close>

lemma majorities_meet:
  assumes "finite S" and "A \<subseteq> S" and "B \<subseteq> S" and "majority S \<le> card A" and "majority S \<le> card B"
  shows "A \<inter> B \<noteq> {}"
proof
  assume "A \<inter> B = {}"
  then have "card A + card B = card (A \<union> B)"
    using assms(1-3) by (metis card_Un_disjoint finite_subset)
  also have "... \<le> card S" using assms(1-3) by (intro card_mono) auto
  finally show False using assms(4,5) by (simp add: majority_def)
qed

text \<open>The only step that needs an argument: a candidate with a majority is crowned.\<close>

lemma crown_inv:
  assumes "finite servers" and "[] \<notin> servers" and "election_inv servers E" and "n \<in> servers"
    and "st E n = Candidate"
  shows "election_inv servers (crown servers n E)"
proof (cases "majority servers \<le> card (ballot E n)")
  case True
  let ?E = "E\<lparr>st := (st E)(n := Leader), elected := insert (tm E n, n) (elected E)\<rparr>"
  from assms(3-5) have b: "ballot E n \<subseteq> servers" "n \<in> ballot E n" "\<forall>v \<in> ballot E n. (tm E n, v, n) \<in> cast E"
    by (auto simp: election_inv_def roles_ok_def)
  have new: "l = n" if l: "(tm E n, l) \<in> elected E" for l
  proof (rule ccontr)
    assume ne: "l \<noteq> n"
    obtain Q where ll: "(tm E n, l, l) \<in> cast E" and Q: "Q \<subseteq> servers" "majority servers \<le> card Q"
      "\<And>v. v \<in> Q \<Longrightarrow> (tm E n, v, l) \<in> cast E"
      using elected_okD [OF election_invD(4) [OF assms(3)] l] by blast
    obtain v where v: "(tm E n, v, l) \<in> cast E" "(tm E n, v, n) \<in> cast E"
      using majorities_meet [OF assms(1) Q(1) b(1) Q(2) True] Q(3) b(3) by blast
    note vD = votes_okD [OF election_invD(2) [OF assms(3)]]
    consider "v = n" | "v = l" | "v \<noteq> n" "v \<noteq> l" by blast
    then show False
    proof cases
      case 1
      with vD(4) [OF v(1)] ne assms(5) show False by simp
    next
      case 2
      with v ll ne election_invD(3) [OF assms(3)] obtain k where "k \<noteq> l" "(tm E n, k) \<in> elected E"
        unfolding second_ok_def by blast
      with l election_invD(5) [OF assms(3)] show False unfolding one_leader_def by blast
    next
      case 3
      with vD(5) [OF v(1) v(2)] ne show False by simp
    qed
  qed
  note inv = election_invD [OF assms(3)]
  have "roles_ok servers ?E" using inv(1) assms(4,5) unfolding roles_ok_def by auto
  moreover have "votes_ok servers ?E"
  proof (rule votes_okI)
    fix t v c d assume c: "(t, v, c) \<in> cast ?E"
    note vD = votes_okD [OF inv(2), of t v c]
    show "v \<in> servers \<and> c \<in> servers \<and> t \<le> tm ?E v" using vD c by simp
    show "vt ?E v = c \<and> st ?E v = Follower" if "c \<noteq> v" "t = tm ?E v"
      using vD(4) c that assms(5) by (cases "v = n") auto
    show "c = d" if "(t, v, d) \<in> cast ?E" "c \<noteq> v" "d \<noteq> v" using vD(5) c that by simp
  qed
  moreover have "second_ok ?E" using inv(3) unfolding second_ok_def by simp blast
  moreover have "elected_ok servers ?E"
    using inv(4) b True unfolding elected_ok_def by auto
  moreover have "one_leader ?E" using inv(5) new unfolding one_leader_def by auto
  ultimately have "election_inv servers ?E" by (simp add: election_inv_def)
  with True show ?thesis by (simp add: crown_def)
next
  case False
  with assms(3) show ?thesis by (simp add: crown_def)
qed

text \<open>Starting an election, and counting a vote, before the majority is looked at.\<close>

definition stand :: "string \<Rightarrow> Election \<Rightarrow> Election" where
  "stand n E = E\<lparr>tm := (tm E)(n := tm E n + 1), vt := (vt E)(n := n), st := (st E)(n := Candidate),
     ballot := (ballot E)(n := {n}), cast := insert (tm E n + 1, n, n) (cast E)\<rparr>"

definition count_vote :: "string \<Rightarrow> string \<Rightarrow> Election \<Rightarrow> Election" where
  "count_vote c v E = E\<lparr>ballot := (ballot E)(c := insert v (ballot E c))\<rparr>"

lemma stand_inv:
  assumes "election_inv servers E" and "n \<in> servers"
  shows "election_inv servers (stand n E)"
proof -
  let ?E = "E\<lparr>tm := (tm E)(n := tm E n + 1), vt := (vt E)(n := n), st := (st E)(n := Candidate),
         ballot := (ballot E)(n := {n}), cast := insert (tm E n + 1, n, n) (cast E)\<rparr>"
  note inv = election_invD [OF assms(1)]
  have fresh: "(t, n, c) \<in> cast E \<Longrightarrow> t \<le> tm E n" for t c
    using votes_okD(3) [OF inv(2)] by blast
  have "roles_ok servers ?E" using inv(1) assms(2) unfolding roles_ok_def by auto
  moreover have "votes_ok servers ?E"
  proof (rule votes_okI)
    fix t v c d assume c: "(t, v, c) \<in> cast ?E"
    note vD = votes_okD [OF inv(2), of t v c]
    have "(t = tm E n + 1 \<and> v = n \<and> c = n) \<or> (t, v, c) \<in> cast E" using c by auto
    then show "v \<in> servers \<and> c \<in> servers \<and> t \<le> tm ?E v"
      using vD(1-3) assms(2) by (elim disjE) (auto simp: le_Suc_eq)
    show "vt ?E v = c \<and> st ?E v = Follower" if "c \<noteq> v" "t = tm ?E v"
      using vD(4) c that fresh [of t c] by (cases "v = n") auto
    show "c = d" if "(t, v, d) \<in> cast ?E" "c \<noteq> v" "d \<noteq> v" using vD(5) c that by auto
  qed
  moreover have "second_ok ?E"
  proof (rule second_okI)
    show "\<exists>l. l \<noteq> v \<and> (tm ?E v, l) \<in> elected ?E" if "(tm ?E v, v, v) \<in> cast ?E" "vt ?E v \<noteq> v" for v
      using second_okD(1) [OF inv(3), of v] that by (cases "v = n") auto
    show "\<exists>l. l \<noteq> v \<and> (t, l) \<in> elected ?E" if "(t, v, v) \<in> cast ?E" "(t, v, c) \<in> cast ?E" "c \<noteq> v" for t v c
      using second_okD(2) [OF inv(3), of t v c] that fresh [of t c] by (cases "v = n") auto
  qed
  moreover have "elected_ok servers ?E" by (rule elected_ok_mono [OF inv(4)]) auto
  moreover have "one_leader ?E" using inv(5) by (simp add: one_leader_def)
  ultimately have "election_inv servers ?E" by (simp add: election_inv_def)
  then show ?thesis by (simp add: stand_def)
qed

lemma count_vote_inv:
  assumes "election_inv servers E" and "v \<in> servers" and "(tm E c, v, c) \<in> cast E"
  shows "election_inv servers (count_vote c v E)"
proof -
  note inv = election_invD [OF assms(1)]
  let ?E = "E\<lparr>ballot := (ballot E)(c := insert v (ballot E c))\<rparr>"
  have "roles_ok servers ?E" using inv(1) assms(2,3) unfolding roles_ok_def by auto
  moreover have "votes_ok servers ?E"
    by (rule votes_okI) (use votes_okD [OF inv(2)] in simp_all)
  moreover have "second_ok ?E" using inv(3) unfolding second_ok_def by simp
  moreover have "elected_ok servers ?E" by (rule elected_ok_mono [OF inv(4)]) auto
  moreover have "one_leader ?E" using inv(5) by (simp add: one_leader_def)
  ultimately have "election_inv servers ?E" by (simp add: election_inv_def)
  then show ?thesis by (simp add: count_vote_def)
qed

lemma newer_inv:
  assumes "n \<in> servers" and "tm E n < t" and "election_inv servers E"
  shows "election_inv servers (E\<lparr>tm := (tm E)(n := t), vt := (vt E)(n := []), st := (st E)(n := Follower)\<rparr>)"
proof -
  let ?E = "E\<lparr>tm := (tm E)(n := t), vt := (vt E)(n := []), st := (st E)(n := Follower)\<rparr>"
  note inv = election_invD [OF assms(3)]
  have old: "(t', n, c) \<in> cast E \<Longrightarrow> t' < t" for t' c
    using votes_okD(3) [OF inv(2)] assms(2) by force
  have "roles_ok servers ?E" using inv(1) unfolding roles_ok_def by auto
  moreover have "votes_ok servers ?E"
  proof (rule votes_okI)
    fix t' v c d assume c: "(t', v, c) \<in> cast ?E"
    note vD = votes_okD [OF inv(2), of t' v c]
    show "v \<in> servers \<and> c \<in> servers \<and> t' \<le> tm ?E v" using vD(1-3) c old [of t' c] by (cases "v = n") auto
    show "vt ?E v = c \<and> st ?E v = Follower" if "c \<noteq> v" "t' = tm ?E v"
      using vD(4) c that old [of t' c] by (cases "v = n") auto
    show "c = d" if "(t', v, d) \<in> cast ?E" "c \<noteq> v" "d \<noteq> v" using vD(5) c that by simp
  qed
  moreover have "second_ok ?E"
  proof (rule second_okI)
    show "\<exists>l. l \<noteq> v \<and> (tm ?E v, l) \<in> elected ?E" if "(tm ?E v, v, v) \<in> cast ?E" "vt ?E v \<noteq> v" for v
      using second_okD(1) [OF inv(3), of v] that old [of t n] by (cases "v = n") auto
    show "\<exists>l. l \<noteq> v \<and> (t', l) \<in> elected ?E" if "(t', v, v) \<in> cast ?E" "(t', v, c) \<in> cast ?E" "c \<noteq> v" for t' v c
      using second_okD(2) [OF inv(3), of t' v c] that by simp
  qed
  moreover have "elected_ok servers ?E" by (rule elected_ok_mono [OF inv(4)]) auto
  moreover have "one_leader ?E" using inv(5) by (simp add: one_leader_def)
  ultimately show ?thesis by (simp add: election_inv_def)
qed

lemma quit_inv:
  assumes "n \<in> servers" and "election_inv servers E"
  shows "election_inv servers (E\<lparr>st := (st E)(n := Follower)\<rparr>)"
proof -
  note inv = election_invD [OF assms(2)]
  let ?E = "E\<lparr>st := (st E)(n := Follower)\<rparr>"
  have "roles_ok servers ?E" using inv(1) unfolding roles_ok_def by auto
  moreover have "votes_ok servers ?E"
    by (rule votes_okI) (use votes_okD [OF inv(2)] in auto)
  moreover have "second_ok ?E" using inv(3) unfolding second_ok_def by simp
  moreover have "elected_ok servers ?E" by (rule elected_ok_mono [OF inv(4)]) auto
  moreover have "one_leader ?E" using inv(5) by (simp add: one_leader_def)
  ultimately show ?thesis by (simp add: election_inv_def)
qed

lemma meet_inv:
  assumes "n \<in> servers" and "(tm E n, l) \<in> elected E" and "l \<noteq> n" and "st E n \<noteq> Follower" and "election_inv servers E"
  shows "election_inv servers (E\<lparr>vt := (vt E)(n := []), st := (st E)(n := Follower)\<rparr>)"
proof -
  note inv = election_invD [OF assms(5)]
  let ?E = "E\<lparr>vt := (vt E)(n := []), st := (st E)(n := Follower)\<rparr>"
  have none: "(tm E n, n, c) \<in> cast E \<Longrightarrow> c = n" for c
    using votes_okD(4) [OF inv(2)] assms(4) by blast
  have "roles_ok servers ?E" using inv(1) unfolding roles_ok_def by auto
  moreover have "votes_ok servers ?E"
    by (rule votes_okI) (use votes_okD [OF inv(2)] none in auto)
  moreover have "second_ok ?E" using inv(3) assms(2,3) unfolding second_ok_def by auto
  moreover have "elected_ok servers ?E" by (rule elected_ok_mono [OF inv(4)]) auto
  moreover have "one_leader ?E" using inv(5) by (simp add: one_leader_def)
  ultimately show ?thesis by (simp add: election_inv_def)
qed

lemma grant_inv:
  assumes "n \<in> servers" and "c \<in> servers" and "c \<noteq> n" and "vt E n = [] \<or> vt E n = c" and "election_inv servers E" and "[] \<notin> servers"
  shows "election_inv servers (E\<lparr>vt := (vt E)(n := c), cast := insert (tm E n, n, c) (cast E)\<rparr>)"
proof -
  note inv = election_invD [OF assms(5)]
  let ?E = "E\<lparr>vt := (vt E)(n := c), cast := insert (tm E n, n, c) (cast E)\<rparr>"
  have fol: "st E n = Follower"
    using inv(1) assms(1-4) assms(6) unfolding roles_ok_def by metis
  have same: "d = c" if "(tm E n, n, d) \<in> cast E" "d \<noteq> n" for d
    using votes_okD(2,4) [OF inv(2) that(1)] that(2) assms(4) assms(6) by auto
  have "roles_ok servers ?E" using inv(1) fol unfolding roles_ok_def by auto
  moreover have "votes_ok servers ?E"
  proof (rule votes_okI)
    fix t v d k assume d: "(t, v, d) \<in> cast ?E"
    note vD = votes_okD [OF inv(2), of t v d]
    show "v \<in> servers \<and> d \<in> servers \<and> t \<le> tm ?E v" using vD(1-3) d assms(1,2) by auto
    show "vt ?E v = d \<and> st ?E v = Follower" if "d \<noteq> v" "t = tm ?E v"
      using vD(4) d that fol same [of d] by (cases "v = n") auto
    show "d = k" if "(t, v, k) \<in> cast ?E" "d \<noteq> v" "k \<noteq> v"
      using vD(5) d that same by auto
  qed
  moreover have "second_ok ?E"
  proof -
    have own: "\<exists>l. l \<noteq> n \<and> (tm E n, l) \<in> elected E" if "(tm E n, n, n) \<in> cast E"
      using second_okD(1) [OF inv(3) that] assms(1-4) assms(6) by auto
    show ?thesis
    proof (rule second_okI)
      show "\<exists>l. l \<noteq> v \<and> (tm ?E v, l) \<in> elected ?E" if "(tm ?E v, v, v) \<in> cast ?E" "vt ?E v \<noteq> v" for v
        using second_okD(1) [OF inv(3), of v] that own assms(3) by (cases "v = n") auto
      show "\<exists>l. l \<noteq> v \<and> (t, l) \<in> elected ?E" if "(t, v, v) \<in> cast ?E" "(t, v, d) \<in> cast ?E" "d \<noteq> v" for t v d
        using second_okD(2) [OF inv(3), of t v d] that own assms(3) by auto
    qed
  qed
  moreover have "elected_ok servers ?E" by (rule elected_ok_mono [OF inv(4)]) auto
  moreover have "one_leader ?E" using inv(5) by (simp add: one_leader_def)
  ultimately show ?thesis by (simp add: election_inv_def)
qed

lemma estep_inv:
  assumes "finite servers" and "[] \<notin> servers"
  shows "estep servers E E' \<Longrightarrow> election_inv servers E \<Longrightarrow> election_inv servers E'"
proof (induction rule: estep.induct)
  case (e_elect n E)
  show ?case
    by (rule crown_inv [OF assms stand_inv [OF e_elect(3,1), unfolded stand_def] e_elect(1)]) simp
next
  case (e_newer n E t)
  then show ?case by (rule newer_inv)
next
  case (e_quit n E)
  then show ?case by (rule quit_inv)
next
  case (e_meet n E l)
  then show ?case by (rule meet_inv)
next
  case (e_grant n c E)
  then show ?case using assms(2) by (rule grant_inv)
next
  case (e_count c E v)
  show ?case
    by (rule crown_inv [OF assms count_vote_inv [OF e_count(5,3,4), unfolded count_vote_def] e_count(1)])
      (simp add: e_count(2))
qed

text \<open>The empty protocol state: no votes, no leaders, everybody a follower.\<close>

lemma election_inv_init:
  "(\<And>n. n \<in> servers \<Longrightarrow> st E n = Follower) \<Longrightarrow> cast E = {} \<Longrightarrow> elected E = {} \<Longrightarrow> election_inv servers E"
  by (simp add: election_inv_def roles_ok_def votes_ok_def second_ok_def elected_ok_def one_leader_def)

lemma esteps_inv:
  assumes "finite servers" and "[] \<notin> servers"
  shows "(estep servers)\<^sup>*\<^sup>* E E' \<Longrightarrow> election_inv servers E \<Longrightarrow> election_inv servers E'"
  by (induction rule: rtranclp_induct) (auto intro: estep_inv [OF assms])

end
