(* ===== verification/Raft_Cluster.thy ===== *)
theory Raft_Cluster
  imports Raft_Election Election_Spec
begin

text \<open>
  The cluster: the nodes of \<^verbatim>\<open>Config.Peers\<close>, the messages in flight, and interleavings of the
  nodes' handlers. Messages may be lost, delayed, duplicated and reordered (a request stays in the
  set once sent); nodes may crash and restart at any moment. The cluster implements the abstract
  protocol of \<^verbatim>\<open>Election_Spec\<close>, so there is at most one leader per term.

  A step is one critical section of the run goroutine, of a replicator or of the apply goroutine.
  Two points of the code are taken as atomic: a follower's timeout together with the election it
  starts, and \<^verbatim>\<open>runCandidate\<close>'s test of the role together with the vote it then receives (what
  happens when they are not is \<^verbatim>\<open>stale_vote_elects_in_new_term\<close>). \<open>may_noop\<close> tells when a node
  may append the no-op entry of \<^verbatim>\<open>runLeader\<close>: in the code at any time after it won, whatever
  happened since. \<open>ballots\<close> are the voters
  counted in \<^verbatim>\<open>votes\<close>; the sets \<open>vote_log\<close> and \<open>leaders\<close> record history and are read by no
  step.
\<close>

section \<open>State and steps\<close>

record ('l, 's, 'f, 'r) Cluster =
  nodes :: "string \<Rightarrow> ('l, 's, 'f, 'r) RaftNode"
  ballots :: "string \<Rightarrow> string set"
  voteReqs :: "RequestVoteRequest set"
  voteResps :: "(string \<times> RequestVoteRequest \<times> RequestVoteResponse) set"
  appendReqs :: "AppendEntriesRequest set"
  vote_log :: "(nat \<times> string \<times> string) set"
  leaders :: "(nat \<times> string) set"

abbreviation put ::
    "string \<Rightarrow> ('l, 's, 'f, 'r) RaftNode \<Rightarrow> ('l, 's, 'f, 'r) Cluster \<Rightarrow> ('l, 's, 'f, 'r) Cluster" where
  "put n r C \<equiv> C\<lparr>nodes := (nodes C)(n := r)\<rparr>"

abbreviation server_ids :: "PeerConfig list \<Rightarrow> string set" where
  "server_ids plist \<equiv> ID ` set plist"

inductive cstep ::
    "'l LogStore \<Rightarrow> 's StableStore \<Rightarrow> ('f \<Rightarrow> string \<Rightarrow> ('f \<times> 'r option) option) \<Rightarrow>
     (('l, 's, 'f, 'r) RaftNode \<Rightarrow> bool) \<Rightarrow> string set \<Rightarrow>
     ('l, 's, 'f, 'r) Cluster \<Rightarrow> ('l, 's, 'f, 'r) Cluster \<Rightarrow> bool"
  for lops sops fapply may_noop servers where
  c_local: "n \<in> servers \<Longrightarrow> local_step lops fapply (nodes C n) r' \<Longrightarrow>
    cstep lops sops fapply may_noop servers C (put n r' C)"
| c_noop: "n \<in> servers \<Longrightarrow> may_noop (nodes C n) \<Longrightarrow>
    cstep lops sops fapply may_noop servers C (put n (appendNoOp lops (nodes C n)) C)"
| c_elect: "n \<in> servers \<Longrightarrow> state (nodes C n) \<noteq> Leader \<Longrightarrow> Suc (currentTerm (nodes C n)) < 2 ^ 64 \<Longrightarrow>
    candidate_start lops sops (follower_timeout (nodes C n)) = (r', req, targets, votes) \<Longrightarrow>
    cstep lops sops fapply may_noop servers C
      ((put n r' C)\<lparr>ballots := (ballots C)(n := {n}), voteReqs := insert req (voteReqs C),
         vote_log := insert (rv_Term req, n, n) (vote_log C),
         leaders := (if state r' = Leader then insert (currentTerm r', n) (leaders C) else leaders C)\<rparr>)"
| c_request: "n \<in> servers \<Longrightarrow> req \<in> voteReqs C \<Longrightarrow> rv_CandidateID req \<noteq> n \<Longrightarrow>
    handleRequestVote lops sops (nodes C n) req = (r', resp, reset) \<Longrightarrow>
    cstep lops sops fapply may_noop servers C
      ((put n r' C)\<lparr>voteResps := insert (n, req, resp) (voteResps C),
         vote_log := (if rvr_VoteGranted resp then insert (rv_Term req, n, rv_CandidateID req) (vote_log C)
                      else vote_log C)\<rparr>)"
| c_vote: "n \<in> servers \<Longrightarrow> (v, req, resp) \<in> voteResps C \<Longrightarrow> rv_CandidateID req = n \<Longrightarrow>
    state (nodes C n) = Candidate \<Longrightarrow> rv_Term req = currentTerm (nodes C n) \<Longrightarrow> v \<notin> ballots C n \<Longrightarrow>
    rvr_Term resp < 2 ^ 64 \<Longrightarrow>
    candidate_vote sops (nodes C n) (card (ballots C n)) resp = (r', votes', d) \<Longrightarrow>
    cstep lops sops fapply may_noop servers C
      ((put n r' C)\<lparr>ballots := (if votes' = card (ballots C n) then ballots C
                                else (ballots C)(n := insert v (ballots C n))),
         leaders := (if state r' = Leader then insert (currentTerm r', n) (leaders C) else leaders C)\<rparr>)"
| c_send: "n \<in> servers \<Longrightarrow> replicate_request lops (nodes C n) peer = Some req \<Longrightarrow>
    cstep lops sops fapply may_noop servers C (C\<lparr>appendReqs := insert req (appendReqs C)\<rparr>)"
| c_append: "n \<in> servers \<Longrightarrow> req \<in> appendReqs C \<Longrightarrow> ae_LeaderID req \<noteq> n \<Longrightarrow>
    handleAppendEntries lops sops (nodes C n) req = Some (r', resp, reset) \<Longrightarrow>
    cstep lops sops fapply may_noop servers C (put n r' C)"
| c_reply: "n \<in> servers \<Longrightarrow> aer_Term resp < 2 ^ 64 \<Longrightarrow>
    replicate_response lops sops (nodes C n) live peer ents resp = (r', peer') \<Longrightarrow>
    cstep lops sops fapply may_noop servers C (put n r' C)"
| c_shutdown: "n \<in> servers \<Longrightarrow> cstep lops sops fapply may_noop servers C (put n (Shutdown (nodes C n)) C)"
| c_restart: "n \<in> servers \<Longrightarrow>
    NewRaftNode sops (config (nodes C n)) (logStore (nodes C n)) (stableStore (nodes C n)) f = Ok r' \<Longrightarrow>
    cstep lops sops fapply may_noop servers C (put n r' C)"

section \<open>Abstraction and invariant\<close>

definition view :: "('l, 's, 'f, 'r) Cluster \<Rightarrow> Election" where
  "view C = \<lparr>tm = (\<lambda>n. currentTerm (nodes C n)), vt = (\<lambda>n. votedFor (nodes C n)),
     st = (\<lambda>n. state (nodes C n)), ballot = ballots C, cast = vote_log C, elected = leaders C\<rparr>"

definition configured :: "PeerConfig list \<Rightarrow> ('l, 's, 'f, 'r) Cluster \<Rightarrow> bool" where
  "configured plist C \<longleftrightarrow>
     (\<forall>n \<in> server_ids plist. ServerID (config (nodes C n)) = n \<and> Peers (config (nodes C n)) = plist)"

definition messages_ok :: "string set \<Rightarrow> ('l, 's, 'f, 'r) Cluster \<Rightarrow> bool" where
  "messages_ok servers C \<longleftrightarrow>
     (\<forall>req \<in> voteReqs C. rv_CandidateID req \<in> servers \<and> rv_Term req < 2 ^ 64) \<and>
     (\<forall>(v, req, resp) \<in> voteResps C. v \<in> servers \<and>
        (rvr_VoteGranted resp \<longrightarrow> (rv_Term req, v, rv_CandidateID req) \<in> vote_log C)) \<and>
     (\<forall>req \<in> appendReqs C. (ae_Term req, ae_LeaderID req) \<in> leaders C \<and> ae_Term req < 2 ^ 64)"

definition cluster_init :: "'s StableStore \<Rightarrow> PeerConfig list \<Rightarrow> ('l, 's, 'f, 'r) Cluster \<Rightarrow> bool" where
  "cluster_init sops plist C \<longleftrightarrow>
     configured plist C \<and> (\<forall>n \<in> server_ids plist. state (nodes C n) = Follower \<and>
       persisted sops (nodes C n) \<and> currentTerm (nodes C n) < 2 ^ 64) \<and>
     voteReqs C = {} \<and> voteResps C = {} \<and> appendReqs C = {} \<and> vote_log C = {} \<and> leaders C = {}"

text \<open>The steps of the view.\<close>

lemma view_put_same:
  "same_vote (nodes C n) r' \<Longrightarrow> view (put n r' C) = view C"
  by (auto simp: view_def same_vote_def fun_eq_iff)

lemma view_put:
  "view (put n r' C) = (view C)\<lparr>tm := (tm (view C))(n := currentTerm r'),
     vt := (vt (view C))(n := votedFor r'), st := (st (view C))(n := state r')\<rparr>"
  by (auto simp: view_def fun_eq_iff)

lemma view_simps [simp]:
  "tm (view C) n = currentTerm (nodes C n)" "vt (view C) n = votedFor (nodes C n)"
  "st (view C) n = state (nodes C n)" "ballot (view C) = ballots C" "cast (view C) = vote_log C"
  "elected (view C) = leaders C"
  by (simp_all add: view_def)

lemma same_vote_config: "same_vote r r' \<Longrightarrow> config r' = config r"
  by (simp add: same_vote_def)

lemma node_step_config: "node_step lops sops fapply r r' \<Longrightarrow> config r' = config r"
proof (induction rule: node_step.induct)
  case (node_local r r')
  from local_step_same_vote [OF this] show ?case by (rule same_vote_config)
next
  case (node_noop r)
  show ?case by (rule same_vote_config [OF same_vote_noop])
next
  case (node_timeout r)
  then show ?case by (simp add: follower_timeout_def)
next
  case (node_elect r r' req targets votes)
  from candidate_start_cases(1) [OF this] show ?case by simp
next
  case (node_vote r votes vote r' votes' d)
  from node_vote(1) show ?case by (cases rule: candidate_vote_cases) simp_all
next
  case (node_rpc r rpc r' resp reset)
  from node_rpc(1) show ?case
  proof (cases rule: handleRPC_cases)
    case (append req aer)
    from append(1) show ?thesis by (cases rule: handleAppendEntries_vote) simp_all
  next
    case (vote req rvr)
    from vote(1) show ?thesis by (cases rule: handleRequestVote_cases) simp_all
  qed simp
next
  case (node_reply r live peer ents resp r' peer')
  from node_reply(1) show ?case by (cases rule: replicate_response_cases) (simp_all add: same_vote_def)
next
  case (node_shutdown r)
  show ?case by (simp add: Shutdown_def same_vote_config [OF same_vote_fail_all])
next
  case (node_restart r f r')
  from NewRaftNode_vote(6) [OF this] show ?case .
qed

lemma node_steps_config: "(node_step lops sops fapply)\<^sup>*\<^sup>* r r' \<Longrightarrow> config r' = config r"
  by (induction rule: rtranclp_induct) (auto dest: node_step_config)

text \<open>Every step of the cluster is made of steps of its nodes.\<close>

lemma node_step_start:
  assumes "state r \<noteq> Leader" and "candidate_start lops sops (follower_timeout r) = (r', req, targets, votes)"
  shows "(node_step lops sops fapply)\<^sup>*\<^sup>* r r'"
proof -
  have "(node_step lops sops fapply)\<^sup>*\<^sup>* r (follower_timeout r)"
  proof (cases "state r = Follower")
    case True
    then show ?thesis by (intro r_into_rtranclp node_timeout)
  next
    case False
    with assms(1) have "state r = Candidate" by (cases "state r") auto
    then have "follower_timeout r = r" by (simp add: follower_timeout_def)
    then show ?thesis by simp
  qed
  then show ?thesis using node_elect [OF assms(2)] by (rule rtranclp.rtrancl_into_rtrancl)
qed

lemma cstep_nodes:
  assumes "cstep lops sops fapply may_noop servers C C'" and "messages_ok servers C"
  shows "(node_step lops sops fapply)\<^sup>*\<^sup>* (nodes C m) (nodes C' m)"
  using assms
proof (induction rule: cstep.induct)
  case (c_local n C r')
  then show ?case by (auto intro: node_step.node_local)
next
  case (c_noop n C)
  then show ?case by (auto intro: node_noop)
next
  case (c_elect n C r' req targets votes)
  with node_step_start [OF c_elect(2,4)] show ?case by auto
next
  case (c_request n req C r' resp reset)
  have "handleRPC lops sops (nodes C n) (RequestVoteRPC req) = Some (r', RequestVoteReply resp, reset)"
    using c_request(4) by (simp add: handleRPC_def)
  moreover have "rpc_term (RequestVoteRPC req) < 2 ^ 64"
    using c_request(2,5) by (simp add: messages_ok_def)
  ultimately have "node_step lops sops fapply (nodes C n) r'" by (rule node_rpc)
  then show ?case by auto
next
  case (c_vote n v req resp C r' votes' d)
  with node_vote [OF c_vote(8,7)] show ?case by auto
next
  case (c_send n C peer req)
  then show ?case by simp
next
  case (c_append n req C r' resp reset)
  have "handleRPC lops sops (nodes C n) (AppendEntriesRPC req) = Some (r', AppendEntriesReply resp, reset)"
    using c_append(4) by (simp add: handleRPC_def)
  moreover have "rpc_term (AppendEntriesRPC req) < 2 ^ 64"
    using c_append(2,5) by (simp add: messages_ok_def)
  ultimately have "node_step lops sops fapply (nodes C n) r'" by (rule node_rpc)
  then show ?case by auto
next
  case (c_reply n resp C live peer ents r' peer')
  with node_reply [OF c_reply(3,2)] show ?case by auto
next
  case (c_shutdown n C)
  then show ?case by (auto intro: node_shutdown)
next
  case (c_restart n C f r')
  with node_restart [OF c_restart(2)] show ?case by auto
qed

section \<open>The cluster implements the protocol\<close>

lemma quorum_majority:
  assumes "configured plist C" and "distinct (map ID plist)" and "n \<in> server_ids plist"
  shows "quorum (nodes C n) = majority (server_ids plist)"
proof -
  have "card (server_ids plist) = length plist"
    using assms(2) by (metis distinct_card length_map list.set_map)
  with assms(1,3) show ?thesis by (auto simp: quorum_def majority_def configured_def)
qed

context stable_store
begin

definition cinv :: "PeerConfig list \<Rightarrow> ('l, 's, 'f, 'r) Cluster \<Rightarrow> bool" where
  "cinv plist C \<longleftrightarrow> election_inv (server_ids plist) (view C) \<and> configured plist C \<and>
     (\<forall>n \<in> server_ids plist. node_ok (nodes C n)) \<and> messages_ok (server_ids plist) C"

lemma cinvD:
  assumes "cinv plist C"
  shows "election_inv (server_ids plist) (view C)" "configured plist C"
    "n \<in> server_ids plist \<Longrightarrow> node_ok (nodes C n)" "messages_ok (server_ids plist) C"
  using assms by (auto simp: cinv_def)

lemma simulate_put_newer:
  assumes "n \<in> servers" and "currentTerm (nodes C n) < t" and "currentTerm r' = t" and "votedFor r' = []"
    and "state r' = Follower"
  shows "(estep servers)\<^sup>*\<^sup>* (view C) (view (put n r' C))"
  using e_newer [OF assms(1), of "view C" t] assms(2-5) by (simp add: view_put r_into_rtranclp)

lemma simulate_put_quit:
  assumes "n \<in> servers" and "currentTerm r' = currentTerm (nodes C n)" and "votedFor r' = votedFor (nodes C n)"
    and "state r' = Follower"
  shows "(estep servers)\<^sup>*\<^sup>* (view C) (view (put n r' C))"
proof -
  have "view (put n r' C) = (view C)\<lparr>st := (st (view C))(n := Follower)\<rparr>"
    using assms(2-4) by (auto simp: view_def fun_eq_iff)
  with e_quit [OF assms(1), of "view C"] show ?thesis by (simp add: r_into_rtranclp)
qed

lemma simulate_put_same:
  "same_vote (nodes C n) r' \<Longrightarrow> (estep servers)\<^sup>*\<^sup>* (view C) (view (put n r' C))"
  by (simp add: view_put_same)

lemma simulate_request:
  assumes "n \<in> servers" and "rv_CandidateID req \<in> servers" and "rv_CandidateID req \<noteq> n"
    and "handleRequestVote lops sops (nodes C n) req = (r', resp, reset)"
  shows "(estep servers)\<^sup>*\<^sup>* (view C) (view ((put n r' C)\<lparr>voteResps := vr,
           vote_log := (if rvr_VoteGranted resp then insert (rv_Term req, n, rv_CandidateID req) (vote_log C)
                        else vote_log C)\<rparr>))" (is "(estep servers)\<^sup>*\<^sup>* _ (view ?C')")
  using assms(4)
proof (cases rule: handleRequestVote_cases)
  case stale
  then have "view ?C' = view (put n r' C)" by (simp add: view_def)
  with stale simulate_put_same [of C n r'] show ?thesis by simp
next
  case refused
  then have eq: "view ?C' = view (put n r' C)" by (simp add: view_def)
  show ?thesis
  proof (cases "currentTerm (nodes C n) < rv_Term req")
    case True
    with refused eq simulate_put_newer [OF assms(1) True, of r'] show ?thesis by simp
  next
    case False
    with refused eq simulate_put_same [of C n r'] show ?thesis by simp
  qed
next
  case (granted r1)
  let ?C1 = "put n r1 C"
  have first: "(estep servers)\<^sup>*\<^sup>* (view C) (view ?C1)" and t1: "currentTerm r1 = rv_Term req"
    using granted(1,3) simulate_put_newer [OF assms(1), of C "rv_Term req" r1] simulate_put_same [of C n r1]
    by (auto split: if_splits)
  have "view ?C' = (view ?C1)\<lparr>vt := (vt (view ?C1))(n := rv_CandidateID req),
      cast := insert (tm (view ?C1) n, n, rv_CandidateID req) (cast (view ?C1))\<rparr>"
    using granted(2,5) t1 by (auto simp: view_def fun_eq_iff)
  moreover have "estep servers (view ?C1) ((view ?C1)\<lparr>vt := (vt (view ?C1))(n := rv_CandidateID req),
      cast := insert (tm (view ?C1) n, n, rv_CandidateID req) (cast (view ?C1))\<rparr>)"
    by (rule e_grant [OF assms(1-3)]) (use granted(4) in simp)
  ultimately show ?thesis using first by (simp add: rtranclp.rtrancl_into_rtrancl)
qed

lemma simulate_append:
  assumes "n \<in> servers" and "(ae_Term req, ae_LeaderID req) \<in> leaders C" and "ae_LeaderID req \<noteq> n"
    and "handleAppendEntries lops sops (nodes C n) req = Some (r', resp, reset)"
  shows "(estep servers)\<^sup>*\<^sup>* (view C) (view (put n r' C))"
  using assms(4)
proof (cases rule: handleAppendEntries_vote)
  case stale
  then show ?thesis using simulate_put_same [of C n r'] by simp
next
  case accepted
  let ?r = "nodes C n"
  consider (newer) "currentTerm ?r < ae_Term req"
    | (meet) "currentTerm ?r = ae_Term req" "state ?r \<noteq> Follower"
    | (known) "currentTerm ?r = ae_Term req" "state ?r = Follower"
    using accepted(1) by linarith
  then show ?thesis
  proof cases
    case newer
    with accepted simulate_put_newer [OF assms(1) newer] show ?thesis
      by (simp add: accept_leader_vote Let_def)
  next
    case meet
    have "view (put n r' C) = (view C)\<lparr>vt := (vt (view C))(n := []), st := (st (view C))(n := Follower)\<rparr>"
      using accepted meet by (auto simp: view_def fun_eq_iff accept_leader_vote Let_def)
    moreover have "estep servers (view C)
        ((view C)\<lparr>vt := (vt (view C))(n := []), st := (st (view C))(n := Follower)\<rparr>)"
      by (rule e_meet [OF assms(1) _ assms(3)]) (use assms(2) meet in simp_all)
    ultimately show ?thesis by (simp add: r_into_rtranclp)
  next
    case known
    with accepted simulate_put_quit [OF assms(1), of r' C] show ?thesis
      by (simp add: accept_leader_vote Let_def)
  qed
qed

lemma elect_view:
  assumes "configured plist C" and "distinct (map ID plist)" and "n \<in> server_ids plist"
    and "Suc (currentTerm (nodes C n)) < 2 ^ 64"
    and "candidate_start lops sops (follower_timeout (nodes C n)) = (r', req, targets, votes)"
  shows "view ((put n r' C)\<lparr>ballots := (ballots C)(n := {n}), voteReqs := vr,
         vote_log := insert (rv_Term req, n, n) (vote_log C),
         leaders := (if state r' = Leader then insert (currentTerm r', n) (leaders C) else leaders C)\<rparr>) =
       crown (server_ids plist) n (stand n (view C))" (is "view ?C' = _")
    "rv_Term req = currentTerm (nodes C n) + 1" "state r' = (if majority (server_ids plist) \<le> 1 then Leader else Candidate)"
proof -
  let ?r = "follower_timeout (nodes C n)" and ?S = "server_ids plist"
  note cs = candidate_start_cases [OF assms(5)]
  have me: "ServerID (config ?r) = n" using assms(1,3) by (auto simp: configured_def follower_timeout_def)
  have u: "u64 (currentTerm ?r + 1) = currentTerm (nodes C n) + 1"
    using assms(4) by (simp add: follower_timeout_def u64_id)
  have q: "quorum ?r = majority ?S"
    using quorum_majority [OF assms(1-3)] by (simp add: follower_timeout_def quorum_def)
  have maj: "majority ?S \<le> 1 \<longleftrightarrow> majority ?S = 1" by (simp add: majority_def)
  have r': "currentTerm r' = currentTerm (nodes C n) + 1" "votedFor r' = n"
      "state r' = (if majority ?S = 1 then Leader else Candidate)"
    using cs(1) me u q by (auto simp: follower_timeout_def)
  show t: "rv_Term req = currentTerm (nodes C n) + 1" using cs(3) u by simp
  show "view ?C' = crown ?S n (stand n (view C))"
    using r' t maj by (auto simp: view_def crown_def stand_def fun_eq_iff)
  show "state r' = (if majority ?S \<le> 1 then Leader else Candidate)" using r'(3) maj by simp
qed

lemma simulate_elect:
  assumes "configured plist C" and "distinct (map ID plist)" and "n \<in> server_ids plist"
    and "state (nodes C n) \<noteq> Leader" and "Suc (currentTerm (nodes C n)) < 2 ^ 64"
    and "candidate_start lops sops (follower_timeout (nodes C n)) = (r', req, targets, votes)"
  shows "estep (server_ids plist) (view C)
      (view ((put n r' C)\<lparr>ballots := (ballots C)(n := {n}), voteReqs := vr,
         vote_log := insert (rv_Term req, n, n) (vote_log C),
         leaders := (if state r' = Leader then insert (currentTerm r', n) (leaders C) else leaders C)\<rparr>))"
  unfolding elect_view(1) [OF assms(1-3,5,6)] stand_def
  by (rule e_elect [OF assms(3)]) (simp add: assms(4))

lemma vote_view:
  assumes "configured plist C" and "distinct (map ID plist)" and "n \<in> server_ids plist"
    and "state (nodes C n) = Candidate" and "v \<notin> ballots C n" and "finite (ballots C n)"
    and "rvr_VoteGranted resp" and "rvr_Term resp \<le> currentTerm (nodes C n)"
    and "candidate_vote sops (nodes C n) (card (ballots C n)) resp = (r', votes', d)"
  shows "view ((put n r' C)\<lparr>ballots := (if votes' = card (ballots C n) then ballots C
                                else (ballots C)(n := insert v (ballots C n))),
         leaders := (if state r' = Leader then insert (currentTerm r', n) (leaders C) else leaders C)\<rparr>) =
      crown (server_ids plist) n (count_vote n v (view C))" (is "view ?C' = _")
    "state r' = (if majority (server_ids plist) \<le> card (insert v (ballots C n)) then Leader else Candidate)"
    "r' = becomeLeader (nodes C n) \<or> r' = nodes C n"
proof -
  let ?S = "server_ids plist"
  have q: "quorum (nodes C n) = majority ?S" by (rule quorum_majority [OF assms(1-3)])
  have card: "card (insert v (ballots C n)) = card (ballots C n) + 1" using assms(5,6) by simp
  have "view ?C' = crown ?S n (count_vote n v (view C)) \<and>
      state r' = (if majority ?S \<le> card (insert v (ballots C n)) then Leader else Candidate) \<and>
      (r' = becomeLeader (nodes C n) \<or> r' = nodes C n)"
    using assms(9)
  proof (cases rule: candidate_vote_cases)
    case counted
    with assms(4) q card show ?thesis by (auto simp: view_def crown_def count_vote_def fun_eq_iff)
  next
    case won
    with assms(4) q card show ?thesis by (auto simp: view_def crown_def count_vote_def fun_eq_iff)
  qed (use assms(7,8) in simp_all)
  then show "view ?C' = crown ?S n (count_vote n v (view C))"
    "state r' = (if majority ?S \<le> card (insert v (ballots C n)) then Leader else Candidate)"
    "r' = becomeLeader (nodes C n) \<or> r' = nodes C n" by blast+
qed

lemma simulate_vote:
  assumes "configured plist C" and "distinct (map ID plist)" and "n \<in> server_ids plist"
    and "state (nodes C n) = Candidate" and "v \<notin> ballots C n" and "finite (ballots C n)"
    and "v \<in> server_ids plist" and "rvr_VoteGranted resp \<Longrightarrow> (currentTerm (nodes C n), v, n) \<in> vote_log C"
    and "candidate_vote sops (nodes C n) (card (ballots C n)) resp = (r', votes', d)"
  shows "(estep (server_ids plist))\<^sup>*\<^sup>* (view C)
      (view ((put n r' C)\<lparr>ballots := (if votes' = card (ballots C n) then ballots C
                                else (ballots C)(n := insert v (ballots C n))),
         leaders := (if state r' = Leader then insert (currentTerm r', n) (leaders C) else leaders C)\<rparr>))"
    (is "(estep ?S)\<^sup>*\<^sup>* _ (view ?C')")
proof -
  have count: "estep ?S (view C) (crown ?S n (count_vote n v (view C)))" if "rvr_VoteGranted resp"
    unfolding count_vote_def by (rule e_count [OF assms(3) _ assms(7)]) (use assms(4,8) that in simp_all)
  from assms(9) show ?thesis
  proof (cases rule: candidate_vote_cases)
    case newer
    with assms(9) have "votes' = card (ballots C n)" by (simp add: candidate_vote_def)
    with newer have "view ?C' = view (put n r' C)" by (simp add: view_def)
    with newer simulate_put_newer [OF assms(3) newer(1), of r'] show ?thesis by simp
  next
    case refused
    with assms(4) have "view ?C' = view C" by (auto simp: view_def fun_eq_iff)
    then show ?thesis by simp
  next
    case counted
    show ?thesis unfolding vote_view(1) [OF assms(1-6) counted(2,1) assms(9)]
      by (rule r_into_rtranclp [of "estep ?S", OF count [OF counted(2)]])
  next
    case won
    show ?thesis unfolding vote_view(1) [OF assms(1-6) won(2,1) assms(9)]
      by (rule r_into_rtranclp [of "estep ?S", OF count [OF won(2)]])
  qed
qed

lemma cstep_simulates:
  assumes "cstep lops sops fapply may_noop (server_ids plist) C C'" and "cinv plist C" and "distinct (map ID plist)"
  shows "(estep (server_ids plist))\<^sup>*\<^sup>* (view C) (view C')"
  using assms
proof (induction rule: cstep.induct)
  case (c_local n C r')
  show ?case by (rule simulate_put_same [OF local_step_same_vote [OF c_local(2)]])
next
  case (c_noop n C)
  show ?case by (rule simulate_put_same [OF same_vote_noop])
next
  case (c_elect n C r' req targets votes)
  show ?case
    by (rule r_into_rtranclp, rule simulate_elect [OF cinvD(2) [OF c_elect(5)] c_elect(6,1,2,3,4)])
next
  case (c_request n req C r' resp reset)
  have "rv_CandidateID req \<in> server_ids plist"
    using cinvD(4) [OF c_request(5)] c_request(2) by (simp add: messages_ok_def)
  from simulate_request [OF c_request(1) this c_request(3,4)] show ?case .
next
  case (c_vote n v req resp C r' votes' d)
  have b: "ballots C n \<subseteq> server_ids plist"
    using election_invD(1) [OF cinvD(1) [OF c_vote(9)]] c_vote(1,4) by (auto simp: roles_ok_def)
  have fin: "finite (ballots C n)" by (rule finite_subset [OF b]) simp
  have v: "v \<in> server_ids plist" "rvr_VoteGranted resp \<Longrightarrow> (currentTerm (nodes C n), v, n) \<in> vote_log C"
    using cinvD(4) [OF c_vote(9)] c_vote(2,3,5) by (auto simp: messages_ok_def)
  show ?case by (rule simulate_vote [OF cinvD(2) [OF c_vote(9)] c_vote(10,1,4,6) fin v c_vote(8)])
next
  case (c_send n C peer req)
  have "view (C\<lparr>appendReqs := insert req (appendReqs C)\<rparr>) = view C" by (simp add: view_def)
  then show ?case by simp
next
  case (c_append n req C r' resp reset)
  have "(ae_Term req, ae_LeaderID req) \<in> leaders C"
    using cinvD(4) [OF c_append(5)] c_append(2) by (simp add: messages_ok_def)
  from simulate_append [OF c_append(1) this c_append(3,4)] show ?case .
next
  case (c_reply n resp C live peer ents r' peer')
  from c_reply(3) show ?case
  proof (cases rule: replicate_response_cases)
    case 1
    then show ?thesis by (rule simulate_put_same)
  next
    case 2
    with simulate_put_newer [OF c_reply(1) 2(2), of r'] show ?thesis by simp
  qed
next
  case (c_shutdown n C)
  let ?r = "nodes C n"
  have "same_vote (?r\<lparr>shutdownCh := True, state := Follower\<rparr>) (fail_all ErrShutdown (?r\<lparr>shutdownCh := True, state := Follower\<rparr>))"
    by (rule same_vote_fail_all)
  then have "same_vote ?r (Shutdown ?r) \<or> currentTerm (Shutdown ?r) = currentTerm ?r \<and>
      votedFor (Shutdown ?r) = votedFor ?r \<and> state (Shutdown ?r) = Follower"
    by (simp add: Shutdown_def same_vote_def)
  then show ?case using simulate_put_same simulate_put_quit [OF c_shutdown(1)] by blast
next
  case (c_restart n C f r')
  have "persisted sops (nodes C n)" using cinvD(3) [OF c_restart(3) c_restart(1)] by (simp add: node_ok_def)
  with NewRaftNode_vote [OF c_restart(2)] simulate_put_quit [OF c_restart(1), of r' C] show ?case
    by (simp add: persisted_def)
qed

lemma messages_ok_grow:
  assumes "messages_ok servers C" and "voteReqs C' = voteReqs C" and "voteResps C' = voteResps C"
    and "appendReqs C' = appendReqs C" and "vote_log C \<subseteq> vote_log C'" and "leaders C \<subseteq> leaders C'"
  shows "messages_ok servers C'"
  using assms unfolding messages_ok_def by (auto 4 4)

lemma cstep_messages:
  assumes "cstep lops sops fapply may_noop (server_ids plist) C C'" and "cinv plist C"
  shows "messages_ok (server_ids plist) C'"
  using assms
proof (induction rule: cstep.induct)
  case (c_elect n C r' req targets votes)
  note m = cinvD(4) [OF c_elect(5)]
  have me: "ServerID (config (follower_timeout (nodes C n))) = n"
    using cinvD(2) [OF c_elect(5)] c_elect(1) by (auto simp: configured_def follower_timeout_def)
  have "rv_CandidateID req \<in> server_ids plist" "rv_Term req < 2 ^ 64"
    using candidate_start_cases(3,4) [OF c_elect(4)] me c_elect(1) by (simp_all add: u64_def)
  with m show ?case unfolding messages_ok_def by (auto 4 4)
next
  case (c_request n req C r' resp reset)
  note m = cinvD(4) [OF c_request(5)]
  then show ?case using c_request(1) unfolding messages_ok_def by (auto 4 4)
next
  case (c_send n C peer req)
  note m = cinvD(4) [OF c_send(3)]
  have l: "state (nodes C n) = Leader" and req: "ae_Term req = currentTerm (nodes C n)"
      "ae_LeaderID req = ServerID (config (nodes C n))"
    using c_send(2) by (auto simp: replicate_request_def Let_def split: if_splits)
  have "(currentTerm (nodes C n), n) \<in> leaders C"
    using election_invD(1) [OF cinvD(1) [OF c_send(3)]] l c_send(1) by (auto simp: roles_ok_def)
  moreover have "ServerID (config (nodes C n)) = n" "currentTerm (nodes C n) < 2 ^ 64"
    using cinvD(2,3) [OF c_send(3)] c_send(1) by (auto simp: configured_def node_ok_def)
  ultimately show ?case using m req unfolding messages_ok_def by simp
qed (rule messages_ok_grow [OF cinvD(4)], assumption, auto)+

lemma cinv_step:
  assumes "cstep lops sops fapply may_noop (server_ids plist) C C'" and "cinv plist C" and "distinct (map ID plist)"
    and "[] \<notin> server_ids plist"
  shows "cinv plist C'"
proof -
  note steps = cstep_nodes [OF assms(1) cinvD(4) [OF assms(2)]]
  have "election_inv (server_ids plist) (view C')"
    by (rule esteps_inv [OF _ assms(4) cstep_simulates [OF assms(1-3)] cinvD(1) [OF assms(2)]]) simp
  moreover have "configured plist C'"
    using cinvD(2) [OF assms(2)] node_steps_config [OF steps] by (simp add: configured_def)
  moreover have "\<forall>n \<in> server_ids plist. node_ok (nodes C' n)"
    using cinvD(3) [OF assms(2)] node_ok_reachable [OF steps] by blast
  ultimately show ?thesis using cstep_messages [OF assms(1,2)] by (simp add: cinv_def)
qed

lemma cinv_reachable:
  assumes "(cstep lops sops fapply may_noop (server_ids plist))\<^sup>*\<^sup>* C C'" and "cinv plist C"
    and "distinct (map ID plist)" and "[] \<notin> server_ids plist"
  shows "cinv plist C'"
  using assms(1,2) by (induction rule: rtranclp_induct) (auto intro: cinv_step [OF _ _ assms(3,4)])

lemma cinv_init:
  assumes "cluster_init sops plist C"
  shows "cinv plist C"
proof -
  have "election_inv (server_ids plist) (view C)"
    by (rule election_inv_init) (use assms in \<open>auto simp: cluster_init_def\<close>)
  with assms show ?thesis by (auto simp: cinv_def cluster_init_def messages_ok_def node_ok_def)
qed

lemma cluster_simulates:
  assumes "(cstep lops sops fapply may_noop (server_ids plist))\<^sup>*\<^sup>* C C'" and "cinv plist C"
    and "distinct (map ID plist)" and "[] \<notin> server_ids plist"
  shows "(estep (server_ids plist))\<^sup>*\<^sup>* (view C) (view C')"
  using assms(1)
proof (induction rule: rtranclp_induct)
  case (step D D')
  have "cinv plist D" by (rule cinv_reachable [OF step(1) assms(2-4)])
  from cstep_simulates [OF step(2) this assms(3)] step(3) show ?case by simp
qed simp

lemma cinv_one_leader:
  assumes "cinv plist C" and "n \<in> server_ids plist" and "m \<in> server_ids plist"
    and "state (nodes C n) = Leader" and "state (nodes C m) = Leader"
    and "currentTerm (nodes C n) = currentTerm (nodes C m)"
  shows "n = m"
proof -
  note inv = election_invD [OF cinvD(1) [OF assms(1)]]
  have "(currentTerm (nodes C n), n) \<in> leaders C" "(currentTerm (nodes C m), m) \<in> leaders C"
    using inv(1) assms(2-5) unfolding roles_ok_def by auto
  with inv(5) assms(6) show ?thesis unfolding one_leader_def by (metis view_simps(6))
qed

end

section \<open>An election of three servers\<close>

text \<open>Server \<open>"a"\<close> times out, \<open>"b"\<close> votes for it, and \<open>"a"\<close> counts the vote.\<close>

definition ex_cluster :: "(InmemLogStore, InmemStableStore, string list, nat) Cluster" where
  "ex_cluster = \<lparr>nodes = fresh_node, ballots = (\<lambda>_. {}), voteReqs = {}, voteResps = {}, appendReqs = {},
     vote_log = {}, leaders = {}\<rparr>"

lemma ex_servers: "server_ids three_peers = {''a'', ''b'', ''c''}" "distinct (map ID three_peers)"
  "[] \<notin> server_ids three_peers"
  by (auto simp: three_peers_def)

lemma ex_cluster_init: "cluster_init inmem_stable three_peers ex_cluster"
proof -
  have "persisted inmem_stable (fresh_node me)" for me
    by (simp add: persisted_def fresh_node_def ex_node_def inmem_stable_def inmem_GetUint64_def inmem_Get_def
        NewInmemStableStore_def)
  moreover have "ServerID (ex_config me) = me" "Peers (ex_config me) = three_peers" for me
    by (simp_all add: ex_config_def)
  ultimately show ?thesis
    by (simp add: cluster_init_def configured_def ex_cluster_def) (simp add: fresh_node_def)
qed

lemma mk_log_empty: "mk_log [] = NewInmemLogStore"
  by (simp add: mk_log_def inmem_StoreLogs_def)

lemma lastLogInfo_empty: "logStore r = NewInmemLogStore \<Longrightarrow> lastLogInfo inmem_log r = (0, 0)"
  by (simp add: lastLogInfo_def inmem_log_def inmem_LastIndex_def NewInmemLogStore_def)

definition ex_request :: RequestVoteRequest where
  "ex_request = \<lparr>rv_Term = 1, rv_CandidateID = ''a'', rv_LastLogIndex = 0, rv_LastLogTerm = 0\<rparr>"

definition ex_grant :: RequestVoteResponse where
  "ex_grant = \<lparr>rvr_Term = 1, rvr_VoteGranted = True\<rparr>"

lemma ex_start:
  "\<exists>r'. candidate_start inmem_log inmem_stable (follower_timeout (fresh_node ''a'')) =
      (r', ex_request, [''b:1'', ''c:1''], 1) \<and> state r' = Candidate \<and> currentTerm r' = 1 \<and>
      config r' = ex_config ''a''"
  by (simp add: candidate_start_def startElection_def Let_def lastLogInfo_empty follower_timeout_def
      fresh_node_def ex_node_def mk_log_empty quorum_def ex_config_def three_peers_def u64_def ex_request_def)

lemma ex_voted:
  "\<exists>r'. handleRequestVote inmem_log inmem_stable (fresh_node ''b'') ex_request = (r', ex_grant, True)"
  by (simp add: handleRequestVote_def ex_request_def ex_grant_def fresh_node_def Let_def lastLogInfo_empty
      mk_log_empty isLogUpToDate_def)

lemma ex_run:
  "\<exists>C. (cstep inmem_log inmem_stable recorder IsLeader (server_ids three_peers))\<^sup>*\<^sup>* ex_cluster C \<and>
     state (nodes C ''a'') = Leader \<and> currentTerm (nodes C ''a'') = 1"
proof -
  let ?step = "cstep inmem_log inmem_stable recorder IsLeader (server_ids three_peers)"
  have ids: "''a'' \<in> server_ids three_peers" "''b'' \<in> server_ids three_peers" by (simp_all add: ex_servers)
  obtain ra where ra: "candidate_start inmem_log inmem_stable (follower_timeout (fresh_node ''a'')) =
      (ra, ex_request, [''b:1'', ''c:1''], 1)" "state ra = Candidate" "currentTerm ra = 1" "config ra = ex_config ''a''"
    using ex_start by blast
  obtain rb where rb: "handleRequestVote inmem_log inmem_stable (fresh_node ''b'') ex_request = (rb, ex_grant, True)"
    using ex_voted by blast
  obtain C1 where C1: "?step ex_cluster C1" "nodes C1 = fresh_node(''a'' := ra)"
    "ballots C1 ''a'' = {''a''}" "voteReqs C1 = {ex_request}" "voteResps C1 = {}"
    using c_elect [OF ids(1), of ex_cluster inmem_log inmem_stable ra ex_request _ _ recorder IsLeader] ra
    by (auto simp: ex_cluster_def fresh_node_def)
  obtain C2 where C2: "?step C1 C2" "nodes C2 = fresh_node(''a'' := ra, ''b'' := rb)"
    "ballots C2 ''a'' = {''a''}" "voteResps C2 = {(''b'', ex_request, ex_grant)}"
    using c_request [OF ids(2), of ex_request C1 inmem_log inmem_stable rb ex_grant True recorder IsLeader] rb C1
    by (auto simp: ex_request_def)
  have q: "quorum ra = 2" by (simp add: quorum_def ra ex_config_def three_peers_def)
  then have v: "candidate_vote inmem_stable ra 1 ex_grant = (becomeLeader ra, 2, True)"
    using ra by (simp add: candidate_vote_def ex_grant_def)
  obtain C3 where C3: "?step C2 C3" "nodes C3 ''a'' = becomeLeader ra"
    using c_vote [OF ids(1), of "''b''" ex_request ex_grant C2 inmem_stable "becomeLeader ra" 2 True inmem_log recorder IsLeader]
      C2 ra v by (auto simp: ex_request_def ex_grant_def)
  have "?step\<^sup>*\<^sup>* ex_cluster C3"
    using C1(1) C2(1) C3(1) by (meson rtranclp.rtrancl_into_rtrancl rtranclp.rtrancl_refl)
  with C3(2) ra(3) show ?thesis by auto
qed

section \<open>Properties\<close>



text \<open>
  The cluster of nodes implements the abstract election protocol: every run of the handlers
  is, seen through the nodes' terms, votes and roles, a run of the protocol.
\<close>

theorem cluster_refines_protocol:
  assumes "distinct (map ID plist)" and "[] \<notin> server_ids plist"
    and "cluster_init inmem_stable plist C0"
    and "(cstep inmem_log inmem_stable fapply may_noop (server_ids plist))\<^sup>*\<^sup>* C0 C"
  shows "(estep (server_ids plist))\<^sup>*\<^sup>* (view C0) (view C)"
  using inmem_kv.cluster_simulates [OF assms(4) inmem_kv.cinv_init [OF assms(3)] assms(1,2)] .

theorem cluster_refines_protocol_witness:
  "\<exists>C :: (InmemLogStore, InmemStableStore, string list, nat) Cluster.
     (estep (server_ids three_peers))\<^sup>*\<^sup>* (view ex_cluster) (view C) \<and> st (view C) ''a'' = Leader"
proof -
  obtain C where C: "(cstep inmem_log inmem_stable recorder IsLeader (server_ids three_peers))\<^sup>*\<^sup>* ex_cluster C"
    "state (nodes C ''a'') = Leader" using ex_run by blast
  have "st (view C) ''a'' = Leader" using C(2) by (simp add: view_def)
  with cluster_refines_protocol [OF ex_servers(2,3) ex_cluster_init C(1)] show ?thesis by blast
qed

end
