(* ===== verification/Consensus_Spec.thy ===== *)
theory Consensus_Spec
  imports Election_Spec Raft_Replication "HOL-Library.Sublist"
begin

text \<open>
  The abstract protocol behind Raft's safety: the elections of \<^verbatim>\<open>Election_Spec\<close> together with
  logs, replication and commitment. Each server has a log and a commit index; everything else is
  history that only grows and that no step reads except through the messages it stands for:

  \<^item> \<open>tree\<close>: all logs that ever existed, with their prefixes;
  \<^item> \<open>reigns\<close>: the log a leader had when it was elected, by term;
  \<^item> \<open>asks\<close> and \<open>snaps\<close>: the log a candidate stood with, and the log of a server when it voted;
  \<^item> \<open>offers\<close>: the log a leader sent with its commit index; \<open>acks\<close>: what a server accepted.

  The theory shows that logs of one index and term agree (Log Matching), that a leader has
  everything that was committed in earlier terms (Leader Completeness), and that committed logs
  never contradict each other (State Machine Safety). The cluster implements these steps.
\<close>

section \<open>State and steps\<close>

record Consensus =
  el :: Election
  lg :: "string \<Rightarrow> LogEntry list"
  ci :: "string \<Rightarrow> nat"
  tree :: "LogEntry list set"
  reigns :: "(nat \<times> LogEntry list) set"
  asks :: "(nat \<times> string \<times> LogEntry list) set"
  snaps :: "(nat \<times> string \<times> string \<times> LogEntry list) set"
  offers :: "(nat \<times> LogEntry list \<times> nat) set"
  acks :: "(nat \<times> string \<times> LogEntry list) set"

definition lastTerm :: "LogEntry list \<Rightarrow> nat" where
  "lastTerm L = (if L = [] then 0 else Term (last L))"

definition newer_log :: "LogEntry list \<Rightarrow> LogEntry list \<Rightarrow> bool" where
  "newer_log L V \<longleftrightarrow> lastTerm V < lastTerm L \<or> lastTerm V = lastTerm L \<and> length V \<le> length L"

definition majority_of :: "string set \<Rightarrow> string set \<Rightarrow> bool" where
  "majority_of servers Q \<longleftrightarrow> Q \<subseteq> servers \<and> majority servers \<le> card Q"

abbreviation prefixes_of :: "nat \<Rightarrow> string \<Rightarrow> LogEntry list \<Rightarrow> (nat \<times> string \<times> LogEntry list) set" where
  "prefixes_of t v B \<equiv> {(t, v, A) | A. prefix A B}"

inductive xstep :: "string set \<Rightarrow> Consensus \<Rightarrow> Consensus \<Rightarrow> bool" for servers where
  x_stand: "n \<in> servers \<Longrightarrow> st (el X) n \<noteq> Leader \<Longrightarrow>
    xstep servers X (X\<lparr>el := stand n (el X), asks := insert (tm (el X) n + 1, n, lg X n) (asks X),
      snaps := insert (tm (el X) n + 1, n, n, lg X n) (snaps X)\<rparr>)"
| x_count: "c \<in> servers \<Longrightarrow> v \<in> servers \<Longrightarrow> st (el X) c = Candidate \<Longrightarrow> (tm (el X) c, v, c) \<in> cast (el X) \<Longrightarrow>
    xstep servers X (X\<lparr>el := count_vote c v (el X)\<rparr>)"
| x_crown: "n \<in> servers \<Longrightarrow> st (el X) n = Candidate \<Longrightarrow> majority servers \<le> card (ballot (el X) n) \<Longrightarrow>
    xstep servers X (X\<lparr>el := crown servers n (el X), reigns := insert (tm (el X) n, lg X n) (reigns X)\<rparr>)"
| x_newer: "n \<in> servers \<Longrightarrow> tm (el X) n < t \<Longrightarrow>
    xstep servers X (X\<lparr>el := (el X)\<lparr>tm := (tm (el X))(n := t), vt := (vt (el X))(n := []),
      st := (st (el X))(n := Follower)\<rparr>\<rparr>)"
| x_quit: "n \<in> servers \<Longrightarrow> xstep servers X (X\<lparr>el := (el X)\<lparr>st := (st (el X))(n := Follower)\<rparr>\<rparr>)"
| x_meet: "n \<in> servers \<Longrightarrow> (tm (el X) n, l) \<in> elected (el X) \<Longrightarrow> l \<noteq> n \<Longrightarrow> st (el X) n \<noteq> Follower \<Longrightarrow>
    xstep servers X (X\<lparr>el := (el X)\<lparr>vt := (vt (el X))(n := []), st := (st (el X))(n := Follower)\<rparr>\<rparr>)"
| x_grant: "n \<in> servers \<Longrightarrow> c \<in> servers \<Longrightarrow> c \<noteq> n \<Longrightarrow> vt (el X) n = [] \<or> vt (el X) n = c \<Longrightarrow>
    (tm (el X) n, c, L) \<in> asks X \<Longrightarrow> newer_log L (lg X n) \<Longrightarrow>
    xstep servers X (X\<lparr>el := (el X)\<lparr>vt := (vt (el X))(n := c), cast := insert (tm (el X) n, n, c) (cast (el X))\<rparr>,
      snaps := insert (tm (el X) n, n, c, lg X n) (snaps X)\<rparr>)"
| x_write: "n \<in> servers \<Longrightarrow> st (el X) n = Leader \<Longrightarrow> Term e = tm (el X) n \<Longrightarrow> Index e = Suc (length (lg X n)) \<Longrightarrow>
    xstep servers X (X\<lparr>lg := (lg X)(n := lg X n @ [e]), tree := insert (lg X n @ [e]) (tree X)\<rparr>)"
| x_offer: "n \<in> servers \<Longrightarrow> st (el X) n = Leader \<Longrightarrow>
    xstep servers X (X\<lparr>offers := insert (tm (el X) n, lg X n, ci X n) (offers X)\<rparr>)"
| x_accept: "n \<in> servers \<Longrightarrow> st (el X) n = Follower \<Longrightarrow> (tm (el X) n, B, c) \<in> offers X \<Longrightarrow>
    p \<le> length B \<Longrightarrow> p = 0 \<or> p \<le> length (lg X n) \<and> Term (lg X n ! (p - 1)) = Term (B ! (p - 1)) \<Longrightarrow>
    L' = appended (lg X n) p (drop p B) \<Longrightarrow>
    xstep servers X (X\<lparr>lg := (lg X)(n := L'),
      ci := (ci X)(n := if ci X n < c then min c (length L') else ci X n),
      acks := acks X \<union> prefixes_of (tm (el X) n) n B\<rparr>)"
| x_cut: "n \<in> servers \<Longrightarrow> st (el X) n = Follower \<Longrightarrow> (tm (el X) n, B, c) \<in> offers X \<Longrightarrow>
    q < length (lg X n) \<Longrightarrow> q < length B \<Longrightarrow> Term (lg X n ! q) \<noteq> Term (B ! q) \<Longrightarrow>
    xstep servers X (X\<lparr>lg := (lg X)(n := take q (lg X n))\<rparr>)"
| x_commit: "n \<in> servers \<Longrightarrow> st (el X) n = Leader \<Longrightarrow> 0 < k \<Longrightarrow> k \<le> length (lg X n) \<Longrightarrow>
    Term (lg X n ! (k - 1)) = tm (el X) n \<Longrightarrow> majority_of servers Q \<Longrightarrow>
    (\<And>v. v \<in> Q \<Longrightarrow> v = n \<or> (\<exists>A. (tm (el X) n, v, A) \<in> acks X \<and> k \<le> length A)) \<Longrightarrow>
    xstep servers X (X\<lparr>ci := (ci X)(n := k), acks := acks X \<union> prefixes_of (tm (el X) n) n (lg X n)\<rparr>)"
| x_restart: "n \<in> servers \<Longrightarrow>
    xstep servers X (X\<lparr>el := (el X)\<lparr>st := (st (el X))(n := Follower)\<rparr>, ci := (ci X)(n := 0)\<rparr>)"

section \<open>Trees of logs\<close>

definition log_tree :: "LogEntry list set \<Rightarrow> bool" where
  "log_tree T \<longleftrightarrow> [] \<in> T \<and> (\<forall>A \<in> T. \<forall>k. take k A \<in> T) \<and>
     (\<forall>A \<in> T. \<forall>B \<in> T. A \<noteq> [] \<and> B \<noteq> [] \<and> lastTerm A = lastTerm B \<longrightarrow> prefix A B \<or> prefix B A) \<and>
     (\<forall>A \<in> T. map Index A = [1..<Suc (length A)] \<and> sorted (map Term A) \<and> (\<forall>e \<in> set A. 0 < Term e))"

lemma log_treeD:
  assumes "log_tree T"
  shows "[] \<in> T" "A \<in> T \<Longrightarrow> take k A \<in> T"
    "A \<in> T \<Longrightarrow> B \<in> T \<Longrightarrow> A \<noteq> [] \<Longrightarrow> B \<noteq> [] \<Longrightarrow> lastTerm A = lastTerm B \<Longrightarrow> prefix A B \<or> prefix B A"
    "A \<in> T \<Longrightarrow> map Index A = [1..<Suc (length A)]" "A \<in> T \<Longrightarrow> sorted (map Term A)"
    "A \<in> T \<Longrightarrow> e \<in> set A \<Longrightarrow> 0 < Term e"
  using assms unfolding log_tree_def by blast+

lemma tree_prefix: "log_tree T \<Longrightarrow> B \<in> T \<Longrightarrow> prefix A B \<Longrightarrow> A \<in> T"
  by (metis append_eq_conv_conj log_treeD(2) prefix_def)

lemma lastTerm_pos: "log_tree T \<Longrightarrow> A \<in> T \<Longrightarrow> A \<noteq> [] \<Longrightarrow> 0 < lastTerm A"
  by (simp add: lastTerm_def log_treeD(6))

lemma last_take_Suc: "i < length A \<Longrightarrow> last (take (Suc i) A) = A ! i"
  by (simp add: take_Suc_conv_app_nth)

lemma prefix_same_length: "prefix A B \<or> prefix B A \<Longrightarrow> length A = length B \<Longrightarrow> A = B"
  by (auto simp: prefix_def)

lemma tree_matching:
  assumes "log_tree T" and "A \<in> T" and "B \<in> T"
  shows "log_matching A B"
  unfolding log_matching_def
proof (intro allI impI)
  fix i assume i: "i < min (length A) (length B)" and t: "Term (A ! i) = Term (B ! i)"
  let ?A = "take (Suc i) A" and ?B = "take (Suc i) B"
  have "lastTerm ?A = lastTerm ?B" using i t by (auto simp: lastTerm_def last_take_Suc)
  then have "prefix ?A ?B \<or> prefix ?B ?A"
    using i assms by (intro log_treeD(3) [OF assms(1)] log_treeD(2) [OF assms(1)]) auto
  then show "?A = ?B" by (rule prefix_same_length) (use i in simp)
qed

lemma tree_lastTerm_mono:
  assumes "log_tree T" and "B \<in> T" and "prefix A B"
  shows "lastTerm A \<le> lastTerm B"
proof (cases "A = []")
  case False
  from assms(3) obtain C where B: "B = A @ C" by (auto simp: prefix_def)
  from log_treeD(5) [OF assms(1,2)] B have "sorted (map Term A @ map Term C)" by simp
  then have "\<forall>e \<in> set C. Term (last A) \<le> Term e" using False by (auto simp: sorted_append)
  then show ?thesis using False B by (cases "C = []") (auto simp: lastTerm_def)
qed (simp add: lastTerm_def)

text \<open>One more entry, of a term that has nothing beyond the log it extends.\<close>

lemma tree_grow:
  assumes "log_tree T" and "L \<in> T" and "Index e = Suc (length L)" and "0 < Term e" and "lastTerm L \<le> Term e"
    and "\<And>A. A \<in> T \<Longrightarrow> A \<noteq> [] \<Longrightarrow> lastTerm A = Term e \<Longrightarrow> prefix A L"
  shows "log_tree (insert (L @ [e]) T)"
proof -
  let ?N = "L @ [e]"
  note tD = log_treeD [OF assms(1)]
  have "take k ?N \<in> insert ?N T" for k
    using tD(2) [OF assms(2), of k] by (cases "k \<le> length L") simp_all
  then have 2: "\<forall>A \<in> insert ?N T. \<forall>k. take k A \<in> insert ?N T" using tD(2) by blast
  have new: "prefix A ?N" if "A \<in> T" "A \<noteq> []" "lastTerm A = lastTerm ?N" for A
    using that assms(6) [of A] by (simp add: lastTerm_def)
  have 3: "\<forall>A \<in> insert ?N T. \<forall>B \<in> insert ?N T. A \<noteq> [] \<and> B \<noteq> [] \<and> lastTerm A = lastTerm B \<longrightarrow>
      prefix A B \<or> prefix B A"
    using new tD(3) by (metis insertE prefix_order.order_refl)
  have idx: "map Index ?N = [1..<Suc (length ?N)]" using tD(4) [OF assms(2)] assms(3) by simp
  have srt: "sorted (map Term ?N)"
  proof -
    have "Term x \<le> Term e" if "x \<in> set L" for x
    proof -
      from that have ne: "L \<noteq> []" by auto
      from that obtain i where i: "i < length L" "x = L ! i" by (auto simp: in_set_conv_nth)
      with sorted_nth_mono [OF tD(5) [OF assms(2)], of i "length L - 1"]
      have "Term x \<le> Term (last L)" using ne by (simp add: last_conv_nth)
      with assms(5) ne show ?thesis by (simp add: lastTerm_def)
    qed
    with tD(5) [OF assms(2)] show ?thesis by (simp add: sorted_append)
  qed
  have pos: "\<forall>x \<in> set ?N. 0 < Term x" using tD(6) [OF assms(2)] assms(4) by auto
  have 4: "\<forall>A \<in> insert ?N T. map Index A = [1..<Suc (length A)] \<and> sorted (map Term A) \<and> (\<forall>x \<in> set A. 0 < Term x)"
    using tD(4-6) idx srt pos by blast
  show ?thesis unfolding log_tree_def using tD(1) 2 3 4 by blast
qed

text \<open>What a follower's log becomes: nothing changes if it has the offered log, else it is that log.\<close>

lemma appended_tree:
  assumes "log_tree T" and "L \<in> T" and "B \<in> T" and "p \<le> length B"
    and "p = 0 \<or> p \<le> length L \<and> Term (L ! (p - 1)) = Term (B ! (p - 1))"
  shows "appended L p (drop p B) = (if prefix B L then L else B)"
proof -
  have m: "log_matching L B" by (rule tree_matching [OF assms(1-3)])
  note agree = prev_agreement [OF m assms(4,5)]
  have es: "drop p B = take (length B) (drop p B)" by simp
  have len: "p + length (drop p B) = length B" using assms(4) by simp
  show ?thesis
  proof (cases "prefix B L")
    case True
    then have "take (length B) L = take (length B) B" by (auto simp: prefix_def)
    with appended_id [OF m agree es] len True show ?thesis by simp
  next
    case False
    then have "take (length B) L \<noteq> B" by (metis take_is_prefix)
    with appended_prefix [OF m agree es] len False show ?thesis by auto
  qed
qed

section \<open>The invariant\<close>

text \<open>
  \<open>reign_log X t B\<close>: \<open>B\<close> is a log the leader of term \<open>t\<close> had during its reign.
  \<open>kept X t u A V\<close>: \<open>A\<close>, which a server accepted in term \<open>t\<close>, is still in its log \<open>V\<close> in term \<open>u\<close>,
  unless a leader without \<open>A\<close> was elected in between.
\<close>

definition reign_log :: "Consensus \<Rightarrow> nat \<Rightarrow> LogEntry list \<Rightarrow> bool" where
  "reign_log X t B \<longleftrightarrow> B \<in> tree X \<and> (\<exists>E. (t, E) \<in> reigns X \<and> prefix E B \<and> (B = E \<or> lastTerm B = t))"

definition kept :: "Consensus \<Rightarrow> nat \<Rightarrow> nat \<Rightarrow> LogEntry list \<Rightarrow> LogEntry list \<Rightarrow> bool" where
  "kept X t u A V \<longleftrightarrow> prefix A V \<or> (\<exists>w E. t < w \<and> w \<le> u \<and> (w, E) \<in> reigns X \<and> \<not> prefix A E)"

definition committed :: "string set \<Rightarrow> Consensus \<Rightarrow> nat \<Rightarrow> LogEntry list \<Rightarrow> bool" where
  "committed servers X t A \<longleftrightarrow> A \<noteq> [] \<and> A \<in> tree X \<and> lastTerm A = t \<and>
     (\<exists>Q. majority_of servers Q \<and> (\<forall>v \<in> Q. (t, v, A) \<in> acks X))"

definition safe :: "string set \<Rightarrow> Consensus \<Rightarrow> nat \<Rightarrow> LogEntry list \<Rightarrow> bool" where
  "safe servers X u B \<longleftrightarrow> B = [] \<or> (\<exists>t A. t \<le> u \<and> committed servers X t A \<and> prefix B A)"

definition reigns_ok :: "Consensus \<Rightarrow> bool" where
  "reigns_ok X \<longleftrightarrow>
     (\<forall>t E. (t, E) \<in> reigns X \<longrightarrow> E \<in> tree X \<and> lastTerm E < t \<and> (\<exists>l. (t, l) \<in> elected (el X)) \<and>
        (\<forall>E'. (t, E') \<in> reigns X \<longrightarrow> E' = E)) \<and>
     (\<forall>A \<in> tree X. A \<noteq> [] \<longrightarrow> (\<exists>E. (lastTerm A, E) \<in> reigns X \<and> prefix E A))"

definition logs_ok :: "string set \<Rightarrow> Consensus \<Rightarrow> bool" where
  "logs_ok servers X \<longleftrightarrow>
     (\<forall>n \<in> servers. lg X n \<in> tree X \<and> lastTerm (lg X n) \<le> tm (el X) n) \<and>
     (\<forall>n \<in> servers. st (el X) n = Leader \<longrightarrow> reign_log X (tm (el X) n) (lg X n) \<and>
        (\<forall>A \<in> tree X. A \<noteq> [] \<and> lastTerm A = tm (el X) n \<longrightarrow> prefix A (lg X n)))"

definition asks_ok :: "string set \<Rightarrow> Consensus \<Rightarrow> bool" where
  "asks_ok servers X \<longleftrightarrow>
     (\<forall>n \<in> servers. st (el X) n = Candidate \<longrightarrow>
        (tm (el X) n, n) \<notin> elected (el X) \<and> (tm (el X) n, n, lg X n) \<in> asks X) \<and>
     (\<forall>t c L. (t, c, L) \<in> asks X \<longrightarrow> 0 < t \<and> t \<le> tm (el X) c \<and> (\<forall>L'. (t, c, L') \<in> asks X \<longrightarrow> L' = L))"

definition offers_ok :: "string set \<Rightarrow> Consensus \<Rightarrow> bool" where
  "offers_ok servers X \<longleftrightarrow>
     (\<forall>t B c. (t, B, c) \<in> offers X \<longrightarrow> reign_log X t B \<and> c \<le> length B \<and> safe servers X t (take c B))"

definition ack_ok :: "Consensus \<Rightarrow> nat \<Rightarrow> string \<Rightarrow> LogEntry list \<Rightarrow> bool" where
  "ack_ok X t v A \<longleftrightarrow> t \<le> tm (el X) v \<and> (\<exists>B. reign_log X t B \<and> prefix A B) \<and>
     kept X t (tm (el X) v) A (lg X v) \<and> (\<forall>A'. prefix A' A \<longrightarrow> (t, v, A') \<in> acks X)"

definition acks_ok :: "Consensus \<Rightarrow> bool" where
  "acks_ok X \<longleftrightarrow> (\<forall>t v A. (t, v, A) \<in> acks X \<longrightarrow> ack_ok X t v A)"

definition snap_ok :: "Consensus \<Rightarrow> nat \<Rightarrow> string \<Rightarrow> string \<Rightarrow> LogEntry list \<Rightarrow> bool" where
  "snap_ok X u v c V \<longleftrightarrow> u \<le> tm (el X) v \<and> V \<in> tree X \<and> (\<exists>L. (u, c, L) \<in> asks X \<and> newer_log L V) \<and>
     (\<forall>t A. (t, v, A) \<in> acks X \<and> t < u \<longrightarrow> kept X t u A V)"

definition snaps_ok :: "Consensus \<Rightarrow> bool" where
  "snaps_ok X \<longleftrightarrow>
     (\<forall>u v c. (u, v, c) \<in> cast (el X) \<longrightarrow> (\<exists>V. (u, v, c, V) \<in> snaps X)) \<and>
     (\<forall>u v c V. (u, v, c, V) \<in> snaps X \<longrightarrow> snap_ok X u v c V)"

text \<open>The votes of a majority that made a leader.\<close>

definition mandate :: "Consensus \<Rightarrow> nat \<Rightarrow> LogEntry list \<Rightarrow> string \<Rightarrow> bool" where
  "mandate X u E v \<longleftrightarrow> u \<le> tm (el X) v \<and> (\<exists>V \<in> tree X. newer_log E V \<and>
     (\<forall>t A. (t, v, A) \<in> acks X \<and> t < u \<longrightarrow> kept X t (u - 1) A V))"

definition mandates_ok :: "string set \<Rightarrow> Consensus \<Rightarrow> bool" where
  "mandates_ok servers X \<longleftrightarrow>
     (\<forall>u E. (u, E) \<in> reigns X \<longrightarrow> (\<exists>Q. majority_of servers Q \<and> (\<forall>v \<in> Q. mandate X u E v)))"

definition commits_ok :: "string set \<Rightarrow> Consensus \<Rightarrow> bool" where
  "commits_ok servers X \<longleftrightarrow>
     (\<forall>n \<in> servers. ci X n \<le> length (lg X n) \<and> safe servers X (tm (el X) n) (take (ci X n) (lg X n)))"

definition xinv :: "string set \<Rightarrow> Consensus \<Rightarrow> bool" where
  "xinv servers X \<longleftrightarrow> election_inv servers (el X) \<and> log_tree (tree X) \<and> reigns_ok X \<and> logs_ok servers X \<and>
     asks_ok servers X \<and> offers_ok servers X \<and> acks_ok X \<and> snaps_ok X \<and> mandates_ok servers X \<and>
     commits_ok servers X"

lemma xinvD:
  assumes "xinv servers X"
  shows "election_inv servers (el X)" "log_tree (tree X)" "reigns_ok X" "logs_ok servers X" "asks_ok servers X"
    "offers_ok servers X" "acks_ok X" "snaps_ok X" "mandates_ok servers X" "commits_ok servers X"
  using assms by (simp_all add: xinv_def)

lemma reigns_okD:
  assumes "reigns_ok X"
  shows "(t, E) \<in> reigns X \<Longrightarrow> E \<in> tree X" "(t, E) \<in> reigns X \<Longrightarrow> lastTerm E < t"
    "(t, E) \<in> reigns X \<Longrightarrow> \<exists>l. (t, l) \<in> elected (el X)" "(t, E) \<in> reigns X \<Longrightarrow> (t, E') \<in> reigns X \<Longrightarrow> E' = E"
    "A \<in> tree X \<Longrightarrow> A \<noteq> [] \<Longrightarrow> \<exists>E. (lastTerm A, E) \<in> reigns X \<and> prefix E A"
  using assms unfolding reigns_ok_def by blast+

lemma logs_okD:
  assumes "logs_ok servers X" and "n \<in> servers"
  shows "lg X n \<in> tree X" "lastTerm (lg X n) \<le> tm (el X) n"
    "st (el X) n = Leader \<Longrightarrow> reign_log X (tm (el X) n) (lg X n)"
    "st (el X) n = Leader \<Longrightarrow> A \<in> tree X \<Longrightarrow> A \<noteq> [] \<Longrightarrow> lastTerm A = tm (el X) n \<Longrightarrow> prefix A (lg X n)"
  using assms unfolding logs_ok_def by blast+

lemma acks_okD:
  assumes "acks_ok X" and "(t, v, A) \<in> acks X"
  shows "t \<le> tm (el X) v" "\<exists>B. reign_log X t B \<and> prefix A B" "kept X t (tm (el X) v) A (lg X v)"
    "prefix A' A \<Longrightarrow> (t, v, A') \<in> acks X"
  using assms unfolding acks_ok_def ack_ok_def by blast+

lemma snaps_okD:
  assumes "snaps_ok X"
  shows "(u, v, c) \<in> cast (el X) \<Longrightarrow> \<exists>V. (u, v, c, V) \<in> snaps X"
    "(u, v, c, V) \<in> snaps X \<Longrightarrow> u \<le> tm (el X) v" "(u, v, c, V) \<in> snaps X \<Longrightarrow> V \<in> tree X"
    "(u, v, c, V) \<in> snaps X \<Longrightarrow> \<exists>L. (u, c, L) \<in> asks X \<and> newer_log L V"
    "(u, v, c, V) \<in> snaps X \<Longrightarrow> (t, v, A) \<in> acks X \<Longrightarrow> t < u \<Longrightarrow> kept X t u A V"
  using assms unfolding snaps_ok_def snap_ok_def by blast+

lemma offers_okD:
  assumes "offers_ok servers X" and "(t, B, c) \<in> offers X"
  shows "reign_log X t B" "c \<le> length B" "safe servers X t (take c B)"
  using assms unfolding offers_ok_def by blast+

lemma asks_okD:
  assumes "asks_ok servers X"
  shows "n \<in> servers \<Longrightarrow> st (el X) n = Candidate \<Longrightarrow> (tm (el X) n, n) \<notin> elected (el X)"
    "n \<in> servers \<Longrightarrow> st (el X) n = Candidate \<Longrightarrow> (tm (el X) n, n, lg X n) \<in> asks X"
    "(t, c, L) \<in> asks X \<Longrightarrow> t \<le> tm (el X) c" "(t, c, L) \<in> asks X \<Longrightarrow> (t, c, L') \<in> asks X \<Longrightarrow> L' = L"
    "(t, c, L) \<in> asks X \<Longrightarrow> 0 < t"
  using assms unfolding asks_ok_def by blast+

section \<open>What the invariant gives\<close>

text \<open>The logs of one reign are comparable, with each other and with all logs that end in its term.\<close>

lemma reign_logs_comparable:
  assumes "log_tree (tree X)" and "reigns_ok X" and "reign_log X t A" and "reign_log X t B"
  shows "prefix A B \<or> prefix B A"
proof -
  from assms(3,4) obtain E F where E: "(t, E) \<in> reigns X" "prefix E A" "A = E \<or> lastTerm A = t" "A \<in> tree X"
    and F: "(t, F) \<in> reigns X" "prefix F B" "B = F \<or> lastTerm B = t" "B \<in> tree X"
    by (auto simp: reign_log_def)
  note rD = reigns_okD [OF assms(2)]
  have "F = E" by (rule rD(4) [OF E(1) F(1)])
  moreover have "t \<noteq> 0" using rD(2) [OF E(1)] by simp
  moreover have "lastTerm [] = 0" by (simp add: lastTerm_def)
  ultimately show ?thesis
    using E F log_treeD(3) [OF assms(1), of A B] by metis
qed

lemma reign_log_last:
  assumes "reigns_ok X" and "A \<in> tree X" and "A \<noteq> []"
  shows "reign_log X (lastTerm A) A"
  using reigns_okD(5) [OF assms] assms(2) by (auto simp: reign_log_def)

lemma newer_log_prefix:
  assumes "log_tree T" and "E \<in> T" and "V \<in> T" and "newer_log E V" and "lastTerm E = lastTerm V"
  shows "prefix V E"
proof (cases "V = []")
  case False
  then have "E \<noteq> []" using assms(5) lastTerm_pos [OF assms(1,3)] by (auto simp: lastTerm_def)
  with False log_treeD(3) [OF assms(1-3)] assms(5) have "prefix E V \<or> prefix V E" by simp
  moreover have "length V \<le> length E" using assms(4,5) by (simp add: newer_log_def)
  ultimately show ?thesis by (metis prefix_length_le prefix_same_length order_antisym)
qed simp

text \<open>Leader Completeness: a leader has everything that was committed in earlier terms.\<close>

lemma leader_completeness:
  assumes "finite servers" and "xinv servers X" and "committed servers X t A"
  shows "(u, E) \<in> reigns X \<Longrightarrow> t < u \<Longrightarrow> prefix A E"
proof (induction u arbitrary: E rule: less_induct)
  case (less u)
  note tr = xinvD(2) [OF assms(2)] and rD = reigns_okD [OF xinvD(3) [OF assms(2)]]
  from assms(3) obtain Q where A: "A \<noteq> []" "A \<in> tree X" "lastTerm A = t"
    and Q: "majority_of servers Q" "\<And>v. v \<in> Q \<Longrightarrow> (t, v, A) \<in> acks X" by (auto simp: committed_def)
  from xinvD(9) [OF assms(2)] less.prems(1) obtain R where R: "majority_of servers R" "\<And>v. v \<in> R \<Longrightarrow> mandate X u E v"
    unfolding mandates_ok_def by blast
  obtain v where v: "v \<in> Q" "v \<in> R"
    using majorities_meet [OF assms(1), of Q R] Q(1) R(1) by (auto simp: majority_of_def)
  from R(2) [OF v(2)] obtain V where V: "V \<in> tree X" "newer_log E V" "kept X t (u - 1) A V"
    using Q(2) [OF v(1)] less.prems(2) unfolding mandate_def by blast
  have AV: "prefix A V"
    using V(3) less.IH less.prems(2) unfolding kept_def by (metis Suc_pred' gr_zeroI less_Suc_eq_le not_less0)
  have E: "E \<in> tree X" "lastTerm E < u" using rD(1,2) [OF less.prems(1)] .
  have tV: "t \<le> lastTerm V" using tree_lastTerm_mono [OF tr V(1) AV] A(3) by simp
  consider "lastTerm E = lastTerm V" | "lastTerm V < lastTerm E" using V(2) unfolding newer_log_def by linarith
  then show ?case
  proof cases
    case 1
    from newer_log_prefix [OF tr E(1) V(1,2) 1] AV show ?thesis by (rule prefix_order.trans [rotated])
  next
    case 2
    then have "E \<noteq> []" by (auto simp: lastTerm_def)
    with rD(5) [OF E(1)] obtain F where F: "(lastTerm E, F) \<in> reigns X" "prefix F E" by blast
    have "prefix A F" by (rule less.IH [OF E(2) F(1)]) (use 2 tV in simp)
    with F(2) show ?thesis by (blast intro: prefix_order.trans)
  qed
qed

lemma committed_comparable:
  assumes "finite servers" and "xinv servers X" and "committed servers X t A" and "committed servers X u B"
    and "t \<le> u"
  shows "prefix A B \<or> prefix B A"
proof (cases "t = u")
  case True
  with assms(3,4) show ?thesis using log_treeD(3) [OF xinvD(2) [OF assms(2)], of A B] by (auto simp: committed_def)
next
  case False
  from assms(4) have "B \<in> tree X" "B \<noteq> []" "lastTerm B = u" by (auto simp: committed_def)
  with reigns_okD(5) [OF xinvD(3) [OF assms(2)], of B] obtain E where E: "(u, E) \<in> reigns X" "prefix E B" by blast
  have "prefix A E" by (rule leader_completeness [OF assms(1-3) E(1)]) (use False assms(5) in simp)
  with E(2) show ?thesis by (blast intro: prefix_order.trans)
qed

text \<open>State Machine Safety: what two servers regard as committed does not conflict.\<close>

lemma safe_comparable:
  assumes "finite servers" and "xinv servers X" and "safe servers X u A" and "safe servers X w B"
  shows "prefix A B \<or> prefix B A"
proof (cases "A = [] \<or> B = []")
  case False
  with assms(3,4) obtain t1 A1 t2 A2 where c: "committed servers X t1 A1" "prefix A A1"
    "committed servers X t2 A2" "prefix B A2" by (auto simp: safe_def)
  have "prefix A1 A2 \<or> prefix A2 A1"
    using committed_comparable [OF assms(1,2) c(1,3)] committed_comparable [OF assms(1,2) c(3,1)]
    by (cases "t1 \<le> t2") auto
  with c(2,4) show ?thesis by (metis prefix_order.trans prefix_same_cases)
qed auto

lemma commits_comparable:
  assumes "finite servers" and "xinv servers X" and "n \<in> servers" and "m \<in> servers" and "ci X n \<le> ci X m"
  shows "take (ci X n) (lg X n) = take (ci X n) (lg X m)"
proof -
  from xinvD(10) [OF assms(2)] assms(3,4) have c: "ci X n \<le> length (lg X n)" "ci X m \<le> length (lg X m)"
    "safe servers X (tm (el X) n) (take (ci X n) (lg X n))" "safe servers X (tm (el X) m) (take (ci X m) (lg X m))"
    by (auto simp: commits_ok_def)
  let ?A = "take (ci X n) (lg X n)" and ?B = "take (ci X m) (lg X m)"
  have "prefix ?A ?B \<or> prefix ?B ?A" by (rule safe_comparable [OF assms(1,2) c(3,4)])
  then have "prefix ?A ?B"
    using c(1,2) assms(5) prefix_length_le [of ?B ?A] prefix_same_length [of ?A ?B] by auto
  then have "?A = take (length ?A) ?B" by (metis append_eq_conv_conj prefix_def)
  with c(1) assms(5) show ?thesis by (simp add: min_def)
qed

section \<open>Every step keeps the invariant\<close>

text \<open>What grows with the history.\<close>

lemma reign_log_mono:
  "reign_log X t B \<Longrightarrow> tree X \<subseteq> tree X' \<Longrightarrow> reigns X \<subseteq> reigns X' \<Longrightarrow> reign_log X' t B"
  by (auto simp: reign_log_def)

lemma kept_mono: "kept X t u A V \<Longrightarrow> reigns X \<subseteq> reigns X' \<Longrightarrow> u \<le> u' \<Longrightarrow> kept X' t u' A V"
  unfolding kept_def by (metis order.trans subsetD)

lemma committed_mono: "committed servers X t A \<Longrightarrow> tree X \<subseteq> tree X' \<Longrightarrow> acks X \<subseteq> acks X' \<Longrightarrow> committed servers X' t A"
  unfolding committed_def by blast

lemma safe_mono:
  "safe servers X u B \<Longrightarrow> tree X \<subseteq> tree X' \<Longrightarrow> acks X \<subseteq> acks X' \<Longrightarrow> u \<le> u' \<Longrightarrow> safe servers X' u' B"
  unfolding safe_def using committed_mono order.trans by blast

lemma mandate_mono:
  assumes "mandate X u E v" and "tree X \<subseteq> tree X'" and "reigns X \<subseteq> reigns X'" and "tm (el X) v \<le> tm (el X') v"
    and "\<And>t A. (t, v, A) \<in> acks X' \<Longrightarrow> (t, v, A) \<in> acks X \<or> u \<le> t"
  shows "mandate X' u E v"
proof -
  from assms(1) obtain V where V: "u \<le> tm (el X) v" "V \<in> tree X" "newer_log E V"
    "\<And>t A. (t, v, A) \<in> acks X \<Longrightarrow> t < u \<Longrightarrow> kept X t (u - 1) A V" unfolding mandate_def by blast
  have "kept X' t (u - 1) A V" if "(t, v, A) \<in> acks X'" "t < u" for t A
    using assms(5) [OF that(1)] that(2) V(4) [of t A] kept_mono [OF _ assms(3) order.refl] by auto
  moreover have "u \<le> tm (el X') v" using V(1) assms(4) by simp
  ultimately show ?thesis using V(2,3) assms(2) unfolding mandate_def by blast
qed

lemma mandates_ok_mono:
  assumes "mandates_ok servers X" and "tree X \<subseteq> tree X'" and "reigns X' = reigns X"
    and "\<And>v. tm (el X) v \<le> tm (el X') v" and "\<And>t v A. (t, v, A) \<in> acks X' \<Longrightarrow> (t, v, A) \<in> acks X \<or> tm (el X) v \<le> t"
  shows "mandates_ok servers X'"
  unfolding mandates_ok_def
proof (intro allI impI)
  fix u E assume "(u, E) \<in> reigns X'"
  with assms(1,3) obtain Q where Q: "majority_of servers Q" "\<And>v. v \<in> Q \<Longrightarrow> mandate X u E v"
    unfolding mandates_ok_def by metis
  have "mandate X' u E v" if "v \<in> Q" for v
  proof (rule mandate_mono [OF Q(2) [OF that] assms(2)])
    show "(t, v, A) \<in> acks X \<or> u \<le> t" if "(t, v, A) \<in> acks X'" for t A
      using assms(5) [OF that] Q(2) [OF \<open>v \<in> Q\<close>] by (auto simp: mandate_def)
  qed (use assms(3,4) in auto)
  with Q(1) show "\<exists>Q. majority_of servers Q \<and> (\<forall>v \<in> Q. mandate X' u E v)" by blast
qed

lemma elected_tm:
  assumes "election_inv servers E" and "(t, l) \<in> elected E"
  shows "t \<le> tm E l"
proof -
  from assms election_invD(4) have "(t, l, l) \<in> cast E" unfolding elected_ok_def by blast
  then show ?thesis by (rule votes_okD(3) [OF election_invD(2) [OF assms(1)]])
qed

lemma commits_ok_mono:
  assumes "commits_ok servers X" and "tree X \<subseteq> tree X'" and "acks X \<subseteq> acks X'"
    and "\<And>n. n \<in> servers \<Longrightarrow> tm (el X) n \<le> tm (el X') n"
    and "\<And>n. n \<in> servers \<Longrightarrow> lg X' n = lg X n \<and> (ci X' n = ci X n \<or> ci X' n = 0)"
  shows "commits_ok servers X'"
  unfolding commits_ok_def
proof (intro ballI conjI)
  fix n assume n: "n \<in> servers"
  with assms(1) have c: "ci X n \<le> length (lg X n)" "safe servers X (tm (el X) n) (take (ci X n) (lg X n))"
    by (auto simp: commits_ok_def)
  show "ci X' n \<le> length (lg X' n)" using assms(5) [OF n] c(1) by auto
  show "safe servers X' (tm (el X') n) (take (ci X' n) (lg X' n))"
    using assms(5) [OF n] safe_mono [OF c(2) assms(2,3) assms(4) [OF n]] by (auto simp: safe_def)
qed

lemma offers_ok_mono:
  assumes "offers_ok servers X" and "tree X \<subseteq> tree X'" and "reigns X \<subseteq> reigns X'" and "acks X \<subseteq> acks X'"
    and "offers X' = offers X"
  shows "offers_ok servers X'"
  using assms reign_log_mono safe_mono order.refl unfolding offers_ok_def by metis

lemma acks_ok_mono:
  assumes "acks_ok X" and "tree X \<subseteq> tree X'" and "reigns X \<subseteq> reigns X'" and "\<And>v. tm (el X) v \<le> tm (el X') v"
    and "acks X \<subseteq> acks X'"
    and "\<And>t v A. (t, v, A) \<in> acks X \<Longrightarrow> prefix A (lg X v) \<Longrightarrow> lg X' v \<noteq> lg X v \<Longrightarrow> kept X' t (tm (el X') v) A (lg X' v)"
    and "\<And>t v A. (t, v, A) \<in> acks X' \<Longrightarrow> (t, v, A) \<in> acks X \<or> ack_ok X' t v A"
  shows "acks_ok X'"
  unfolding acks_ok_def
proof (intro allI impI)
  fix t v A assume "(t, v, A) \<in> acks X'"
  from assms(7) [OF this] show "ack_ok X' t v A"
  proof
    assume a: "(t, v, A) \<in> acks X"
    note aD = acks_okD [OF assms(1) a]
    have "t \<le> tm (el X') v" using aD(1) assms(4) [of v] by simp
    moreover have "\<exists>B. reign_log X' t B \<and> prefix A B" using aD(2) reign_log_mono [OF _ assms(2,3)] by blast
    moreover have "kept X' t (tm (el X') v) A (lg X' v)"
      using kept_mono [OF aD(3) assms(3) assms(4)] assms(6) [OF a] by (cases "prefix A (lg X v)"; cases "lg X' v = lg X v")
        (auto simp: kept_def)
    ultimately show ?thesis using aD(4) assms(5) unfolding ack_ok_def by blast
  qed
qed

lemma snap_ok_mono:
  assumes "snap_ok X u v c V" and "tree X \<subseteq> tree X'" and "reigns X \<subseteq> reigns X'" and "asks X \<subseteq> asks X'"
    and "tm (el X) v \<le> tm (el X') v" and "\<And>t A. (t, v, A) \<in> acks X' \<Longrightarrow> (t, v, A) \<in> acks X \<or> tm (el X) v \<le> t"
  shows "snap_ok X' u v c V"
proof -
  from assms(1) have s: "u \<le> tm (el X) v" "V \<in> tree X" "\<exists>L. (u, c, L) \<in> asks X \<and> newer_log L V"
    "\<And>t A. (t, v, A) \<in> acks X \<Longrightarrow> t < u \<Longrightarrow> kept X t u A V" by (auto simp: snap_ok_def)
  have "kept X' t u A V" if "(t, v, A) \<in> acks X'" "t < u" for t A
    using assms(6) [OF that(1)] that(2) s(1) kept_mono [OF s(4) [of t A] assms(3) order.refl] by auto
  with s(1-3) assms(2,4,5) show ?thesis unfolding snap_ok_def by force
qed

lemma snaps_ok_mono:
  assumes "snaps_ok X" and "tree X \<subseteq> tree X'" and "reigns X \<subseteq> reigns X'" and "asks X \<subseteq> asks X'"
    and "\<And>v. tm (el X) v \<le> tm (el X') v"
    and "\<And>t v A. (t, v, A) \<in> acks X' \<Longrightarrow> (t, v, A) \<in> acks X \<or> tm (el X) v \<le> t" and "snaps X \<subseteq> snaps X'"
    and "\<And>u v c. (u, v, c) \<in> cast (el X') \<Longrightarrow> (u, v, c) \<in> cast (el X) \<or> (\<exists>V. (u, v, c, V) \<in> snaps X')"
    and "\<And>u v c V. (u, v, c, V) \<in> snaps X' \<Longrightarrow> (u, v, c, V) \<in> snaps X \<or> snap_ok X' u v c V"
  shows "snaps_ok X'"
proof -
  have "\<exists>V. (u, v, c, V) \<in> snaps X'" if "(u, v, c) \<in> cast (el X')" for u v c
    using assms(8) [OF that] snaps_okD(1) [OF assms(1)] assms(7) by blast
  moreover have "snap_ok X' u v c V" if "(u, v, c, V) \<in> snaps X'" for u v c V
    using assms(9) [OF that]
  proof
    assume "(u, v, c, V) \<in> snaps X"
    then have "snap_ok X u v c V" using assms(1) by (simp add: snaps_ok_def)
    then show ?thesis by (rule snap_ok_mono [OF _ assms(2-5)]) (rule assms(6))
  qed
  ultimately show ?thesis by (simp add: snaps_ok_def)
qed

lemma logs_ok_mono:
  assumes "logs_ok servers X" and "tree X' = tree X" and "reigns X \<subseteq> reigns X'" and "lg X' = lg X"
    and "\<And>n. n \<in> servers \<Longrightarrow> tm (el X) n \<le> tm (el X') n"
    and "\<And>n. n \<in> servers \<Longrightarrow> st (el X') n = Leader \<Longrightarrow> st (el X) n = Leader \<and> tm (el X') n = tm (el X) n \<or>
      reign_log X' (tm (el X') n) (lg X n) \<and> (\<forall>A \<in> tree X. A \<noteq> [] \<longrightarrow> lastTerm A \<noteq> tm (el X') n)"
  shows "logs_ok servers X'"
  unfolding logs_ok_def
proof (intro conjI ballI impI)
  fix n assume n: "n \<in> servers"
  note lD = logs_okD [OF assms(1) n]
  show "lg X' n \<in> tree X'" using lD(1) assms(2,4) by simp
  show "lastTerm (lg X' n) \<le> tm (el X') n" using lD(2) assms(4,5) n by (metis order.trans)
  assume l: "st (el X') n = Leader"
  have rl: "reign_log X t B \<Longrightarrow> reign_log X' t B" for t B by (rule reign_log_mono) (use assms(2,3) in simp_all)
  show "reign_log X' (tm (el X') n) (lg X' n)" using assms(6) [OF n l] lD(3) rl assms(4) by auto
  show "prefix A (lg X' n)" if "A \<in> tree X'" "A \<noteq> [] \<and> lastTerm A = tm (el X') n" for A
    using assms(6) [OF n l] lD(4) [of A] that assms(2,4) by auto
qed

lemma asks_ok_mono:
  assumes "asks_ok servers X" and "\<And>c. tm (el X) c \<le> tm (el X') c" and "asks X' = asks X"
    and "\<And>n. n \<in> servers \<Longrightarrow> st (el X') n = Candidate \<Longrightarrow> st (el X) n = Candidate \<and> tm (el X') n = tm (el X) n \<and>
      lg X' n = lg X n \<and> ((tm (el X) n, n) \<notin> elected (el X) \<longrightarrow> (tm (el X) n, n) \<notin> elected (el X'))"
  shows "asks_ok servers X'"
  unfolding asks_ok_def
proof (intro conjI ballI impI allI)
  fix n assume n: "n \<in> servers" and c: "st (el X') n = Candidate"
  note a = assms(4) [OF n c]
  show "(tm (el X') n, n) \<notin> elected (el X')" "(tm (el X') n, n, lg X' n) \<in> asks X'"
    using a asks_okD(1,2) [OF assms(1) n] assms(3) by simp_all
next
  fix t a L assume "(t, a, L) \<in> asks X'"
  then have a': "(t, a, L) \<in> asks X" using assms(3) by simp
  show "t \<le> tm (el X') a" using asks_okD(3) [OF assms(1) a'] assms(2) [of a] by simp
  show "0 < t" by (rule asks_okD(5) [OF assms(1) a'])
  show "L' = L" if "(t, a, L') \<in> asks X'" for L' using asks_okD(4) [OF assms(1) a'] that assms(3) by simp
qed

text \<open>
  Servers that give up a role, learn a newer term, restart, or count a vote: the history of the logs
  stays as it is.
\<close>

lemma xinv_demote:
  assumes "xinv servers X" and "election_inv servers E'" and "elected E' = elected (el X)" and "cast E' = cast (el X)"
    and "\<And>n. tm (el X) n \<le> tm E' n"
    and "\<And>n. st E' n \<noteq> Follower \<Longrightarrow> st E' n = st (el X) n \<and> tm E' n = tm (el X) n"
    and "\<And>n. c n = ci X n \<or> c n = 0"
  shows "xinv servers (X\<lparr>el := E', ci := c\<rparr>)" (is "xinv _ ?X")
proof -
  note inv = xinvD [OF assms(1)]
  have role: "st E' n = x \<Longrightarrow> x \<noteq> Follower \<Longrightarrow> st (el X) n = x \<and> tm E' n = tm (el X) n" for n x
    using assms(6) by metis
  have "reigns_ok ?X" using inv(3) assms(3) by (simp add: reigns_ok_def)
  moreover have "logs_ok servers ?X"
    by (rule logs_ok_mono [OF inv(4)]) (use assms(5) role in simp_all)
  moreover have "asks_ok servers ?X"
    by (rule asks_ok_mono [OF inv(5)]) (use assms(3,5) role in simp_all)
  moreover have "offers_ok servers ?X" by (rule offers_ok_mono [OF inv(6)]) simp_all
  moreover have "acks_ok ?X" by (rule acks_ok_mono [OF inv(7)]) (use assms(5) in simp_all)
  moreover have "snaps_ok ?X" by (rule snaps_ok_mono [OF inv(8)]) (use assms(4,5) in simp_all)
  moreover have "mandates_ok servers ?X" by (rule mandates_ok_mono [OF inv(9)]) (use assms(5) in simp_all)
  moreover have "commits_ok servers ?X"
    by (rule commits_ok_mono [OF inv(10)]) (use assms(5,7) in simp_all)
  ultimately show ?thesis using assms(2) inv(2) by (simp add: xinv_def)
qed

lemma xinv_stand:
  assumes "xinv servers X" and "n \<in> servers" and "st (el X) n \<noteq> Leader"
  shows "xinv servers (X\<lparr>el := stand n (el X), asks := insert (tm (el X) n + 1, n, lg X n) (asks X),
      snaps := insert (tm (el X) n + 1, n, n, lg X n) (snaps X)\<rparr>)" (is "xinv _ ?X")
proof -
  note inv = xinvD [OF assms(1)]
  have up: "tm (el X) v \<le> tm (el ?X) v" for v by (simp add: stand_def)
  have "election_inv servers (el ?X)" using stand_inv [OF inv(1) assms(2)] by simp
  moreover have "reigns_ok ?X" using inv(3) by (simp add: reigns_ok_def stand_def)
  moreover have "logs_ok servers ?X"
    by (rule logs_ok_mono [OF inv(4)]) (use assms(3) in \<open>auto simp: stand_def\<close>)
  moreover have "asks_ok servers ?X"
  proof -
    have "(tm (el X) n + 1, n) \<notin> elected (el X)" using elected_tm [OF inv(1), of "tm (el X) n + 1" n] by auto
    moreover have "(tm (el X) n + 1, n, L) \<notin> asks X" for L using asks_okD(3) [OF inv(5), of "tm (el X) n + 1" n L] by auto
    ultimately show ?thesis
      using inv(5) unfolding asks_ok_def by (auto simp: stand_def le_Suc_eq)
  qed
  moreover have "offers_ok servers ?X" by (rule offers_ok_mono [OF inv(6)]) simp_all
  moreover have "acks_ok ?X" by (rule acks_ok_mono [OF inv(7)]) (use up in simp_all)
  moreover have "snaps_ok ?X"
  proof (rule snaps_ok_mono [OF inv(8)])
    have "kept ?X t (tm (el X) n + 1) A (lg X n)" if "(t, n, A) \<in> acks X" for t A
      using kept_mono [OF acks_okD(3) [OF inv(7) that], of ?X] by simp
    moreover have "newer_log (lg X n) (lg X n)" by (simp add: newer_log_def)
    ultimately have new: "snap_ok ?X (tm (el X) n + 1) n n (lg X n)"
      using logs_okD(1) [OF inv(4) assms(2)] by (auto simp: snap_ok_def stand_def)
    show "(u, v, c, V) \<in> snaps X \<or> snap_ok ?X u v c V" if "(u, v, c, V) \<in> snaps ?X" for u v c V
      using that new by auto
  qed (use up in \<open>auto simp: stand_def\<close>)
  moreover have "mandates_ok servers ?X" by (rule mandates_ok_mono [OF inv(9)]) (use up in simp_all)
  moreover have "commits_ok servers ?X" by (rule commits_ok_mono [OF inv(10)]) (use up in simp_all)
  ultimately show ?thesis using inv(2) by (simp add: xinv_def)
qed

lemma xinv_grant:
  assumes "finite servers" and "[] \<notin> servers" and "xinv servers X" and "n \<in> servers" and "c \<in> servers" and "c \<noteq> n"
    and "vt (el X) n = [] \<or> vt (el X) n = c" and "(tm (el X) n, c, L) \<in> asks X" and "newer_log L (lg X n)"
  shows "xinv servers (X\<lparr>el := (el X)\<lparr>vt := (vt (el X))(n := c), cast := insert (tm (el X) n, n, c) (cast (el X))\<rparr>,
      snaps := insert (tm (el X) n, n, c, lg X n) (snaps X)\<rparr>)" (is "xinv _ ?X")
proof -
  note inv = xinvD [OF assms(3)]
  have "election_inv servers (el ?X)"
    using estep_inv [OF assms(1,2) e_grant [OF assms(4-7)] inv(1)] by simp
  moreover have "reigns_ok ?X" using inv(3) by (simp add: reigns_ok_def)
  moreover have "logs_ok servers ?X" by (rule logs_ok_mono [OF inv(4)]) simp_all
  moreover have "asks_ok servers ?X" by (rule asks_ok_mono [OF inv(5)]) simp_all
  moreover have "offers_ok servers ?X" by (rule offers_ok_mono [OF inv(6)]) simp_all
  moreover have "acks_ok ?X" by (rule acks_ok_mono [OF inv(7)]) simp_all
  moreover have "snaps_ok ?X"
  proof (rule snaps_ok_mono [OF inv(8)])
    have "kept ?X t (tm (el X) n) A (lg X n)" if "(t, n, A) \<in> acks X" for t A
      using kept_mono [OF acks_okD(3) [OF inv(7) that], of ?X] by simp
    then have new: "snap_ok ?X (tm (el X) n) n c (lg X n)"
      using logs_okD(1) [OF inv(4) assms(4)] assms(8,9) by (auto simp: snap_ok_def)
    show "(u, v, a, V) \<in> snaps X \<or> snap_ok ?X u v a V" if "(u, v, a, V) \<in> snaps ?X" for u v a V
      using that new by auto
  qed auto
  moreover have "mandates_ok servers ?X" by (rule mandates_ok_mono [OF inv(9)]) simp_all
  moreover have "commits_ok servers ?X" by (rule commits_ok_mono [OF inv(10)]) simp_all
  ultimately show ?thesis using inv(2) by (simp add: xinv_def)
qed

lemma candidate_mandate:
  assumes "xinv servers X" and "(t, n, L) \<in> asks X" and "\<And>E. (t, E) \<notin> reigns X" and "(t, v, n) \<in> cast (el X)"
  shows "mandate X t L v"
proof -
  note inv = xinvD [OF assms(1)]
  obtain V where V: "(t, v, n, V) \<in> snaps X" using snaps_okD(1) [OF inv(8) assms(4)] by blast
  note sD = snaps_okD(2-5) [OF inv(8) V]
  from sD(3) asks_okD(4) [OF inv(5) assms(2)] have "newer_log L V" by metis
  moreover have "kept X u (t - 1) A V" if "(u, v, A) \<in> acks X" "u < t" for u A
  proof -
    from sD(4) [OF that] consider "prefix A V" | w E where "u < w" "w \<le> t" "(w, E) \<in> reigns X" "\<not> prefix A E"
      unfolding kept_def by blast
    then show ?thesis
    proof cases
      case 2
      with assms(3) have "w \<noteq> t" by blast
      with 2 show ?thesis unfolding kept_def by (metis Suc_pred' le_neq_implies_less less_Suc_eq_le not_less0 gr0I)
    qed (simp add: kept_def)
  qed
  ultimately show ?thesis using sD(1,2) unfolding mandate_def by blast
qed

text \<open>A candidate becomes leader: this is where the votes of a majority count.\<close>

lemma crown_el:
  assumes "majority servers \<le> card (ballot (el X) n)"
  shows "tm (crown servers n (el X)) = tm (el X)" "st (crown servers n (el X)) = (st (el X))(n := Leader)"
    "cast (crown servers n (el X)) = cast (el X)"
    "elected (crown servers n (el X)) = insert (tm (el X) n, n) (elected (el X))"
  using assms by (simp_all add: crown_def)

text \<open>The term of a candidate that wins is new to the logs and to the reigns.\<close>

lemma crown_fresh:
  assumes "finite servers" and "[] \<notin> servers" and "xinv servers X" and "n \<in> servers"
    and "st (el X) n = Candidate" and "majority servers \<le> card (ballot (el X) n)"
  shows "election_inv servers (crown servers n (el X))" and "(tm (el X) n, E) \<notin> reigns X"
    and "A \<in> tree X \<Longrightarrow> A \<noteq> [] \<Longrightarrow> lastTerm A \<noteq> tm (el X) n"
    and "(tm (el X) n, n, lg X n) \<in> asks X" and "lg X n \<in> tree X" and "lastTerm (lg X n) < tm (el X) n"
proof -
  note inv = xinvD [OF assms(3)] and e = crown_el [OF assms(6)]
  let ?t = "tm (el X) n"
  show ei: "election_inv servers (crown servers n (el X))" by (rule crown_inv [OF assms(1,2) inv(1) assms(4,5)])
  have none: "(?t, l) \<notin> elected (el X)" for l
  proof
    assume l: "(?t, l) \<in> elected (el X)"
    then have "l = n" using election_invD(5) [OF ei] unfolding one_leader_def e by blast
    with l asks_okD(1) [OF inv(5) assms(4,5)] show False by simp
  qed
  then have noreign: "(?t, E) \<notin> reigns X" for E using reigns_okD(3) [OF inv(3)] by blast
  have noterm: "lastTerm A \<noteq> ?t" if "A \<in> tree X" "A \<noteq> []" for A
    using reigns_okD(5) [OF inv(3) that] noreign by auto
  have ask: "(?t, n, lg X n) \<in> asks X" by (rule asks_okD(2) [OF inv(5) assms(4,5)])
  have L: "lg X n \<in> tree X" "lastTerm (lg X n) \<le> ?t" using logs_okD [OF inv(4) assms(4)] by blast+
  have lt: "lastTerm (lg X n) < ?t"
    using L noterm [OF L(1)] asks_okD(5) [OF inv(5) ask] by (cases "lg X n = []") (auto simp: lastTerm_def)
  show "(?t, E) \<notin> reigns X" by (rule noreign)
  show "A \<in> tree X \<Longrightarrow> A \<noteq> [] \<Longrightarrow> lastTerm A \<noteq> ?t" by (rule noterm)
  show "(?t, n, lg X n) \<in> asks X" by (rule ask)
  show "lg X n \<in> tree X" "lastTerm (lg X n) < ?t" by (fact L(1) lt)+
qed

lemma crown_mandates:
  assumes "finite servers" and "[] \<notin> servers" and "xinv servers X" and "n \<in> servers"
    and "st (el X) n = Candidate" and "majority servers \<le> card (ballot (el X) n)"
  shows "mandates_ok servers (X\<lparr>el := crown servers n (el X), reigns := insert (tm (el X) n, lg X n) (reigns X)\<rparr>)"
    (is "mandates_ok _ ?X")
  unfolding mandates_ok_def
proof (intro allI impI)
  note inv = xinvD [OF assms(3)] and e = crown_el [OF assms(6)] and noreign = crown_fresh(2) [OF assms] and ask = crown_fresh(4) [OF assms]
  let ?t = "tm (el X) n"
  fix u E assume "(u, E) \<in> reigns ?X"
  then consider (old) "(u, E) \<in> reigns X" | (new) "u = ?t" "E = lg X n" by auto
  then show "\<exists>Q. majority_of servers Q \<and> (\<forall>v \<in> Q. mandate ?X u E v)"
  proof cases
    case old
    with inv(9) obtain Q where Q: "majority_of servers Q" "\<And>v. v \<in> Q \<Longrightarrow> mandate X u E v"
      unfolding mandates_ok_def by blast
    have "mandate ?X u E v" if "v \<in> Q" for v by (rule mandate_mono [OF Q(2) [OF that]]) (auto simp: e)
    with Q(1) show ?thesis by blast
  next
    case new
    let ?Q = "ballot (el X) n"
    have b: "?Q \<subseteq> servers" "\<And>v. v \<in> ?Q \<Longrightarrow> (?t, v, n) \<in> cast (el X)"
      using election_invD(1) [OF inv(1)] assms(4,5) unfolding roles_ok_def by blast+
    have "mandate ?X ?t (lg X n) v" if v: "v \<in> ?Q" for v
      using candidate_mandate [OF assms(3) ask noreign b(2) [OF v]] by (rule mandate_mono) (auto simp: e)
    moreover have "majority_of servers ?Q" using b(1) assms(6) by (simp add: majority_of_def)
    ultimately show ?thesis using new by blast
  qed
qed

lemma xinv_crown:
  assumes "finite servers" and "[] \<notin> servers" and "xinv servers X" and "n \<in> servers"
    and "st (el X) n = Candidate" and "majority servers \<le> card (ballot (el X) n)"
  shows "xinv servers (X\<lparr>el := crown servers n (el X), reigns := insert (tm (el X) n, lg X n) (reigns X)\<rparr>)"
    (is "xinv _ ?X")
proof -
  note inv = xinvD [OF assms(3)] and e = crown_el [OF assms(6)] and ei = crown_fresh(1) [OF assms]
  note noreign = crown_fresh(2) [OF assms] and noterm = crown_fresh(3) [OF assms] and L = crown_fresh(5) [OF assms]
    and lt = crown_fresh(6) [OF assms]
  have "reigns_ok ?X"
    unfolding reigns_ok_def
  proof (intro conjI allI impI ballI)
    fix t E assume r: "(t, E) \<in> reigns ?X"
    show "E \<in> tree ?X" "lastTerm E < t" using r reigns_okD(1,2) [OF inv(3), of t E] L lt by auto
    show "\<exists>l. (t, l) \<in> elected (el ?X)" using r reigns_okD(3) [OF inv(3), of t E] by (auto simp: e)
    show "E' = E" if "(t, E') \<in> reigns ?X" for E' using r that reigns_okD(4) [OF inv(3), of t E E'] noreign by auto
  next
    fix A assume "A \<in> tree ?X" "A \<noteq> []"
    then show "\<exists>E. (lastTerm A, E) \<in> reigns ?X \<and> prefix E A" using reigns_okD(5) [OF inv(3), of A] by auto
  qed
  moreover have "logs_ok servers ?X"
  proof (rule logs_ok_mono [OF inv(4)])
    fix m assume "m \<in> servers" and "st (el ?X) m = Leader"
    then show "st (el X) m = Leader \<and> tm (el ?X) m = tm (el X) m \<or>
      reign_log ?X (tm (el ?X) m) (lg X m) \<and> (\<forall>A \<in> tree X. A \<noteq> [] \<longrightarrow> lastTerm A \<noteq> tm (el ?X) m)"
      using L noterm by (cases "m = n") (auto simp: e reign_log_def)
  qed (simp_all add: e subset_insertI)
  moreover have "asks_ok servers ?X"
    by (rule asks_ok_mono [OF inv(5)]) (auto simp: e split: if_splits)
  moreover have "offers_ok servers ?X" by (rule offers_ok_mono [OF inv(6)]) auto
  moreover have "acks_ok ?X" by (rule acks_ok_mono [OF inv(7)]) (auto simp: e)
  moreover have "snaps_ok ?X" by (rule snaps_ok_mono [OF inv(8)]) (auto simp: e)
  moreover have "mandates_ok servers ?X" by (rule crown_mandates [OF assms])
  moreover have "commits_ok servers ?X" by (rule commits_ok_mono [OF inv(10)]) (auto simp: e)
  ultimately show ?thesis using ei inv(2) by (simp add: xinv_def)
qed

lemma reign_log_of_leader:
  assumes "xinv servers X" and "n \<in> servers" and "st (el X) n = Leader" and "reign_log X (tm (el X) n) B"
  shows "prefix B (lg X n)"
proof -
  note inv = xinvD [OF assms(1)]
  note lD = logs_okD [OF inv(4) assms(2)]
  from assms(4) obtain E where E: "(tm (el X) n, E) \<in> reigns X" "B = E \<or> lastTerm B = tm (el X) n" "B \<in> tree X"
    by (auto simp: reign_log_def)
  from lD(3) [OF assms(3)] obtain F where F: "(tm (el X) n, F) \<in> reigns X" "prefix F (lg X n)"
    by (auto simp: reign_log_def)
  have "F = E" by (rule reigns_okD(4) [OF inv(3) E(1) F(1)])
  then show ?thesis using E F(2) lD(4) [OF assms(3) E(3)] by (cases "B = []") auto
qed

lemma leader_unique:
  assumes "xinv servers X" and "n \<in> servers" and "m \<in> servers" and "st (el X) n = Leader" and "st (el X) m = Leader"
    and "tm (el X) n = tm (el X) m"
  shows "n = m"
  using election_invD(1,5) [OF xinvD(1) [OF assms(1)]] assms(2-6) unfolding roles_ok_def one_leader_def by metis

lemma xinv_write:
  assumes "xinv servers X" and "n \<in> servers" and "st (el X) n = Leader" and "Term e = tm (el X) n"
    and "Index e = Suc (length (lg X n))"
  shows "xinv servers (X\<lparr>lg := (lg X)(n := lg X n @ [e]), tree := insert (lg X n @ [e]) (tree X)\<rparr>)" (is "xinv _ ?X")
proof -
  note inv = xinvD [OF assms(1)]
  note lD = logs_okD [OF inv(4) assms(2)]
  let ?L = "lg X n" and ?t = "tm (el X) n"
  from lD(3) [OF assms(3)] obtain E where E: "(?t, E) \<in> reigns X" "prefix E ?L" by (auto simp: reign_log_def)
  have pos: "0 < ?t" using reigns_okD(2) [OF inv(3) E(1)] by simp
  have tr: "log_tree (tree ?X)"
    using tree_grow [OF inv(2) lD(1) assms(5)] pos lD(2) lD(4) [OF assms(3)] assms(4) by simp
  have last: "lastTerm (?L @ [e]) = ?t" by (simp add: lastTerm_def assms(4))
  have "reigns_ok ?X"
    using inv(3) E last unfolding reigns_ok_def by (auto simp: prefix_def)
  moreover have "logs_ok servers ?X"
    unfolding logs_ok_def
  proof (intro conjI ballI impI)
    fix m assume m: "m \<in> servers"
    note mD = logs_okD [OF inv(4) m]
    show "lg ?X m \<in> tree ?X" using mD(1) by auto
    show "lastTerm (lg ?X m) \<le> tm (el ?X) m" using mD(2) last by auto
    assume l: "st (el ?X) m = Leader"
    then have l': "st (el X) m = Leader" by simp
    show "reign_log ?X (tm (el ?X) m) (lg ?X m)"
      using mD(3) [OF l'] E last by (cases "m = n") (auto simp: reign_log_def prefix_def)
    show "prefix A (lg ?X m)" if "A \<in> tree ?X" "A \<noteq> [] \<and> lastTerm A = tm (el ?X) m" for A
      using that mD(4) [OF l', of A] leader_unique [OF assms(1,2) m assms(3) l'] last
      by (cases "m = n") (auto simp: prefix_def)
  qed
  moreover have "asks_ok servers ?X" by (rule asks_ok_mono [OF inv(5)]) (use assms(3) in auto)
  moreover have "offers_ok servers ?X" by (rule offers_ok_mono [OF inv(6)]) auto
  moreover have "acks_ok ?X" by (rule acks_ok_mono [OF inv(7)]) (auto simp: kept_def prefix_def split: if_splits)
  moreover have "snaps_ok ?X" by (rule snaps_ok_mono [OF inv(8)]) auto
  moreover have "mandates_ok servers ?X" by (rule mandates_ok_mono [OF inv(9)]) auto
  moreover have "commits_ok servers ?X"
    unfolding commits_ok_def
  proof
    fix m assume "m \<in> servers"
    with inv(10) have c: "ci X m \<le> length (lg X m)" "safe servers X (tm (el X) m) (take (ci X m) (lg X m))"
      by (auto simp: commits_ok_def)
    then show "ci ?X m \<le> length (lg ?X m) \<and> safe servers ?X (tm (el ?X) m) (take (ci ?X m) (lg ?X m))"
      using safe_mono [OF c(2), of ?X] by (cases "m = n") auto
  qed
  ultimately show ?thesis using inv(1) tr by (simp add: xinv_def)
qed

lemma xinv_offer:
  assumes "xinv servers X" and "n \<in> servers" and "st (el X) n = Leader"
  shows "xinv servers (X\<lparr>offers := insert (tm (el X) n, lg X n, ci X n) (offers X)\<rparr>)" (is "xinv _ ?X")
proof -
  note inv = xinvD [OF assms(1)]
  have "ci X n \<le> length (lg X n)" "safe servers X (tm (el X) n) (take (ci X n) (lg X n))"
    using inv(10) assms(2) by (auto simp: commits_ok_def)
  then have "offers_ok servers ?X"
    using inv(6) logs_okD(3) [OF inv(4) assms(2,3)] unfolding offers_ok_def reign_log_def safe_def committed_def by auto
  moreover have "reigns_ok ?X" using inv(3) by (simp add: reigns_ok_def)
  moreover have "logs_ok servers ?X" by (rule logs_ok_mono [OF inv(4)]) simp_all
  moreover have "asks_ok servers ?X" by (rule asks_ok_mono [OF inv(5)]) simp_all
  moreover have "acks_ok ?X" by (rule acks_ok_mono [OF inv(7)]) simp_all
  moreover have "snaps_ok ?X" by (rule snaps_ok_mono [OF inv(8)]) simp_all
  moreover have "mandates_ok servers ?X" by (rule mandates_ok_mono [OF inv(9)]) simp_all
  moreover have "commits_ok servers ?X" by (rule commits_ok_mono [OF inv(10)]) simp_all
  ultimately show ?thesis using inv(1,2) by (simp add: xinv_def)
qed

text \<open>What a follower had committed is in every log a leader of its term or a later one offers.\<close>

lemma safe_in_offer:
  assumes "finite servers" and "xinv servers X" and "safe servers X u C" and "reign_log X t B" and "u \<le> t"
    and "prefix C L" and "\<not> prefix B L"
  shows "prefix C B"
proof (cases "C = []")
  case False
  note inv = xinvD [OF assms(2)]
  from assms(3) False obtain w A where A: "w \<le> u" "committed servers X w A" "prefix C A" by (auto simp: safe_def)
  then have A': "A \<in> tree X" "A \<noteq> []" "lastTerm A = w" by (auto simp: committed_def)
  from assms(4) obtain E where E: "(t, E) \<in> reigns X" "prefix E B" by (auto simp: reign_log_def)
  show ?thesis
  proof (cases "w = t")
    case True
    with reign_log_last [OF inv(3) A'(1,2)] A'(3) have "prefix A B \<or> prefix B A"
      using reign_logs_comparable [OF inv(2,3) _ assms(4)] by auto
    then have "prefix C B \<or> prefix B C" using A(3) by (metis prefix_order.trans prefix_same_cases)
    with assms(6,7) show ?thesis by (blast intro: prefix_order.trans)
  next
    case False
    have "prefix A E" by (rule leader_completeness [OF assms(1,2) A(2) E(1)]) (use False A(1) assms(5) in simp)
    with A(3) E(2) show ?thesis by (blast intro: prefix_order.trans)
  qed
qed simp

lemma accepted_kept:
  assumes "xinv servers X" and "(t, n, A) \<in> acks X" and "prefix A L" and "reign_log X (tm (el X) n) B" and "\<not> prefix B L"
  shows "kept X t (tm (el X) n) A B"
proof (cases "prefix A B")
  case False
  note inv = xinvD [OF assms(1)]
  note aD = acks_okD [OF inv(7) assms(2)]
  from assms(4) obtain E where E: "(tm (el X) n, E) \<in> reigns X" "prefix E B" by (auto simp: reign_log_def)
  have "t \<noteq> tm (el X) n"
  proof
    assume t: "t = tm (el X) n"
    from aD(2) obtain B0 where B0: "reign_log X t B0" "prefix A B0" by blast
    have "prefix B0 B \<or> prefix B B0"
      using reign_logs_comparable [OF inv(2,3) B0(1), of B] assms(4) t by simp
    then have "prefix B A" using B0(2) False by (metis prefix_order.trans prefix_same_cases)
    with assms(3,5) show False by (blast intro: prefix_order.trans)
  qed
  moreover have "\<not> prefix A E" using False E(2) by (blast intro: prefix_order.trans)
  ultimately show ?thesis using aD(1) E(1) unfolding kept_def by (metis le_neq_implies_less order.refl)
qed (simp add: kept_def)

lemma accept_keeps_commits:
  assumes "finite servers" and "xinv servers X" and "n \<in> servers"
    and "(tm (el X) n, B, c) \<in> offers X" and "p \<le> length B"
    and "p = 0 \<or> p \<le> length (lg X n) \<and> Term (lg X n ! (p - 1)) = Term (B ! (p - 1))"
    and "L' = appended (lg X n) p (drop p B)"
  shows "ci X n \<le> length L'" "take (ci X n) L' = take (ci X n) (lg X n)" "c \<le> length L'" "take c L' = take c B"
    "prefix B L'" "L' = (if prefix B (lg X n) then lg X n else B)"
proof -
  note inv = xinvD [OF assms(2)]
  note oD = offers_okD [OF inv(6) assms(4)]
  have "B \<in> tree X" using oD(1) by (simp add: reign_log_def)
  then show L': "L' = (if prefix B (lg X n) then lg X n else B)"
    using appended_tree [OF inv(2) logs_okD(1) [OF inv(4) assms(3)] _ assms(5,6)] assms(7) by simp
  from inv(10) assms(3) have cm: "ci X n \<le> length (lg X n)" "safe servers X (tm (el X) n) (take (ci X n) (lg X n))"
    by (auto simp: commits_ok_def)
  have "prefix (take (ci X n) (lg X n)) L'"
    using safe_in_offer [OF assms(1,2) cm(2) oD(1) order.refl take_is_prefix] by (auto simp: L' take_is_prefix)
  then show "ci X n \<le> length L'" "take (ci X n) L' = take (ci X n) (lg X n)"
    using cm(1) by (auto simp: prefix_def min_def dest: arg_cong [of _ _ length])
  show BL: "prefix B L'" by (simp add: L')
  then show "c \<le> length L'" "take c L' = take c B" using oD(2) by (auto simp: prefix_def)
qed

lemma xinv_accept:
  assumes "finite servers" and "xinv servers X" and "n \<in> servers" and "st (el X) n = Follower"
    and "(tm (el X) n, B, c) \<in> offers X" and "p \<le> length B"
    and "p = 0 \<or> p \<le> length (lg X n) \<and> Term (lg X n ! (p - 1)) = Term (B ! (p - 1))"
    and "L' = appended (lg X n) p (drop p B)"
  shows "xinv servers (X\<lparr>lg := (lg X)(n := L'),
      ci := (ci X)(n := if ci X n < c then min c (length L') else ci X n),
      acks := acks X \<union> prefixes_of (tm (el X) n) n B\<rparr>)" (is "xinv _ ?X")
proof -
  note inv = xinvD [OF assms(2)]
  note lD = logs_okD [OF inv(4) assms(3)]
  let ?L = "lg X n" and ?t = "tm (el X) n"
  note oD = offers_okD [OF inv(6) assms(5)]
  note k = accept_keeps_commits [OF assms(1-3,5-8)]
  note BL = k(5) and L' = k(6)
  have B: "B \<in> tree X" using oD(1) by (simp add: reign_log_def)
  have new: "lg ?X v = (if v = n then L' else lg X v)" for v by simp
  have lastB: "lastTerm B \<le> ?t"
    using oD(1) reigns_okD(2) [OF inv(3)] unfolding reign_log_def by (auto intro: less_imp_le)
  have kp: "kept ?X = kept X" by (simp add: kept_def fun_eq_iff)
  have rl: "reign_log ?X = reign_log X" by (simp add: reign_log_def fun_eq_iff)
  have "reigns_ok ?X" using inv(3) by (simp add: reigns_ok_def)
  moreover have "logs_ok servers ?X"
    using inv(4) lD(1,2) B lastB assms(4) unfolding logs_ok_def rl by (auto simp: L')
  moreover have "asks_ok servers ?X" by (rule asks_ok_mono [OF inv(5)]) (use assms(4) in auto)
  moreover have "offers_ok servers ?X" by (rule offers_ok_mono [OF inv(6)]) auto
  moreover have "acks_ok ?X"
  proof (rule acks_ok_mono [OF inv(7)])
    fix t v A
    show "kept ?X t (tm (el ?X) v) A (lg ?X v)"
      if "(t, v, A) \<in> acks X" "prefix A (lg X v)" "lg ?X v \<noteq> lg X v"
    proof -
      from that(3) have "v = n" "L' = B" "\<not> prefix B ?L" by (auto simp: L' split: if_splits)
      with accepted_kept [OF assms(2) that(1) [unfolded \<open>v = n\<close>] _ oD(1)] that(2) show ?thesis
        unfolding kp new by simp
    qed
    show "(t, v, A) \<in> acks X \<or> ack_ok ?X t v A" if "(t, v, A) \<in> acks ?X"
      using that oD(1) BL unfolding ack_ok_def rl by (auto simp: kept_def intro: prefix_order.trans)
  qed auto
  moreover have "snaps_ok ?X" by (rule snaps_ok_mono [OF inv(8)]) auto
  moreover have "mandates_ok servers ?X" by (rule mandates_ok_mono [OF inv(9)]) auto
  moreover have "commits_ok servers ?X"
    unfolding commits_ok_def
  proof (intro ballI conjI)
    fix m assume "m \<in> servers"
    with inv(10) have cm: "ci X m \<le> length (lg X m)" "safe servers X (tm (el X) m) (take (ci X m) (lg X m))"
      by (auto simp: commits_ok_def)
    have sm: "safe servers X u C \<Longrightarrow> safe servers ?X u C" for u C by (erule safe_mono) auto
    show "ci ?X m \<le> length (lg ?X m)" using cm(1) k(1) by auto
    show "safe servers ?X (tm (el ?X) m) (take (ci ?X m) (lg ?X m))"
      using sm [OF cm(2)] sm [OF oD(3)] k(2-4) by (cases "m = n") (auto simp: min_def)
  qed
  ultimately show ?thesis using inv(1,2) by (simp add: xinv_def)
qed

text \<open>A log is cut where it contradicts the leader, and nothing is written in its place.\<close>

lemma cut_prefix:
  assumes "prefix A L" and "prefix A B" and "q < length L" and "q < length B" and "Term (L ! q) \<noteq> Term (B ! q)"
  shows "length A \<le> q" "prefix A (take q L)"
proof -
  show len: "length A \<le> q"
  proof (rule ccontr)
    assume "\<not> length A \<le> q"
    with assms(1,2) have "L ! q = A ! q" "B ! q = A ! q" by (auto simp: prefix_def nth_append)
    with assms(5) show False by simp
  qed
  then show "prefix A (take q L)" using assms(1) by (auto simp: prefix_def)
qed

lemma cut_keeps_commits:
  assumes "finite servers" and "xinv servers X" and "n \<in> servers" and "(tm (el X) n, B, c) \<in> offers X"
    and "q < length (lg X n)" and "q < length B" and "Term (lg X n ! q) \<noteq> Term (B ! q)"
  shows "\<not> prefix B (lg X n)" "ci X n \<le> q"
proof -
  note inv = xinvD [OF assms(2)]
  show no: "\<not> prefix B (lg X n)" using assms(6,7) by (auto simp: prefix_def nth_append)
  from inv(10) assms(3) have cm: "ci X n \<le> length (lg X n)" "safe servers X (tm (el X) n) (take (ci X n) (lg X n))"
    by (auto simp: commits_ok_def)
  have "prefix (take (ci X n) (lg X n)) B"
    by (rule safe_in_offer [OF assms(1,2) cm(2) offers_okD(1) [OF inv(6) assms(4)] order.refl take_is_prefix no])
  from cut_prefix(1) [OF take_is_prefix this assms(5-7)] cm(1) show "ci X n \<le> q" by simp
qed

lemma xinv_cut:
  assumes "finite servers" and "xinv servers X" and "n \<in> servers" and "st (el X) n = Follower"
    and "(tm (el X) n, B, c) \<in> offers X" and "q < length (lg X n)" and "q < length B" and "Term (lg X n ! q) \<noteq> Term (B ! q)"
  shows "xinv servers (X\<lparr>lg := (lg X)(n := take q (lg X n))\<rparr>)" (is "xinv _ ?X")
proof -
  note inv = xinvD [OF assms(2)]
  note lD = logs_okD [OF inv(4) assms(3)] and k = cut_keeps_commits [OF assms(1-3,5-8)]
  let ?L = "lg X n"
  have kp: "kept ?X = kept X" by (simp add: kept_def fun_eq_iff)
  have rl: "reign_log ?X = reign_log X" by (simp add: reign_log_def fun_eq_iff)
  have sf: "safe servers ?X = safe servers X" by (simp add: safe_def committed_def fun_eq_iff)
  have "lastTerm (take q ?L) \<le> tm (el X) n"
    using tree_lastTerm_mono [OF inv(2) lD(1) take_is_prefix] lD(2) by (rule order.trans)
  then have "logs_ok servers ?X"
    using inv(4) log_treeD(2) [OF inv(2) lD(1)] assms(4) unfolding logs_ok_def rl by auto
  moreover have "reigns_ok ?X" using inv(3) by (simp add: reigns_ok_def)
  moreover have "asks_ok servers ?X" by (rule asks_ok_mono [OF inv(5)]) (use assms(4) in auto)
  moreover have "offers_ok servers ?X" by (rule offers_ok_mono [OF inv(6)]) auto
  moreover have "acks_ok ?X"
  proof (rule acks_ok_mono [OF inv(7)])
    fix t v A assume a: "(t, v, A) \<in> acks X" "prefix A (lg X v)" "lg ?X v \<noteq> lg X v"
    then have v: "v = n" by (auto split: if_splits)
    from accepted_kept [OF assms(2) a(1) [unfolded v] _ offers_okD(1) [OF inv(6) assms(5)] k(1)] a(2) v
    have "kept X t (tm (el X) n) A B" by simp
    then have "kept X t (tm (el X) n) A (take q ?L)"
      using cut_prefix(2) [OF a(2) [unfolded v] _ assms(6-8)] unfolding kept_def by blast
    then show "kept ?X t (tm (el ?X) v) A (lg ?X v)" unfolding kp using v by simp
  qed auto
  moreover have "snaps_ok ?X" by (rule snaps_ok_mono [OF inv(8)]) auto
  moreover have "mandates_ok servers ?X" by (rule mandates_ok_mono [OF inv(9)]) auto
  moreover have "commits_ok servers ?X"
    using inv(10) k(2) assms(6) unfolding commits_ok_def sf by (auto simp: min_def)
  ultimately show ?thesis using inv(1,2) by (simp add: xinv_def)
qed

lemma xinv_commit:
  assumes "xinv servers X" and "n \<in> servers" and "st (el X) n = Leader" and "0 < k" and "k \<le> length (lg X n)"
    and "Term (lg X n ! (k - 1)) = tm (el X) n" and "majority_of servers Q"
    and "\<And>v. v \<in> Q \<Longrightarrow> v = n \<or> (\<exists>A. (tm (el X) n, v, A) \<in> acks X \<and> k \<le> length A)"
  shows "xinv servers (X\<lparr>ci := (ci X)(n := k), acks := acks X \<union> prefixes_of (tm (el X) n) n (lg X n)\<rparr>)"
    (is "xinv _ ?X")
proof -
  note inv = xinvD [OF assms(1)]
  note lD = logs_okD [OF inv(4) assms(2)]
  let ?t = "tm (el X) n" and ?A = "take k (lg X n)"
  have rl: "reign_log ?X = reign_log X" by (simp add: reign_log_def fun_eq_iff)
  have ack: "(?t, v, ?A) \<in> acks ?X" if v: "v \<in> Q" for v
  proof (cases "v = n")
    case True
    then show ?thesis by (simp add: take_is_prefix)
  next
    case False
    with assms(8) [OF v] obtain A where A: "(?t, v, A) \<in> acks X" "k \<le> length A" by blast
    from acks_okD(2) [OF inv(7) A(1)] obtain B where B: "reign_log X ?t B" "prefix A B" by blast
    have "prefix A (lg X n)" using B(2) reign_log_of_leader [OF assms(1-3) B(1)] by (rule prefix_order.trans)
    then have "?A = take k A" using A(2) by (auto simp: prefix_def)
    with acks_okD(4) [OF inv(7) A(1), of ?A] show ?thesis by (simp add: take_is_prefix)
  qed
  have "committed servers ?X ?t ?A"
    unfolding committed_def using ack assms(4-7) log_treeD(2) [OF inv(2) lD(1)] last_take_Suc [of "k - 1" "lg X n"]
    by (auto simp: lastTerm_def)
  then have fin: "safe servers ?X ?t ?A" unfolding safe_def by blast
  have "reigns_ok ?X" using inv(3) by (simp add: reigns_ok_def)
  moreover have "logs_ok servers ?X" using inv(4) unfolding logs_ok_def rl by simp
  moreover have "asks_ok servers ?X" by (rule asks_ok_mono [OF inv(5)]) simp_all
  moreover have "offers_ok servers ?X" by (rule offers_ok_mono [OF inv(6)]) auto
  moreover have "acks_ok ?X"
  proof (rule acks_ok_mono [OF inv(7)])
    show "(t, v, A) \<in> acks X \<or> ack_ok ?X t v A" if "(t, v, A) \<in> acks ?X" for t v A
      using that lD(3) [OF assms(3)] unfolding ack_ok_def rl by (auto simp: kept_def intro: prefix_order.trans)
  qed auto
  moreover have "snaps_ok ?X" by (rule snaps_ok_mono [OF inv(8)]) auto
  moreover have "mandates_ok servers ?X" by (rule mandates_ok_mono [OF inv(9)]) auto
  moreover have "commits_ok servers ?X"
    unfolding commits_ok_def
  proof
    fix m assume "m \<in> servers"
    with inv(10) have c: "ci X m \<le> length (lg X m)" "safe servers X (tm (el X) m) (take (ci X m) (lg X m))"
      by (auto simp: commits_ok_def)
    then show "ci ?X m \<le> length (lg ?X m) \<and> safe servers ?X (tm (el ?X) m) (take (ci ?X m) (lg ?X m))"
      using safe_mono [OF c(2), of ?X] assms(5) fin by (cases "m = n") auto
  qed
  ultimately show ?thesis using inv(1,2) by (simp add: xinv_def)
qed

theorem xstep_inv:
  assumes "finite servers" and "[] \<notin> servers"
  shows "xstep servers X X' \<Longrightarrow> xinv servers X \<Longrightarrow> xinv servers X'"
proof (induction rule: xstep.induct)
  case (x_count c v X)
  have e: "election_inv servers (count_vote c v (el X))"
    by (rule count_vote_inv [OF xinvD(1) [OF x_count(5)] x_count(2,4)])
  from xinv_demote [OF x_count(5) e, of "ci X"] show ?case by (simp add: count_vote_def)
next
  case (x_newer n X t)
  note e = estep_inv [OF assms e_newer [OF x_newer(1,2)] xinvD(1) [OF x_newer(3)]]
  have "xinv servers (X\<lparr>el := (el X)\<lparr>tm := (tm (el X))(n := t), vt := (vt (el X))(n := []),
      st := (st (el X))(n := Follower)\<rparr>, ci := ci X\<rparr>)"
    by (rule xinv_demote [OF x_newer(3) e]) (use x_newer(2) in \<open>auto split: if_splits\<close>)
  then show ?case by simp
next
  case (x_quit n X)
  note e = estep_inv [OF assms e_quit [OF x_quit(1)] xinvD(1) [OF x_quit(2)]]
  have "xinv servers (X\<lparr>el := (el X)\<lparr>st := (st (el X))(n := Follower)\<rparr>, ci := ci X\<rparr>)"
    by (rule xinv_demote [OF x_quit(2) e]) (auto split: if_splits)
  then show ?case by simp
next
  case (x_meet n X l)
  note e = estep_inv [OF assms e_meet [OF x_meet(1-4)] xinvD(1) [OF x_meet(5)]]
  have "xinv servers (X\<lparr>el := (el X)\<lparr>vt := (vt (el X))(n := []), st := (st (el X))(n := Follower)\<rparr>, ci := ci X\<rparr>)"
    by (rule xinv_demote [OF x_meet(5) e]) (auto split: if_splits)
  then show ?case by simp
next
  case (x_restart n X)
  note e = estep_inv [OF assms e_quit [OF x_restart(1)] xinvD(1) [OF x_restart(2)]]
  have "xinv servers (X\<lparr>el := (el X)\<lparr>st := (st (el X))(n := Follower)\<rparr>, ci := (ci X)(n := 0)\<rparr>)"
    by (rule xinv_demote [OF x_restart(2) e]) (auto split: if_splits)
  then show ?case by simp
next
  case (x_stand n X)
  show ?case by (rule xinv_stand [OF x_stand(3,1,2)])
next
  case (x_crown n X)
  show ?case by (rule xinv_crown [OF assms x_crown(4,1,2,3)])
next
  case (x_grant n c X L)
  show ?case by (rule xinv_grant [OF assms x_grant(7,1-6)])
next
  case (x_write n X e)
  show ?case by (rule xinv_write [OF x_write(5,1-4)])
next
  case (x_offer n X)
  show ?case by (rule xinv_offer [OF x_offer(3,1,2)])
next
  case (x_accept n X B c p L')
  show ?case by (rule xinv_accept [OF assms(1) x_accept(7,1-6)])
next
  case (x_cut n X B c q)
  show ?case by (rule xinv_cut [OF assms(1) x_cut(7,1-6)])
next
  case (x_commit n X k Q)
  show ?case by (rule xinv_commit [OF x_commit(8,1-6) x_commit(7)])
qed

lemma xsteps_inv:
  assumes "finite servers" and "[] \<notin> servers"
  shows "(xstep servers)\<^sup>*\<^sup>* X X' \<Longrightarrow> xinv servers X \<Longrightarrow> xinv servers X'"
  by (induction rule: rtranclp_induct) (auto intro: xstep_inv [OF assms])

text \<open>What was safe stays safe, and every later leader has it.\<close>

lemma xsteps_safe: "(xstep servers)\<^sup>*\<^sup>* X X' \<Longrightarrow> safe servers X u A \<Longrightarrow> safe servers X' u A"
proof (induction rule: rtranclp_induct)
  case (step Y Z)
  from step(2) have "tree Y \<subseteq> tree Z \<and> acks Y \<subseteq> acks Z" by (induction rule: xstep.induct) auto
  with step(3) [OF step(4)] show ?case by (auto intro: safe_mono)
qed

lemma leader_has_safe:
  assumes "finite servers" and "xinv servers X" and "safe servers X u C" and "n \<in> servers" and "st (el X) n = Leader"
    and "u \<le> tm (el X) n"
  shows "prefix C (lg X n)"
proof (cases "C = []")
  case False
  note lD = logs_okD [OF xinvD(4) [OF assms(2)] assms(4)]
  from assms(3) False obtain w A where A: "w \<le> u" "committed servers X w A" "prefix C A" by (auto simp: safe_def)
  have "prefix A (lg X n)"
  proof (cases "w = tm (el X) n")
    case True
    with lD(4) [OF assms(5)] A(2) show ?thesis by (auto simp: committed_def)
  next
    case False
    from lD(3) [OF assms(5)] obtain E where E: "(tm (el X) n, E) \<in> reigns X" "prefix E (lg X n)"
      by (auto simp: reign_log_def)
    have "prefix A E" by (rule leader_completeness [OF assms(1,2) A(2) E(1)]) (use False A(1) assms(6) in simp)
    with E(2) show ?thesis by (blast intro: prefix_order.trans)
  qed
  with A(3) show ?thesis by (blast intro: prefix_order.trans)
qed simp

text \<open>The beginning: followers with empty logs and no history.\<close>

definition xinit :: "Election \<Rightarrow> Consensus" where
  "xinit E = \<lparr>el = E, lg = (\<lambda>_. []), ci = (\<lambda>_. 0), tree = {[]}, reigns = {}, asks = {}, snaps = {}, offers = {}, acks = {}\<rparr>"

lemma xinv_init:
  assumes "\<And>n. n \<in> servers \<Longrightarrow> st E n = Follower" and "cast E = {}" and "elected E = {}"
  shows "xinv servers (xinit E)"
  using election_inv_init [of servers E] assms
  by (auto simp: xinv_def xinit_def log_tree_def reigns_ok_def logs_ok_def asks_ok_def offers_ok_def acks_ok_def
      snaps_ok_def mandates_ok_def commits_ok_def safe_def lastTerm_def)

end
