(* ===== verification/Raft_System.thy ===== *)
theory Raft_System
  imports Raft_Cluster Consensus_Spec
begin

text \<open>
  The nodes of a cluster with their logs, and the proof that they implement the abstract protocol
  of \<^verbatim>\<open>Consensus_Spec\<close> on any stores that keep the contracts of \<^verbatim>\<open>LogStore\<close> and
  \<^verbatim>\<open>StableStore\<close>; writes to the log may fail. What follows for the cluster is in
  \<^verbatim>\<open>Raft_Safety\<close>.

  The steps are those of \<^verbatim>\<open>Raft_Cluster\<close>, with the answers to AppendEntries as messages, and with
  three restrictions that the code does not enforce (the races they exclude are theorems of
  \<^verbatim>\<open>Raft_Safety\<close>):

  \<^item> the no-op entry is appended while the node is still leader;
  \<^item> a new leadership starts with the initialisation of \<^verbatim>\<open>r.peers\<close> in \<^verbatim>\<open>runLeader\<close>, before a
    replicator of an earlier leadership of the node gets the lock;
  \<^item> a successful answer to AppendEntries is processed only while the node is the leader of the
    term of the request (later ones only make it step down, or are dropped).
\<close>

section \<open>State and steps\<close>

record ('l, 's, 'f, 'r) System =
  net :: "('l, 's, 'f, 'r) Cluster"
  replies :: "(string \<times> AppendEntriesRequest \<times> AppendEntriesResponse) set"

definition start_leader :: "'l LogStore \<Rightarrow> ('l, 's, 'f, 'r) RaftNode \<Rightarrow> ('l, 's, 'f, 'r) RaftNode" where
  "start_leader lops r = (if state r = Leader then initLeader lops r else r)"

abbreviation node_of :: "('l, 's, 'f, 'r) System \<Rightarrow> string \<Rightarrow> ('l, 's, 'f, 'r) RaftNode" where
  "node_of S n \<equiv> nodes (net S) n"

abbreviation set_node ::
    "string \<Rightarrow> ('l, 's, 'f, 'r) RaftNode \<Rightarrow> ('l, 's, 'f, 'r) System \<Rightarrow> ('l, 's, 'f, 'r) System" where
  "set_node n r S \<equiv> S\<lparr>net := put n r (net S)\<rparr>"

inductive rstep ::
    "'l LogStore \<Rightarrow> 's StableStore \<Rightarrow> ('f \<Rightarrow> string \<Rightarrow> ('f \<times> 'r option) option) \<Rightarrow> 'f \<Rightarrow> string set \<Rightarrow>
     ('l, 's, 'f, 'r) System \<Rightarrow> ('l, 's, 'f, 'r) System \<Rightarrow> bool"
  for lops sops fapply init servers where
  r_local: "n \<in> servers \<Longrightarrow> local_step lops fapply (node_of S n) r' \<Longrightarrow>
    rstep lops sops fapply init servers S (set_node n r' S)"
| r_noop: "n \<in> servers \<Longrightarrow> IsLeader (node_of S n) \<Longrightarrow>
    rstep lops sops fapply init servers S (set_node n (appendNoOp lops (node_of S n)) S)"
| r_elect: "n \<in> servers \<Longrightarrow> state (node_of S n) \<noteq> Leader \<Longrightarrow> Suc (currentTerm (node_of S n)) < 2 ^ 64 \<Longrightarrow>
    candidate_start lops sops (follower_timeout (node_of S n)) = (r', req, targets, votes) \<Longrightarrow>
    rstep lops sops fapply init servers S (S\<lparr>net := (put n (start_leader lops r') (net S))
      \<lparr>ballots := (ballots (net S))(n := {n}), voteReqs := insert req (voteReqs (net S)),
       vote_log := insert (rv_Term req, n, n) (vote_log (net S)),
       leaders := (if state r' = Leader then insert (currentTerm r', n) (leaders (net S)) else leaders (net S))\<rparr>\<rparr>)"
| r_request: "n \<in> servers \<Longrightarrow> req \<in> voteReqs (net S) \<Longrightarrow> rv_CandidateID req \<noteq> n \<Longrightarrow>
    handleRequestVote lops sops (node_of S n) req = (r', resp, reset) \<Longrightarrow>
    rstep lops sops fapply init servers S (S\<lparr>net := (put n r' (net S))
      \<lparr>voteResps := insert (n, req, resp) (voteResps (net S)),
       vote_log := (if rvr_VoteGranted resp then insert (rv_Term req, n, rv_CandidateID req) (vote_log (net S))
                    else vote_log (net S))\<rparr>\<rparr>)"
| r_vote: "n \<in> servers \<Longrightarrow> (v, req, resp) \<in> voteResps (net S) \<Longrightarrow> rv_CandidateID req = n \<Longrightarrow>
    state (node_of S n) = Candidate \<Longrightarrow> rv_Term req = currentTerm (node_of S n) \<Longrightarrow> v \<notin> ballots (net S) n \<Longrightarrow>
    rvr_Term resp < 2 ^ 64 \<Longrightarrow>
    candidate_vote sops (node_of S n) (card (ballots (net S) n)) resp = (r', votes', d) \<Longrightarrow>
    rstep lops sops fapply init servers S (S\<lparr>net := (put n (start_leader lops r') (net S))
      \<lparr>ballots := (if votes' = card (ballots (net S) n) then ballots (net S)
                   else (ballots (net S))(n := insert v (ballots (net S) n))),
       leaders := (if state r' = Leader then insert (currentTerm r', n) (leaders (net S)) else leaders (net S))\<rparr>\<rparr>)"
| r_send: "n \<in> servers \<Longrightarrow> replicate_request lops (node_of S n) peer = Some req \<Longrightarrow>
    rstep lops sops fapply init servers S (S\<lparr>net := (net S)\<lparr>appendReqs := insert req (appendReqs (net S))\<rparr>\<rparr>)"
| r_append: "n \<in> servers \<Longrightarrow> req \<in> appendReqs (net S) \<Longrightarrow> ae_LeaderID req \<noteq> n \<Longrightarrow>
    handleAppendEntries lops sops (node_of S n) req = Some (r', resp, reset) \<Longrightarrow>
    rstep lops sops fapply init servers S
      (S\<lparr>net := put n r' (net S), replies := insert (n, req, resp) (replies S)\<rparr>)"
| r_reply: "n \<in> servers \<Longrightarrow> (v, req, resp) \<in> replies S \<Longrightarrow> ae_LeaderID req = n \<Longrightarrow>
    IsLeader (node_of S n) \<Longrightarrow> ae_Term req = currentTerm (node_of S n) \<Longrightarrow> aer_Term resp < 2 ^ 64 \<Longrightarrow>
    map_of (peers (node_of S n)) v = Some peer \<Longrightarrow>
    replicate_response lops sops (node_of S n) True peer (ae_Entries req) resp = (r', peer') \<Longrightarrow>
    rstep lops sops fapply init servers S (set_node n r' S)"
| r_deposed: "n \<in> servers \<Longrightarrow> (v, req, resp) \<in> replies S \<Longrightarrow> ae_LeaderID req = n \<Longrightarrow>
    currentTerm (node_of S n) < aer_Term resp \<Longrightarrow> aer_Term resp < 2 ^ 64 \<Longrightarrow>
    replicate_response lops sops (node_of S n) live peer (ae_Entries req) resp = (r', peer') \<Longrightarrow>
    rstep lops sops fapply init servers S (set_node n r' S)"
| r_shutdown: "n \<in> servers \<Longrightarrow> rstep lops sops fapply init servers S (set_node n (Shutdown (node_of S n)) S)"
| r_restart: "n \<in> servers \<Longrightarrow>
    NewRaftNode sops (config (node_of S n)) (logStore (node_of S n)) (stableStore (node_of S n)) init = Ok r' \<Longrightarrow>
    rstep lops sops fapply init servers S (set_node n r' S)"

text \<open>Runs on which no log reaches the end of \<^verbatim>\<open>uint64\<close>.\<close>

definition bounded_step ::
    "'l LogStore \<Rightarrow> 's StableStore \<Rightarrow> ('f \<Rightarrow> string \<Rightarrow> ('f \<times> 'r option) option) \<Rightarrow> 'f \<Rightarrow> string set \<Rightarrow>
     ('l, 's, 'f, 'r) System \<Rightarrow> ('l, 's, 'f, 'r) System \<Rightarrow> bool" where
  "bounded_step lops sops fapply init servers S S' \<longleftrightarrow>
     (\<forall>n \<in> servers. last_idx lops (logStore (node_of S n)) < 2 ^ 64 - 1) \<and>
     rstep lops sops fapply init servers S S'"

text \<open>The beginning: followers with empty logs, before any message.\<close>

definition store_holds :: "('l \<Rightarrow> bool) \<Rightarrow> ('l \<Rightarrow> nat \<rightharpoonup> LogEntry) \<Rightarrow> 'l \<Rightarrow> LogEntry list \<Rightarrow> bool" where
  "store_holds sinv sabs s L \<longleftrightarrow> sinv s \<and> represents (sabs s) L"

definition system_start ::
    "('l \<Rightarrow> LogEntry list \<Rightarrow> bool) \<Rightarrow> 's StableStore \<Rightarrow> PeerConfig list \<Rightarrow> 'f \<Rightarrow> ('l, 's, 'f, 'r) System \<Rightarrow> bool" where
  "system_start log_of sops plist init S \<longleftrightarrow> cluster_init sops plist (net S) \<and> replies S = {} \<and>
     (\<forall>n \<in> server_ids plist. log_of (logStore (node_of S n)) [] \<and> commitIndex (node_of S n) = 0 \<and>
        lastApplied (node_of S n) = 0 \<and> fsm (node_of S n) = init)"

text \<open>Every step is made of steps of \<^verbatim>\<open>Raft_Cluster\<close>, so elections are safe.\<close>

lemma cstep_start_leader:
  assumes "cstep lops sops fapply IsLeader servers C D" and "n \<in> servers" and "nodes D n = r'"
    and "D' = put n (start_leader lops r') D"
  shows "(cstep lops sops fapply IsLeader servers)\<^sup>*\<^sup>* C D'"
proof (cases "state r' = Leader")
  case True
  have "cstep lops sops fapply IsLeader servers D (put n (initLeader lops (nodes D n)) D)"
    by (rule c_local [OF assms(2) local_init])
  with assms(1,3,4) True show ?thesis by (simp add: start_leader_def)
next
  case False
  have "put n (nodes D n) D = D" by (rule Cluster.equality) simp_all
  with False assms(3,4) have "D' = D" by (simp add: start_leader_def)
  with assms(1) show ?thesis by simp
qed

lemma net_update: "net (S\<lparr>net := C\<rparr>) = C" "net (S\<lparr>net := C, replies := R\<rparr>) = C"
  by simp_all

lemma rstep_csteps:
  "rstep lops sops fapply init servers S S' \<Longrightarrow> (cstep lops sops fapply IsLeader servers)\<^sup>*\<^sup>* (net S) (net S')"
proof (induction rule: rstep.induct)
  case (r_local n S r')
  show ?case by (simp only: net_update, rule r_into_rtranclp, rule c_local [OF r_local])
next
  case (r_noop n S)
  show ?case by (simp only: net_update, rule r_into_rtranclp, rule c_noop [where may_noop = IsLeader, OF r_noop])
next
  case (r_elect n S r' req targets votes)
  show ?case
    by (rule cstep_start_leader [OF c_elect [OF r_elect] r_elect(1)], simp) (rule Cluster.equality, simp_all)
next
  case (r_request n req S r' resp reset)
  show ?case by (simp only: net_update, rule r_into_rtranclp, rule c_request [OF r_request])
next
  case (r_vote n v req resp S r' votes' d)
  show ?case
    by (rule cstep_start_leader [OF c_vote [OF r_vote] r_vote(1)], simp) (rule Cluster.equality, simp_all)
next
  case (r_send n S peer req)
  show ?case by (simp only: net_update, rule r_into_rtranclp, rule c_send [OF r_send])
next
  case (r_append n req S r' resp reset)
  show ?case by (simp only: net_update, rule r_into_rtranclp, rule c_append [OF r_append])
next
  case (r_reply n v req resp S peer r' peer')
  show ?case by (simp only: net_update, rule r_into_rtranclp, rule c_reply [OF r_reply(1,6,8)])
next
  case (r_deposed n v req resp S live peer r' peer')
  show ?case by (simp only: net_update, rule r_into_rtranclp, rule c_reply [OF r_deposed(1,5,6)])
next
  case (r_shutdown n S)
  show ?case by (simp only: net_update, rule r_into_rtranclp, rule c_shutdown [OF r_shutdown])
next
  case (r_restart n S r')
  show ?case by (simp only: net_update, rule r_into_rtranclp, rule c_restart [OF r_restart])
qed

section \<open>The simulation relation\<close>

text \<open>
  What a leader knows of its peers is backed by acknowledgements; the messages in flight are the
  offers, candidacies and acknowledgements of the protocol. A request for a peer with a
  \<^verbatim>\<open>nextIndex\<close> outside the log has no entry to refer to and is refused by everyone.
\<close>

definition marks :: "('l, 's, 'f, 'r) RaftNode \<Rightarrow> (string \<times> string \<times> nat) list" where
  "marks r = map (\<lambda>(p, ps). (p, ps_id ps, matchIndex ps)) (peers r)"

definition leader_view :: "string set \<Rightarrow> Consensus \<Rightarrow> string \<Rightarrow> ('l, 's, 'f, 'r) RaftNode \<Rightarrow> bool" where
  "leader_view servers X n r \<longleftrightarrow> (state r = Leader \<longrightarrow>
     distinct (map fst (marks r)) \<and> fst ` set (marks r) = servers - {n} \<and>
     (\<forall>(p, q, k) \<in> set (marks r). q = p \<and> (k = 0 \<or> (\<exists>A. (currentTerm r, p, A) \<in> acks X \<and> k \<le> length A))))"

definition offered :: "Consensus \<Rightarrow> AppendEntriesRequest \<Rightarrow> bool" where
  "offered X req \<longleftrightarrow> 0 < ae_PrevLogIndex req \<and> ae_PrevLogTerm req = 0 \<or>
     (\<exists>B. (ae_Term req, B, ae_LeaderCommit req) \<in> offers X \<and> ae_PrevLogIndex req \<le> length B \<and>
        ae_Entries req = drop (ae_PrevLogIndex req) B \<and>
        (0 < ae_PrevLogIndex req \<longrightarrow> ae_PrevLogTerm req = Term (B ! (ae_PrevLogIndex req - 1))))"

definition asked :: "Consensus \<Rightarrow> RequestVoteRequest \<Rightarrow> bool" where
  "asked X req \<longleftrightarrow> (\<exists>L. (rv_Term req, rv_CandidateID req, L) \<in> asks X \<and> rv_LastLogIndex req = length L \<and>
     rv_LastLogTerm req = lastTerm L)"

definition acked :: "Consensus \<Rightarrow> string \<times> AppendEntriesRequest \<times> AppendEntriesResponse \<Rightarrow> bool" where
  "acked X m \<longleftrightarrow> (case m of (v, req, resp) \<Rightarrow> aer_Success resp \<and> ae_Entries req \<noteq> [] \<longrightarrow>
     (\<exists>A. (ae_Term req, v, A) \<in> acks X \<and> length A = Index (last (ae_Entries req))))"

lemma leader_view_mono:
  assumes "leader_view servers X n r" and "acks X \<subseteq> acks X'" and "marks r' = marks r"
    and "state r' = Leader \<Longrightarrow> state r = Leader \<and> currentTerm r' = currentTerm r"
  shows "leader_view servers X' n r'"
proof (cases "state r' = Leader")
  case True
  with assms(4) have r: "state r = Leader" "currentTerm r' = currentTerm r" by simp_all
  from assms(1) r(1) have lv: "distinct (map fst (marks r))" "fst ` set (marks r) = servers - {n}"
    "\<And>p q k. (p, q, k) \<in> set (marks r) \<Longrightarrow> q = p \<and> (k = 0 \<or> (\<exists>A. (currentTerm r, p, A) \<in> acks X \<and> k \<le> length A))"
    by (auto simp: leader_view_def)
  have "q = p \<and> (k = 0 \<or> (\<exists>A. (currentTerm r', p, A) \<in> acks X' \<and> k \<le> length A))" if "(p, q, k) \<in> set (marks r)" for p q k
    using lv(3) [OF that] assms(2) r(2) by auto
  with lv(1,2) assms(3) show ?thesis by (auto simp: leader_view_def)
qed (simp add: leader_view_def)

lemma offered_mono: "offered X req \<Longrightarrow> offers X \<subseteq> offers X' \<Longrightarrow> offered X' req"
  by (auto simp: offered_def dest: subsetD)

lemma asked_mono: "asked X req \<Longrightarrow> asks X \<subseteq> asks X' \<Longrightarrow> asked X' req"
  by (auto simp: asked_def dest: subsetD)

lemma acked_mono: "acked X m \<Longrightarrow> acks X \<subseteq> acks X' \<Longrightarrow> acked X' m"
  unfolding acked_def by (auto split: prod.splits)

text \<open>What the local steps do to a node.\<close>

lemma marks_trigger [simp]: "marks (triggerReplication r) = marks r"
  by (auto simp: marks_def triggerReplication_def)

lemma apply_one_peers: "apply_one lops fapply i r = Some r' \<Longrightarrow> peers r' = peers r"
  by (auto simp: apply_one_def respond_at_def Let_def split: option.splits prod.splits)

lemma applyCommitted_peers: "applyCommitted lops fapply r = Some r' \<Longrightarrow> peers r' = peers r"
proof -
  have "apply_range lops fapply is r = Some r' \<Longrightarrow> peers r' = peers r" for "is"
    by (induction "is" arbitrary: r) (auto simp: bind_eq_Some_conv dest: apply_one_peers)
  then show "applyCommitted lops fapply r = Some r' \<Longrightarrow> peers r' = peers r"
    by (auto simp: applyCommitted_def split: if_splits)
qed

lemma fail_all_keeps:
  "logStore (fail_all err r) = logStore r \<and> commitIndex (fail_all err r) = commitIndex r \<and>
   peers (fail_all err r) = peers r \<and> fsm (fail_all err r) = fsm r \<and> lastApplied (fail_all err r) = lastApplied r"
proof -
  let ?f = "\<lambda>r (idx, f). (respond_at f (Some err) None r)\<lparr>pendingFutures := AList.delete idx (pendingFutures r)\<rparr>"
  have "logStore (foldl ?f r xs) = logStore r \<and> commitIndex (foldl ?f r xs) = commitIndex r \<and>
     peers (foldl ?f r xs) = peers r \<and> fsm (foldl ?f r xs) = fsm r \<and> lastApplied (foldl ?f r xs) = lastApplied r" for xs
    by (induction xs arbitrary: r) (auto simp: respond_at_def)
  then show ?thesis by (simp add: fail_all_def)
qed

definition new_entry :: "'l LogStore \<Rightarrow> ('l, 's, 'f, 'r) RaftNode \<Rightarrow> string \<Rightarrow> LogEntry" where
  "new_entry lops r d = \<lparr>Index = u64 (last_idx lops (logStore r) + 1), Term = currentTerm r, Data = d\<rparr>"

lemma local_step_cases:
  assumes "local_step lops fapply r r'"
  obtains (quiet) "logStore r' = logStore r" "commitIndex r' = commitIndex r" "marks r' = marks r"
      "fsm r' = fsm r" "lastApplied r' = lastApplied r"
  | (append) d where "state r = Leader" "logStore r' = fst (StoreLog lops (logStore r) (new_entry lops r d))"
      "commitIndex r' = commitIndex r" "marks r' = marks r" "fsm r' = fsm r" "lastApplied r' = lastApplied r"
  | (init) "r' = initLeader lops r"
  | (applied) "applyCommitted lops fapply (r\<lparr>commitNotifyCh := False\<rparr>) = Some r'"
  using assms
proof (cases rule: local_step.cases)
  case (local_Apply data choice f)
  then show ?thesis
    by (intro quiet) (auto simp: raft_Apply_def marks_def respond_at_def Let_def split: if_splits apply_choice.splits)
next
  case (local_deadline f choice)
  then show ?thesis
    by (intro quiet) (auto simp: apply_deadline_def marks_def respond_at_def split: if_splits apply_choice.splits)
next
  case (local_request req reqs)
  show ?thesis
  proof (cases "state r = Leader")
    case True
    obtain ls err where st: "StoreLog lops (logStore r) (new_entry lops r (req_data req)) = (ls, err)" by fastforce
    with local_request(1) True have "logStore r' = ls \<and> commitIndex r' = commitIndex r \<and> marks r' = marks r \<and>
        fsm r' = fsm r \<and> lastApplied r' = lastApplied r"
      by (cases err) (auto simp: handleApplyRequest_def new_entry_def respond_at_def marks_def triggerReplication_def)
    with True st show ?thesis by (intro append [of "req_data req"]) auto
  next
    case False
    with local_request(1) show ?thesis
      by (intro quiet) (auto simp: handleApplyRequest_def respond_at_def marks_def)
  qed
next
  case local_init
  then show ?thesis by (intro init)
next
  case local_fail
  with fail_all_keeps [of ErrLeaderLost r] show ?thesis
    by (intro quiet) (auto simp: failPendingFutures_def marks_def)
next
  case local_commit
  then show ?thesis by (intro applied)
qed

lemma appendNoOp_keeps:
  "logStore (appendNoOp lops r) = fst (StoreLog lops (logStore r) (new_entry lops r []))"
  "commitIndex (appendNoOp lops r) = commitIndex r" "marks (appendNoOp lops r) = marks r"
  "fsm (appendNoOp lops r) = fsm r" "lastApplied (appendNoOp lops r) = lastApplied r"
  by (auto simp: appendNoOp_def new_entry_def marks_def triggerReplication_def Let_def split: prod.splits option.splits)

lemma update_fresh: "k \<notin> fst ` set al \<Longrightarrow> AList.update k v al = al @ [(k, v)]"
  by (induction al) auto

lemma marks_initLeader:
  assumes "distinct (map ID (Peers (config r)))"
  shows "marks (initLeader lops r) = map (\<lambda>p. (ID p, ID p, 0)) (filter (\<lambda>p. ID p \<noteq> ServerID (config r)) (Peers (config r)))"
proof -
  let ?me = "ServerID (config r)"
  let ?f = "\<lambda>m p. if ID p = ?me then m else AList.update (ID p) \<lparr>ps_id = ID p, ps_addr = Address p,
      nextIndex = u64 (last_idx lops (logStore r) + 1), matchIndex = 0, triggerCh = False\<rparr> m"
  have "map (\<lambda>(p, ps). (p, ps_id ps, matchIndex ps)) (foldl ?f al ps) =
      map (\<lambda>(p, ps). (p, ps_id ps, matchIndex ps)) al @ map (\<lambda>p. (ID p, ID p, 0)) (filter (\<lambda>p. ID p \<noteq> ?me) ps)"
    if "distinct (map ID ps)" "fst ` set al \<inter> ID ` set ps = {}" for al ps
    using that
  proof (induction ps arbitrary: al)
    case (Cons p ps)
    show ?case
    proof (cases "ID p = ?me")
      case True
      with Cons.IH [of al] Cons.prems show ?thesis by simp
    next
      case False
      have "AList.update (ID p) v al = al @ [(ID p, v)]" for v
        by (rule update_fresh) (use Cons.prems(2) in auto)
      with False Cons.IH [of "?f al p"] Cons.prems show ?thesis by auto
    qed
  qed simp
  from this [OF assms, of "[]"] show ?thesis by (simp add: marks_def initLeader_def)
qed

lemma leader_view_initLeader:
  assumes "Peers (config r) = plist" and "ServerID (config r) = n" and "distinct (map ID plist)"
  shows "leader_view (server_ids plist) X n (initLeader lops r)"
proof -
  note m = marks_initLeader [of r lops, unfolded assms(1,2), OF assms(3)]
  have "map fst (marks (initLeader lops r)) = map ID (filter (\<lambda>p. ID p \<noteq> n) plist)" by (simp add: m comp_def)
  then have "distinct (map fst (marks (initLeader lops r)))" using assms(3) by (simp add: distinct_map_filter)
  moreover have "fst ` set (marks (initLeader lops r)) = server_ids plist - {n}" by (auto simp: m image_iff)
  ultimately show ?thesis unfolding leader_view_def by (auto simp: m)
qed

lemma initLeader_keeps:
  "logStore (initLeader lops r) = logStore r" "commitIndex (initLeader lops r) = commitIndex r"
  "fsm (initLeader lops r) = fsm r" "lastApplied (initLeader lops r) = lastApplied r"
  "state (initLeader lops r) = state r" "currentTerm (initLeader lops r) = currentTerm r"
  "votedFor (initLeader lops r) = votedFor r"
  by (simp_all add: initLeader_def Let_def)

lemma start_leader_keeps:
  "logStore (start_leader lops r) = logStore r" "commitIndex (start_leader lops r) = commitIndex r"
  "fsm (start_leader lops r) = fsm r" "lastApplied (start_leader lops r) = lastApplied r"
  "state (start_leader lops r) = state r" "currentTerm (start_leader lops r) = currentTerm r"
  "votedFor (start_leader lops r) = votedFor r"
  by (simp_all add: start_leader_def initLeader_keeps)

lemma persistState_keeps [simp]:
  "commitIndex (persistState sops r) = commitIndex r" "fsm (persistState sops r) = fsm r"
  "lastApplied (persistState sops r) = lastApplied r" "peers (persistState sops r) = peers r"
  by (simp_all add: persistState_def Let_def)

lemma stepDown_keeps [simp]:
  "commitIndex (stepDown sops r t) = commitIndex r" "fsm (stepDown sops r t) = fsm r"
  "lastApplied (stepDown sops r t) = lastApplied r" "peers (stepDown sops r t) = peers r"
  by (simp_all add: stepDown_def)

lemma becomeLeader_keeps [simp]:
  "commitIndex (becomeLeader r) = commitIndex r" "fsm (becomeLeader r) = fsm r" "lastApplied (becomeLeader r) = lastApplied r"
  by (simp_all add: becomeLeader_def)

lemma candidate_start_keeps:
  assumes "candidate_start lops sops (follower_timeout r) = (r', req, targets, votes)"
  shows "logStore r' = logStore r" "commitIndex r' = commitIndex r" "fsm r' = fsm r" "lastApplied r' = lastApplied r"
    "config r' = config r" "lastLogInfo lops r = (rv_LastLogIndex req, rv_LastLogTerm req)"
proof -
  show "logStore r' = logStore r" "commitIndex r' = commitIndex r" "fsm r' = fsm r" "lastApplied r' = lastApplied r"
    "config r' = config r"
    using candidate_start_cases(1) [OF assms] by (simp_all add: follower_timeout_def)
  show "lastLogInfo lops r = (rv_LastLogIndex req, rv_LastLogTerm req)"
    using assms by (auto simp: candidate_start_def startElection_def follower_timeout_def lastLogInfo_def Let_def
        split: if_splits prod.splits)
qed

lemma newer_log_check: "newer_log L V \<longleftrightarrow> isLogUpToDate (lastTerm L) (length L) (lastTerm V) (length V)"
  by (auto simp: newer_log_def isLogUpToDate_def)

text \<open>The changes of role, seen in the protocol.\<close>

lemma x_to_newer:
  assumes "n \<in> servers" and "el X = view C" and "currentTerm (nodes C n) < currentTerm r'" and "votedFor r' = []"
    and "state r' = Follower"
  shows "xstep servers X (X\<lparr>el := view (put n r' C)\<rparr>)"
proof -
  have "view (put n r' C) = (el X)\<lparr>tm := (tm (el X))(n := currentTerm r'), vt := (vt (el X))(n := []),
      st := (st (el X))(n := Follower)\<rparr>"
    unfolding assms(2) view_put using assms(4,5) by simp
  moreover have "tm (el X) n < currentTerm r'" using assms(2,3) by simp
  ultimately show ?thesis using x_newer [OF assms(1), of X "currentTerm r'"] by simp
qed

lemma x_to_follower:
  assumes "n \<in> servers" and "el X = view C" and "currentTerm r' = currentTerm (nodes C n)"
    and "votedFor r' = votedFor (nodes C n)" and "state r' = Follower"
  shows "xstep servers X (X\<lparr>el := view (put n r' C)\<rparr>)"
proof -
  have "view (put n r' C) = (el X)\<lparr>st := (st (el X))(n := Follower)\<rparr>"
    using assms(2-5) by (auto simp: view_def fun_eq_iff)
  with x_quit [OF assms(1), of X] show ?thesis by simp
qed

lemma x_accept_leader:
  assumes "n \<in> servers" and "el X = view C" and "currentTerm (nodes C n) \<le> ae_Term req"
    and "(ae_Term req, ae_LeaderID req) \<in> leaders C" and "ae_LeaderID req \<noteq> n"
  shows "xstep servers X (X\<lparr>el := view (put n (accept_leader sops (nodes C n) req) C)\<rparr>)"
proof -
  let ?r = "nodes C n"
  let ?a = "accept_leader sops ?r req"
  consider (newer) "currentTerm ?r < ae_Term req" | (meet) "currentTerm ?r = ae_Term req" "state ?r \<noteq> Follower"
    | (known) "currentTerm ?r = ae_Term req" "state ?r = Follower"
    using assms(3) by linarith
  then show ?thesis
  proof cases
    case newer
    then have "votedFor ?a = []" "currentTerm ?a = ae_Term req" by (simp_all add: accept_leader_vote Let_def)
    with newer show ?thesis by (intro x_to_newer [OF assms(1,2)]) simp_all
  next
    case meet
    have "view (put n ?a C) = (el X)\<lparr>vt := (vt (el X))(n := []), st := (st (el X))(n := Follower)\<rparr>"
      using meet assms(2) by (auto simp: view_def fun_eq_iff accept_leader_vote Let_def)
    moreover have "xstep servers X (X\<lparr>el := (el X)\<lparr>vt := (vt (el X))(n := []), st := (st (el X))(n := Follower)\<rparr>\<rparr>)"
      by (rule x_meet [OF assms(1) _ assms(5)]) (use assms(2,4) meet in simp_all)
    ultimately show ?thesis by simp
  next
    case known
    then have "votedFor ?a = votedFor ?r" "currentTerm ?a = currentTerm ?r" by (simp_all add: accept_leader_vote Let_def)
    then show ?thesis by (intro x_to_follower [OF assms(1,2)]) simp_all
  qed
qed

locale raft_stores = log_store lops inv abs + stable_store sops
  for lops :: "'l LogStore" and inv :: "'l \<Rightarrow> bool" and abs :: "'l \<Rightarrow> nat \<rightharpoonup> LogEntry" and sops :: "'s StableStore"
begin

definition node_sim ::
    "('f \<Rightarrow> string \<Rightarrow> ('f \<times> 'r option) option) \<Rightarrow> 'f \<Rightarrow> string set \<Rightarrow> Consensus \<Rightarrow> string \<Rightarrow>
     ('l, 's, 'f, 'r) RaftNode \<Rightarrow> bool" where
  "node_sim fapply init servers X n r \<longleftrightarrow> holds (logStore r) (lg X n) \<and> commitIndex r = ci X n \<and>
     leader_view servers X n r \<and> lastApplied r \<le> ci X n \<and> applied_ok fapply init (lg X n) r"

definition sys_sim ::
    "('f \<Rightarrow> string \<Rightarrow> ('f \<times> 'r option) option) \<Rightarrow> 'f \<Rightarrow> string set \<Rightarrow> ('l, 's, 'f, 'r) System \<Rightarrow> Consensus \<Rightarrow> bool" where
  "sys_sim fapply init servers S X \<longleftrightarrow> el X = view (net S) \<and>
     (\<forall>n \<in> servers. node_sim fapply init servers X n (node_of S n)) \<and>
     (\<forall>req \<in> appendReqs (net S). offered X req) \<and> (\<forall>req \<in> voteReqs (net S). asked X req) \<and>
     (\<forall>m \<in> replies S. acked X m)"

lemma sys_simD:
  assumes "sys_sim fapply init servers S X"
  shows "el X = view (net S)" "n \<in> servers \<Longrightarrow> node_sim fapply init servers X n (node_of S n)"
    "req \<in> appendReqs (net S) \<Longrightarrow> offered X req" "rv \<in> voteReqs (net S) \<Longrightarrow> asked X rv" "m \<in> replies S \<Longrightarrow> acked X m"
  using assms by (auto simp: sys_sim_def)

lemma sys_sim_put:
  assumes "sys_sim fapply init servers S X" and "asks X \<subseteq> asks X'" and "offers X \<subseteq> offers X'" and "acks X \<subseteq> acks X'"
    and "\<And>m. m \<noteq> n \<Longrightarrow> lg X' m = lg X m \<and> ci X' m = ci X m" and "el X' = view (net S')"
    and "nodes (net S') = (nodes (net S))(n := r')" and "n \<in> servers \<Longrightarrow> node_sim fapply init servers X' n r'"
    and "\<And>req. req \<in> appendReqs (net S') \<Longrightarrow> req \<in> appendReqs (net S) \<or> offered X' req"
    and "\<And>req. req \<in> voteReqs (net S') \<Longrightarrow> req \<in> voteReqs (net S) \<or> asked X' req"
    and "\<And>m. m \<in> replies S' \<Longrightarrow> m \<in> replies S \<or> acked X' m"
  shows "sys_sim fapply init servers S' X'"
proof -
  note sD = sys_simD [OF assms(1)]
  have "node_sim fapply init servers X' m (node_of S' m)" if m: "m \<in> servers" for m
  proof (cases "m = n")
    case False
    have "leader_view servers X' m (node_of S m)"
      by (rule leader_view_mono [OF _ assms(4) refl]) (use sD(2) [OF m] in \<open>auto simp: node_sim_def\<close>)
    with sD(2) [OF m] assms(5) [OF False] assms(7) False show ?thesis by (simp add: node_sim_def)
  qed (use assms(7,8) m in simp)
  moreover have "offered X' req" if "req \<in> appendReqs (net S')" for req
    using assms(9) [OF that] sD(3) offered_mono [OF _ assms(3)] by blast
  moreover have "asked X' req" if "req \<in> voteReqs (net S')" for req
    using assms(10) [OF that] sD(4) asked_mono [OF _ assms(2)] by blast
  moreover have "acked X' m" if "m \<in> replies S'" for m
    using assms(11) [OF that] sD(5) acked_mono [OF _ assms(4)] by blast
  ultimately show ?thesis using assms(6) by (simp add: sys_sim_def)
qed

text \<open>A node that only changes its role or its term, with the same log.\<close>

lemma node_sim_role:
  assumes "node_sim fapply init servers X n r" and "acks X \<subseteq> acks X'" and "lg X' n = lg X n" and "ci X' n = ci X n"
    and "logStore r' = logStore r" and "commitIndex r' = commitIndex r" and "marks r' = marks r"
    and "fsm r' = fsm r" and "lastApplied r' = lastApplied r"
    and "state r' = Leader \<Longrightarrow> state r = Leader \<and> currentTerm r' = currentTerm r"
  shows "node_sim fapply init servers X' n r'"
  using leader_view_mono [OF _ assms(2,7,10)] assms(1,3-6,8,9) by (simp add: node_sim_def applied_ok_def)

lemma holds_write:
  assumes "holds (logStore r) L" and "length L < 2 ^ 64 - 1"
  shows "holds (fst (StoreLog lops (logStore r) (new_entry lops r d))) (L @ [new_entry lops r d]) \<or>
      holds (fst (StoreLog lops (logStore r) (new_entry lops r d))) L"
    "Index (new_entry lops r d) = Suc (length L)"
proof -
  show i: "Index (new_entry lops r d) = Suc (length L)"
    using assms(2) by (simp add: new_entry_def last_idx_holds [OF assms(1)] u64_id)
  obtain s' err where st: "StoreLogs lops (logStore r) [new_entry lops r d] = (s', err)" by fastforce
  have "consecutive (length L) [new_entry lops r d]" by (simp add: consecutive_def i)
  from StoreLogs_holds [OF assms(1) this st] st
  show "holds (fst (StoreLog lops (logStore r) (new_entry lops r d))) (L @ [new_entry lops r d]) \<or>
      holds (fst (StoreLog lops (logStore r) (new_entry lops r d))) L"
    by (auto simp: StoreLog_law split: if_splits)
qed

lemma sim_write:
  assumes "sys_sim fapply init servers S X" and "n \<in> servers" and "state (node_of S n) = Leader"
    and "last_idx lops (logStore (node_of S n)) < 2 ^ 64 - 1" and "same_vote (node_of S n) r'"
    and "logStore r' = fst (StoreLog lops (logStore (node_of S n)) (new_entry lops (node_of S n) d))"
    and "commitIndex r' = commitIndex (node_of S n)" and "marks r' = marks (node_of S n)"
    and "fsm r' = fsm (node_of S n)" and "lastApplied r' = lastApplied (node_of S n)"
  shows "\<exists>X'. (xstep servers)\<^sup>*\<^sup>* X X' \<and> sys_sim fapply init servers (set_node n r' S) X'"
proof -
  let ?r = "node_of S n" and ?e = "new_entry lops (node_of S n) d"
  note sD = sys_simD [OF assms(1)]
  have ns: "holds (logStore ?r) (lg X n)" "commitIndex ?r = ci X n" "leader_view servers X n ?r" "lastApplied ?r \<le> ci X n"
    "applied_ok fapply init (lg X n) ?r" using sD(2) [OF assms(2)] by (auto simp: node_sim_def)
  have len: "length (lg X n) < 2 ^ 64 - 1" using assms(4) by (simp add: last_idx_holds [OF ns(1)])
  note w = holds_write [OF ns(1) len, of d, folded assms(6)]
  have v: "currentTerm r' = currentTerm ?r" "state r' = state ?r" using assms(5) by (simp_all add: same_vote_def)
  have put: "sys_sim fapply init servers (set_node n r' S) X'"
    if "holds (logStore r') (lg X' n)" "applied_ok fapply init (lg X' n) ?r" "el X' = el X" "ci X' = ci X" "asks X' = asks X"
      "offers X' = offers X" "acks X' = acks X" "\<And>m. m \<noteq> n \<Longrightarrow> lg X' m = lg X m" for X'
  proof (rule sys_sim_put [OF assms(1), of X' n _ r'])
    show "el X' = view (net (set_node n r' S))" using sD(1) that(3) view_put_same [OF assms(5)] by simp
    show "node_sim fapply init servers X' n r'"
      using ns that assms(7-10) v leader_view_mono [OF ns(3), of X' r'] by (simp add: node_sim_def applied_ok_def)
  qed (use that in auto)
  from w(1) show ?thesis
  proof
    let ?X = "X\<lparr>lg := (lg X)(n := lg X n @ [?e]), tree := insert (lg X n @ [?e]) (tree X)\<rparr>"
    assume "holds (logStore r') (lg X n @ [?e])"
    then have "sys_sim fapply init servers (set_node n r' S) ?X"
      by (intro put) (use ns(5) in \<open>simp_all add: applied_ok_def\<close>)
    moreover have "xstep servers X ?X"
      by (rule x_write [OF assms(2)]) (use sD(1) assms(3) w(2) in \<open>simp_all add: new_entry_def\<close>)
    ultimately show ?thesis by blast
  next
    assume "holds (logStore r') (lg X n)"
    then have "sys_sim fapply init servers (set_node n r' S) X" by (intro put) (use ns(5) in simp_all)
    then show ?thesis by blast
  qed
qed

lemma sim_init:
  assumes "node_sim fapply init (server_ids plist) X n r" and "Peers (config r) = plist" and "ServerID (config r) = n"
    and "distinct (map ID plist)"
  shows "node_sim fapply init (server_ids plist) X n (initLeader lops r)"
  using assms(1) leader_view_initLeader [OF assms(2-4)]
  by (simp add: node_sim_def applied_ok_def initLeader_keeps)

lemma sim_applied:
  assumes "xinv servers X" and "n \<in> servers" and "node_sim fapply init servers X n r" and "length (lg X n) < 2 ^ 64 - 1"
    and "applyCommitted lops fapply (r\<lparr>commitNotifyCh := False\<rparr>) = Some r'"
  shows "node_sim fapply init servers X n r'"
proof -
  let ?r = "r\<lparr>commitNotifyCh := False\<rparr>"
  from assms(3) have ns: "holds (logStore ?r) (lg X n)" "commitIndex ?r = ci X n" "leader_view servers X n r"
    "lastApplied ?r \<le> ci X n" "applied_ok fapply init (lg X n) ?r" by (auto simp: node_sim_def applied_ok_def)
  have "commitIndex ?r \<le> length (lg X n)"
    using xinvD(10) [OF assms(1)] assms(2) ns(2) by (simp add: commits_ok_def)
  from applyCommitted_holds [OF ns(1) this assms(4) ns(5) assms(5)] ns(2,4)
  have a: "applied_ok fapply init (lg X n) r'" "lastApplied r' = ci X n" "logStore r' = logStore r" "commitIndex r' = ci X n"
    by auto
  have "marks r' = marks r" using applyCommitted_peers [OF assms(5)] by (simp add: marks_def)
  moreover have "state r' = state r" "currentTerm r' = currentTerm r"
    using same_vote_applyCommitted [OF assms(5)] by (simp_all add: same_vote_def)
  ultimately have "leader_view servers X n r'" by (intro leader_view_mono [OF ns(3) order.refl]) simp_all
  with a ns(1) show ?thesis by (simp add: node_sim_def)
qed

lemma sim_local:
  assumes "xinv (server_ids plist) X" and "sys_sim fapply init (server_ids plist) S X" and "configured plist (net S)"
    and "distinct (map ID plist)" and "n \<in> server_ids plist" and "last_idx lops (logStore (node_of S n)) < 2 ^ 64 - 1"
    and "local_step lops fapply (node_of S n) r'"
  shows "\<exists>X'. (xstep (server_ids plist))\<^sup>*\<^sup>* X X' \<and> sys_sim fapply init (server_ids plist) (set_node n r' S) X'"
proof -
  note sD = sys_simD [OF assms(2)]
  note same = local_step_same_vote [OF assms(7)]
  note ns = sD(2) [OF assms(5)]
  have keep: "sys_sim fapply init (server_ids plist) (set_node n r' S) X"
    if "node_sim fapply init (server_ids plist) X n r'"
    by (rule sys_sim_put [OF assms(2), of X n _ r']) (use sD(1) view_put_same [OF same] that in simp_all)
  have len: "length (lg X n) < 2 ^ 64 - 1"
    using assms(6) ns last_idx_holds [of "logStore (node_of S n)" "lg X n"] by (simp add: node_sim_def)
  from assms(7) show ?thesis
  proof (cases rule: local_step_cases)
    case quiet
    have "node_sim fapply init (server_ids plist) X n r'"
      by (rule node_sim_role [OF ns order.refl refl refl quiet(1-5)]) (use same in \<open>simp add: same_vote_def\<close>)
    with keep show ?thesis by blast
  next
    case (append d)
    from sim_write [OF assms(2,5) append(1) assms(6) same append(2-6)] show ?thesis .
  next
    case init
    have "Peers (config (node_of S n)) = plist" "ServerID (config (node_of S n)) = n"
      using assms(3,5) by (auto simp: configured_def)
    with sim_init [OF ns _ _ assms(4)] init keep show ?thesis by blast
  next
    case applied
    with sim_applied [OF assms(1,5) ns len] keep show ?thesis by blast
  qed
qed

lemma sim_noop:
  assumes "sys_sim fapply init servers S X" and "n \<in> servers" and "IsLeader (node_of S n)"
    and "last_idx lops (logStore (node_of S n)) < 2 ^ 64 - 1"
  shows "\<exists>X'. (xstep servers)\<^sup>*\<^sup>* X X' \<and> sys_sim fapply init servers (set_node n (appendNoOp lops (node_of S n)) S) X'"
  by (rule sim_write [OF assms(1,2) _ assms(4) same_vote_noop, of _ "[]"])
    (use assms(3) in \<open>simp_all add: IsLeader_def appendNoOp_keeps\<close>)

lemma lastLogInfo_holds:
  assumes "holds (logStore r) L"
  shows "lastLogInfo lops r = (length L, lastTerm L)"
proof (cases "L = []")
  case True
  then show ?thesis using LastIndex_holds [OF assms] by (simp add: lastLogInfo_def lastTerm_def)
next
  case False
  then have "got (GetLog lops (logStore r) (length L)) = Some (last L)"
    using got_holds [OF assms, of "length L"] by (simp add: last_conv_nth)
  moreover have "Index (last L) = length L"
  proof -
    have "map Index L = [1..<Suc (length L)]" using assms by (auto simp: holds_def represents_def)
    then have "last (map Index L) = last [1..<Suc (length L)]" by simp
    with False show ?thesis by (simp add: last_map Suc_le_eq)
  qed
  ultimately show ?thesis using LastIndex_holds [OF assms] False by (simp add: lastLogInfo_def lastTerm_def)
qed

lemma node_sim_start:
  assumes "node_sim fapply init (server_ids plist) X n r" and "lg X' n = lg X n" and "ci X' n = ci X n"
    and "logStore r' = logStore r" and "commitIndex r' = commitIndex r" and "fsm r' = fsm r"
    and "lastApplied r' = lastApplied r" and "Peers (config r') = plist" and "ServerID (config r') = n"
    and "distinct (map ID plist)"
  shows "node_sim fapply init (server_ids plist) X' n (start_leader lops r')"
proof -
  have "leader_view (server_ids plist) X' n (start_leader lops r')"
    using leader_view_initLeader [OF assms(8-10)] by (simp add: start_leader_def) (simp add: leader_view_def)
  with assms(1-7) show ?thesis by (simp add: node_sim_def applied_ok_def start_leader_keeps)
qed

lemma sim_elect:
  assumes "sys_sim fapply init (server_ids plist) S X" and "configured plist (net S)" and "distinct (map ID plist)"
    and "n \<in> server_ids plist" and "state (node_of S n) \<noteq> Leader" and "Suc (currentTerm (node_of S n)) < 2 ^ 64"
    and "candidate_start lops sops (follower_timeout (node_of S n)) = (r', req, targets, votes)"
  shows "\<exists>X'. (xstep (server_ids plist))\<^sup>*\<^sup>* X X' \<and> sys_sim fapply init (server_ids plist)
    (S\<lparr>net := (put n (start_leader lops r') (net S))
      \<lparr>ballots := (ballots (net S))(n := {n}), voteReqs := insert req (voteReqs (net S)),
       vote_log := insert (rv_Term req, n, n) (vote_log (net S)),
       leaders := (if state r' = Leader then insert (currentTerm r', n) (leaders (net S)) else leaders (net S))\<rparr>\<rparr>) X'"
    (is "\<exists>X'. _ \<and> sys_sim _ _ ?V ?S' X'")
proof -
  note sD = sys_simD [OF assms(1)] and ev = elect_view [OF assms(2-4,6,7)] and k = candidate_start_keeps [OF assms(7)]
  note ns = sD(2) [OF assms(4)]
  let ?E = "stand n (el X)"
  let ?X1 = "X\<lparr>el := ?E, asks := insert (tm (el X) n + 1, n, lg X n) (asks X),
      snaps := insert (tm (el X) n + 1, n, n, lg X n) (snaps X)\<rparr>"
  have cfg: "Peers (config r') = plist" "ServerID (config r') = n" using assms(2,4) k(5) by (auto simp: configured_def)
  have s1: "xstep ?V X ?X1" by (rule x_stand [OF assms(4)]) (use sD(1) assms(5) in simp)
  obtain X' where X': "(xstep ?V)\<^sup>*\<^sup>* X X'" "el X' = crown ?V n ?E" "lg X' = lg X" "ci X' = ci X" "asks X' = asks ?X1"
    "offers X' = offers X" "acks X' = acks X"
  proof (cases "majority ?V \<le> 1")
    case True
    let ?X2 = "?X1\<lparr>el := crown ?V n (el ?X1), reigns := insert (tm (el ?X1) n, lg ?X1 n) (reigns ?X1)\<rparr>"
    have "xstep ?V ?X1 ?X2" by (rule x_crown [OF assms(4)]) (use True in \<open>simp_all add: stand_def\<close>)
    with r_into_rtranclp [of "xstep ?V", OF s1] have "(xstep ?V)\<^sup>*\<^sup>* X ?X2" by (rule rtranclp.rtrancl_into_rtrancl)
    then show thesis by (rule that) simp_all
  next
    case False
    then have "crown ?V n ?E = ?E" by (simp add: crown_def stand_def)
    with s1 show thesis by (intro that [of ?X1]) simp_all
  qed
  have "sys_sim fapply init ?V ?S' X'"
  proof (rule sys_sim_put [OF assms(1), of X' n _ "start_leader lops r'"])
    have "view (net ?S') = view ((put n r' (net S))\<lparr>ballots := (ballots (net S))(n := {n}), voteReqs := insert req (voteReqs (net S)),
       vote_log := insert (rv_Term req, n, n) (vote_log (net S)),
       leaders := (if state r' = Leader then insert (currentTerm r', n) (leaders (net S)) else leaders (net S))\<rparr>)"
      by (simp add: view_def start_leader_keeps fun_eq_iff)
    then show "el X' = view (net ?S')" using X'(2) sD(1) ev(1) by simp
    show "node_sim fapply init ?V X' n (start_leader lops r')"
      by (rule node_sim_start [OF ns _ _ k(1-4) cfg assms(3)]) (simp_all add: X')
    have "asked X' req"
      using ns k(6) lastLogInfo_holds [of "node_of S n" "lg X n"] candidate_start_cases(4) [OF assms(7)] cfg k(5) ev(2) sD(1) X'(5)
      by (auto simp: asked_def node_sim_def follower_timeout_def)
    then show "q \<in> voteReqs (net S) \<or> asked X' q" if "q \<in> voteReqs (net ?S')" for q using that by auto
  qed (use X' in auto)
  with X'(1) show ?thesis by blast
qed

text \<open>A step that only changes the role and the term of one node.\<close>

lemma sim_role:
  assumes "sys_sim fapply init servers S X" and "n \<in> servers" and "(xstep servers)\<^sup>*\<^sup>* X (X\<lparr>el := view (put n r' (net S))\<rparr>)"
    and "logStore r' = logStore (node_of S n)" and "commitIndex r' = commitIndex (node_of S n)"
    and "marks r' = marks (node_of S n)" and "fsm r' = fsm (node_of S n)" and "lastApplied r' = lastApplied (node_of S n)"
    and "state r' = Leader \<Longrightarrow> state (node_of S n) = Leader \<and> currentTerm r' = currentTerm (node_of S n)"
    and "nodes (net S') = (nodes (net S))(n := r')" and "view (net S') = view (put n r' (net S))"
    and "appendReqs (net S') = appendReqs (net S)" and "voteReqs (net S') = voteReqs (net S)"
    and "\<And>m. m \<in> replies S' \<Longrightarrow> m \<in> replies S \<or> acked X m"
  shows "\<exists>X'. (xstep servers)\<^sup>*\<^sup>* X X' \<and> sys_sim fapply init servers S' X'"
proof -
  let ?X = "X\<lparr>el := view (put n r' (net S))\<rparr>"
  have "sys_sim fapply init servers S' ?X"
  proof (rule sys_sim_put [OF assms(1), of ?X n S' r'])
    show "node_sim fapply init servers ?X n r'"
      by (rule node_sim_role [OF sys_simD(2) [OF assms(1,2)] _ _ _ assms(4-9)]) simp_all
    show "m \<in> replies S \<or> acked ?X m" if "m \<in> replies S'" for m
      using assms(14) [OF that] by (simp add: acked_def)
  qed (use assms(10-13) in simp_all)
  with assms(3) show ?thesis by blast
qed

lemma x_same:
  assumes "el X = view C" and "same_vote (nodes C n) r'"
  shows "(xstep servers)\<^sup>*\<^sup>* X (X\<lparr>el := view (put n r' C)\<rparr>)"
proof -
  have "X\<lparr>el := view (put n r' C)\<rparr> = X" using assms(1) view_put_same [OF assms(2)] by simp
  then show ?thesis by simp
qed

lemma marks_peers: "peers r' = peers r \<Longrightarrow> marks r' = marks r"
  by (simp add: marks_def)

lemma sim_request:
  assumes "sys_sim fapply init servers S X" and "n \<in> servers" and "req \<in> voteReqs (net S)" and "rv_CandidateID req \<noteq> n"
    and "rv_CandidateID req \<in> servers"
    and "handleRequestVote lops sops (node_of S n) req = (r', resp, reset)"
  shows "\<exists>X'. (xstep servers)\<^sup>*\<^sup>* X X' \<and> sys_sim fapply init servers (S\<lparr>net := (put n r' (net S))
      \<lparr>voteResps := insert (n, req, resp) (voteResps (net S)),
       vote_log := (if rvr_VoteGranted resp then insert (rv_Term req, n, rv_CandidateID req) (vote_log (net S))
                    else vote_log (net S))\<rparr>\<rparr>) X'"
    (is "\<exists>X'. _ \<and> sys_sim _ _ _ ?S' X'")
proof -
  note sD = sys_simD [OF assms(1)]
  note ns = sD(2) [OF assms(2)]
  let ?r = "node_of S n"
  have step_down: "(xstep servers)\<^sup>*\<^sup>* X (X\<lparr>el := view (put n r1 (net S))\<rparr>)"
    if "r1 = (if currentTerm ?r < rv_Term req then stepDown sops ?r (rv_Term req) else ?r)" for r1
  proof (cases "currentTerm ?r < rv_Term req")
    case True
    with that show ?thesis by (intro r_into_rtranclp x_to_newer [OF assms(2) sD(1)]) simp_all
  next
    case False
    with that show ?thesis by (intro x_same [OF sD(1)]) simp
  qed
  from assms(6) show ?thesis
  proof (cases rule: handleRequestVote_cases)
    case stale
    show ?thesis
      by (rule sim_role [OF assms(1,2) x_same [OF sD(1), of n r']]) (use stale in \<open>simp_all add: view_def\<close>)
  next
    case refused
    show ?thesis
      by (rule sim_role [OF assms(1,2) step_down [OF refused(3)]])
        (use refused in \<open>simp_all add: view_def marks_def split: if_splits\<close>)
  next
    case (granted r1)
    let ?c = "rv_CandidateID req" and ?X1 = "X\<lparr>el := view (put n r1 (net S))\<rparr>"
    let ?X2 = "?X1\<lparr>el := (el ?X1)\<lparr>vt := (vt (el ?X1))(n := ?c), cast := insert (tm (el ?X1) n, n, ?c) (cast (el ?X1))\<rparr>,
      snaps := insert (tm (el ?X1) n, n, ?c, lg ?X1 n) (snaps ?X1)\<rparr>"
    have t1: "currentTerm r1 = rv_Term req" using granted(1,3) by (auto split: if_splits)
    have r1: "logStore r1 = logStore ?r" "commitIndex r1 = commitIndex ?r" "peers r1 = peers ?r" "fsm r1 = fsm ?r"
      "lastApplied r1 = lastApplied ?r" "state r1 = Leader \<Longrightarrow> state ?r = Leader \<and> currentTerm r1 = currentTerm ?r"
      using granted(3) by (simp_all split: if_splits)
    obtain L where L: "(rv_Term req, ?c, L) \<in> asks X" "rv_LastLogIndex req = length L" "rv_LastLogTerm req = lastTerm L"
      using sD(4) [OF assms(3)] by (auto simp: asked_def)
    have "holds (logStore r1) (lg X n)" using ns r1(1) by (simp add: node_sim_def)
    from lastLogInfo_holds [OF this] granted(6) L have nl: "newer_log L (lg X n)" by (simp add: newer_log_check)
    have "xstep servers ?X1 ?X2"
      by (rule x_grant [OF assms(2,5,4)]) (use granted(4) t1 L(1) nl in simp_all)
    with step_down [OF granted(3)] have steps: "(xstep servers)\<^sup>*\<^sup>* X ?X2" by (rule rtranclp.rtrancl_into_rtrancl)
    have "sys_sim fapply init servers ?S' ?X2"
    proof (rule sys_sim_put [OF assms(1), of ?X2 n _ r'])
      show "el ?X2 = view (net ?S')"
        using granted(2,5) t1 by (auto simp: view_def fun_eq_iff)
      show "node_sim fapply init servers ?X2 n r'"
        by (rule node_sim_role [OF ns]) (use granted(5) r1 in \<open>simp_all add: marks_def\<close>)
    qed simp_all
    with steps show ?thesis by blast
  qed
qed

text \<open>A vote that is not counted, and one that is.\<close>

lemma sim_vote_refused:
  assumes "xinv (server_ids plist) X" and "sys_sim fapply init (server_ids plist) S X" and "configured plist (net S)"
    and "distinct (map ID plist)" and "n \<in> server_ids plist" and "state (node_of S n) = Candidate"
    and "v \<notin> ballots (net S) n" and "v \<in> server_ids plist"
    and "rvr_VoteGranted resp \<Longrightarrow> (currentTerm (node_of S n), v, n) \<in> vote_log (net S)"
    and "candidate_vote sops (node_of S n) (card (ballots (net S) n)) resp = (r', votes', d)"
    and "\<not> (rvr_VoteGranted resp \<and> rvr_Term resp \<le> currentTerm (node_of S n))"
  shows "\<exists>X'. (xstep (server_ids plist))\<^sup>*\<^sup>* X X' \<and> sys_sim fapply init (server_ids plist)
    (S\<lparr>net := (put n (start_leader lops r') (net S))
      \<lparr>ballots := (if votes' = card (ballots (net S) n) then ballots (net S)
                   else (ballots (net S))(n := insert v (ballots (net S) n))),
       leaders := (if state r' = Leader then insert (currentTerm r', n) (leaders (net S)) else leaders (net S))\<rparr>\<rparr>) X'"
    (is "\<exists>X'. _ \<and> sys_sim _ _ ?V ?S' X'")
proof -
  note sD = sys_simD [OF assms(2)]
  let ?r = "node_of S n"
  have keep: "state r' \<noteq> Leader" "votes' = card (ballots (net S) n)" "logStore r' = logStore ?r" "marks r' = marks ?r"
    "commitIndex r' = commitIndex ?r" "fsm r' = fsm ?r" "lastApplied r' = lastApplied ?r"
    "(xstep ?V)\<^sup>*\<^sup>* X (X\<lparr>el := view (put n r' (net S))\<rparr>)"
  proof -
    from assms(10) consider (newer) "currentTerm ?r < rvr_Term resp" "r' = stepDown sops ?r (rvr_Term resp)" "votes' = card (ballots (net S) n)"
      | (same) "r' = ?r" "votes' = card (ballots (net S) n)"
      using assms(11) by (auto simp: candidate_vote_def split: if_splits)
    then have "state r' \<noteq> Leader \<and> votes' = card (ballots (net S) n) \<and> logStore r' = logStore ?r \<and> marks r' = marks ?r \<and>
      commitIndex r' = commitIndex ?r \<and> fsm r' = fsm ?r \<and> lastApplied r' = lastApplied ?r \<and>
      (xstep ?V)\<^sup>*\<^sup>* X (X\<lparr>el := view (put n r' (net S))\<rparr>)"
    proof cases
      case newer
      have "xstep ?V X (X\<lparr>el := view (put n r' (net S))\<rparr>)"
        by (rule x_to_newer [OF assms(5) sD(1)]) (use newer in simp_all)
      with newer show ?thesis by (simp add: marks_def)
    next
      case same
      with assms(6) x_same [OF sD(1), of n r'] show ?thesis by simp
    qed
    then show "state r' \<noteq> Leader" "votes' = card (ballots (net S) n)" "logStore r' = logStore ?r" "marks r' = marks ?r"
      "commitIndex r' = commitIndex ?r" "fsm r' = fsm ?r" "lastApplied r' = lastApplied ?r"
      "(xstep ?V)\<^sup>*\<^sup>* X (X\<lparr>el := view (put n r' (net S))\<rparr>)" by blast+
  qed
  have "start_leader lops r' = r'" using keep(1) by (simp add: start_leader_def)
  with keep show ?thesis
    by (intro sim_role [OF assms(2,5) keep(8)]) (simp_all add: view_def)
qed

lemma count_vote_steps:
  assumes "n \<in> V" and "v \<in> V" and "st (el X) n = Candidate" and "(tm (el X) n, v, n) \<in> cast (el X)"
  obtains X' where "(xstep V)\<^sup>*\<^sup>* X X'" "el X' = crown V n (count_vote n v (el X))" "lg X' = lg X" "ci X' = ci X"
      "asks X' = asks X" "offers X' = offers X" "acks X' = acks X"
proof -
  let ?X1 = "X\<lparr>el := count_vote n v (el X)\<rparr>"
  have s1: "xstep V X ?X1" by (rule x_count [OF assms(1,2)]) (use assms(3,4) in simp_all)
  show thesis
  proof (cases "majority V \<le> card (insert v (ballot (el X) n))")
    case True
    let ?X2 = "?X1\<lparr>el := crown V n (el ?X1), reigns := insert (tm (el ?X1) n, lg ?X1 n) (reigns ?X1)\<rparr>"
    have "xstep V ?X1 ?X2"
      by (rule x_crown [OF assms(1)]) (use True assms(3) in \<open>simp_all add: count_vote_def\<close>)
    with r_into_rtranclp [of "xstep V", OF s1] have "(xstep V)\<^sup>*\<^sup>* X ?X2" by (rule rtranclp.rtrancl_into_rtrancl)
    then show thesis by (rule that) simp_all
  next
    case False
    then have "crown V n (count_vote n v (el X)) = count_vote n v (el X)"
      by (simp add: crown_def count_vote_def)
    with s1 show thesis by (intro that [of ?X1]) simp_all
  qed
qed

lemma sim_vote_counted:
  assumes "xinv (server_ids plist) X" and "sys_sim fapply init (server_ids plist) S X" and "configured plist (net S)"
    and "distinct (map ID plist)" and "n \<in> server_ids plist" and "state (node_of S n) = Candidate"
    and "v \<notin> ballots (net S) n" and "v \<in> server_ids plist"
    and "rvr_VoteGranted resp \<Longrightarrow> (currentTerm (node_of S n), v, n) \<in> vote_log (net S)"
    and "candidate_vote sops (node_of S n) (card (ballots (net S) n)) resp = (r', votes', d)"
    and "rvr_VoteGranted resp" and "rvr_Term resp \<le> currentTerm (node_of S n)"
  shows "\<exists>X'. (xstep (server_ids plist))\<^sup>*\<^sup>* X X' \<and> sys_sim fapply init (server_ids plist)
    (S\<lparr>net := (put n (start_leader lops r') (net S))
      \<lparr>ballots := (if votes' = card (ballots (net S) n) then ballots (net S)
                   else (ballots (net S))(n := insert v (ballots (net S) n))),
       leaders := (if state r' = Leader then insert (currentTerm r', n) (leaders (net S)) else leaders (net S))\<rparr>\<rparr>) X'"
    (is "\<exists>X'. _ \<and> sys_sim _ _ ?V ?S' X'")
proof -
  note sD = sys_simD [OF assms(2)]
  note ns = sD(2) [OF assms(5)]
  let ?r = "node_of S n"
  have b: "ballots (net S) n \<subseteq> ?V"
    using election_invD(1) [OF xinvD(1) [OF assms(1)]] assms(5,6) sD(1) by (auto simp: roles_ok_def)
  have fin: "finite (ballots (net S) n)" by (rule finite_subset [OF b]) simp
  note vv = vote_view [OF assms(3-7) fin assms(11,12,10)]
  have cfg: "Peers (config r') = plist" "ServerID (config r') = n"
    using assms(3,5) vv(3) by (auto simp: configured_def)
  obtain X' where X': "(xstep ?V)\<^sup>*\<^sup>* X X'" "el X' = crown ?V n (count_vote n v (el X))" "lg X' = lg X" "ci X' = ci X"
    "asks X' = asks X" "offers X' = offers X" "acks X' = acks X"
    by (rule count_vote_steps [OF assms(5,8), of X]) (use sD(1) assms(6,9,11) in simp_all)
  have "sys_sim fapply init ?V ?S' X'"
  proof (rule sys_sim_put [OF assms(2), of X' n _ "start_leader lops r'"])
    have "view (net ?S') = view ((put n r' (net S))
        \<lparr>ballots := (if votes' = card (ballots (net S) n) then ballots (net S)
                 else (ballots (net S))(n := insert v (ballots (net S) n))),
         leaders := (if state r' = Leader then insert (currentTerm r', n) (leaders (net S)) else leaders (net S))\<rparr>)"
      by (simp add: view_def start_leader_keeps fun_eq_iff)
    then show "el X' = view (net ?S')" using X'(2) sD(1) vv(1) by simp
    have k: "logStore r' = logStore ?r" "commitIndex r' = commitIndex ?r" "fsm r' = fsm ?r" "lastApplied r' = lastApplied ?r"
      using vv(3) by auto
    show "node_sim fapply init ?V X' n (start_leader lops r')"
      by (rule node_sim_start [OF ns _ _ k cfg assms(4)]) (simp_all add: X')
  qed (use X' in auto)
  with X'(1) show ?thesis by blast
qed

lemma sim_vote:
  assumes "xinv (server_ids plist) X" and "sys_sim fapply init (server_ids plist) S X" and "configured plist (net S)"
    and "distinct (map ID plist)" and "n \<in> server_ids plist" and "state (node_of S n) = Candidate"
    and "v \<notin> ballots (net S) n" and "v \<in> server_ids plist"
    and "rvr_VoteGranted resp \<Longrightarrow> (currentTerm (node_of S n), v, n) \<in> vote_log (net S)"
    and "candidate_vote sops (node_of S n) (card (ballots (net S) n)) resp = (r', votes', d)"
  shows "\<exists>X'. (xstep (server_ids plist))\<^sup>*\<^sup>* X X' \<and> sys_sim fapply init (server_ids plist)
    (S\<lparr>net := (put n (start_leader lops r') (net S))
      \<lparr>ballots := (if votes' = card (ballots (net S) n) then ballots (net S)
                   else (ballots (net S))(n := insert v (ballots (net S) n))),
       leaders := (if state r' = Leader then insert (currentTerm r', n) (leaders (net S)) else leaders (net S))\<rparr>\<rparr>) X'"
proof (cases "rvr_VoteGranted resp \<and> rvr_Term resp \<le> currentTerm (node_of S n)")
  case True
  show ?thesis by (rule sim_vote_counted [OF assms conjunct1 [OF True] conjunct2 [OF True]])
next
  case False
  show ?thesis by (rule sim_vote_refused [OF assms False])
qed

text \<open>A request for a peer whose \<^verbatim>\<open>nextIndex\<close> is in range offers the leader's log from there on.\<close>

lemma request_offered:
  assumes "holds (logStore r) L" and "length L < 2 ^ 64 - 1" and "replicate_request lops r peer = Some req"
    and "(currentTerm r, L, commitIndex r) \<in> offers X"
  shows "offered X req"
proof -
  have l: "state r = Leader" using assms(3) by (auto simp: replicate_request_def split: if_splits)
  show ?thesis
  proof (cases "0 < nextIndex peer \<and> nextIndex peer \<le> Suc (length L)")
    case True
    note rq = replicate_request_holds [OF assms(1,2) l conjunct1 [OF True] conjunct2 [OF True]]
    have two: "nextIndex peer - 1 - 1 = nextIndex peer - 2" by simp
    have "ae_Term req = currentTerm r" "ae_PrevLogIndex req = nextIndex peer - 1" "ae_LeaderCommit req = commitIndex r"
      "ae_PrevLogTerm req = (if 1 < nextIndex peer then Term (L ! (nextIndex peer - 2)) else 0)"
      "ae_Entries req = drop (nextIndex peer - 1) L"
      using assms(3) rq by auto
    with assms(4) True two show ?thesis unfolding offered_def by auto
  next
    case False
    then have out: "length L < u64_pred (nextIndex peer)" using assms(2) by (auto simp: u64_pred_def)
    with got_absent [OF assms(1), of "u64_pred (nextIndex peer)"] assms(3) l show ?thesis
      by (auto simp: offered_def replicate_request_def Let_def)
  qed
qed

lemma sim_send:
  assumes "sys_sim fapply init servers S X" and "n \<in> servers" and "last_idx lops (logStore (node_of S n)) < 2 ^ 64 - 1"
    and "replicate_request lops (node_of S n) peer = Some req"
  shows "\<exists>X'. (xstep servers)\<^sup>*\<^sup>* X X' \<and>
    sys_sim fapply init servers (S\<lparr>net := (net S)\<lparr>appendReqs := insert req (appendReqs (net S))\<rparr>\<rparr>) X'"
    (is "\<exists>X'. _ \<and> sys_sim _ _ _ ?S' X'")
proof -
  note sD = sys_simD [OF assms(1)]
  note ns = sD(2) [OF assms(2)]
  let ?r = "node_of S n"
  let ?X = "X\<lparr>offers := insert (tm (el X) n, lg X n, ci X n) (offers X)\<rparr>"
  have l: "state ?r = Leader" using assms(4) by (auto simp: replicate_request_def split: if_splits)
  have h: "holds (logStore ?r) (lg X n)" and c: "commitIndex ?r = ci X n" using ns by (simp_all add: node_sim_def)
  have len: "length (lg X n) < 2 ^ 64 - 1" using assms(3) by (simp add: last_idx_holds [OF h])
  have "xstep servers X ?X" by (rule x_offer [OF assms(2)]) (use sD(1) l in simp)
  moreover have "sys_sim fapply init servers ?S' ?X"
  proof (rule sys_sim_put [OF assms(1), of ?X n ?S' ?r])
    show "node_sim fapply init servers ?X n ?r" by (rule node_sim_role [OF ns]) simp_all
    have "offered ?X req" by (rule request_offered [OF h len assms(4)]) (use sD(1) c in simp)
    then show "q \<in> appendReqs (net S) \<or> offered ?X q" if "q \<in> appendReqs (net ?S')" for q using that by auto
  qed (use sD(1) in \<open>auto simp: view_def\<close>)
  ultimately show ?thesis by blast
qed

text \<open>What the handler of AppendEntries accepts is an offer of the protocol.\<close>

lemma offered_accept:
  assumes "xinv servers X" and "n \<in> servers" and "offered X req"
    and "ae_PrevLogIndex req = 0 \<or> ae_PrevLogIndex req \<le> length (lg X n) \<and>
      Term (lg X n ! (ae_PrevLogIndex req - 1)) = ae_PrevLogTerm req"
  obtains B where "(ae_Term req, B, ae_LeaderCommit req) \<in> offers X" "ae_PrevLogIndex req \<le> length B"
    "ae_Entries req = drop (ae_PrevLogIndex req) B" "consecutive (ae_PrevLogIndex req) (ae_Entries req)"
    "ae_PrevLogIndex req = 0 \<or> ae_PrevLogIndex req \<le> length (lg X n) \<and>
      Term (lg X n ! (ae_PrevLogIndex req - 1)) = Term (B ! (ae_PrevLogIndex req - 1))"
    "ae_Entries req \<noteq> [] \<Longrightarrow> length B = Index (last (ae_Entries req))"
proof -
  let ?p = "ae_PrevLogIndex req"
  note inv = xinvD [OF assms(1)]
  have "\<not> (0 < ?p \<and> ae_PrevLogTerm req = 0)"
  proof
    assume h: "0 < ?p \<and> ae_PrevLogTerm req = 0"
    with assms(4) have "lg X n ! (?p - 1) \<in> set (lg X n)" "Term (lg X n ! (?p - 1)) = 0" by auto
    with log_treeD(6) [OF inv(2) logs_okD(1) [OF inv(4) assms(2)]] show False by fastforce
  qed
  with assms(3) obtain B where B: "(ae_Term req, B, ae_LeaderCommit req) \<in> offers X" "?p \<le> length B"
    "ae_Entries req = drop ?p B" "0 < ?p \<Longrightarrow> ae_PrevLogTerm req = Term (B ! (?p - 1))"
    by (auto simp: offered_def)
  have "B \<in> tree X" using offers_okD(1) [OF inv(6) B(1)] by (simp add: reign_log_def)
  then have idx: "map Index B = [1..<Suc (length B)]" by (rule log_treeD(4) [OF inv(2)])
  then have "consecutive 0 (take ?p B @ drop ?p B)" by (simp add: consecutive_def)
  then have c: "consecutive ?p (ae_Entries req)"
    unfolding consecutive_append using B(2,3) by (simp del: append_take_drop_id)
  moreover have "length B = Index (last (ae_Entries req))" if "ae_Entries req \<noteq> []"
    using consecutive_nth [OF c, of "length (ae_Entries req) - 1"] that B(2,3) by (simp add: last_conv_nth)
  moreover have "?p = 0 \<or> ?p \<le> length (lg X n) \<and> Term (lg X n ! (?p - 1)) = Term (B ! (?p - 1))"
    using assms(4) B(4) by (cases "?p = 0") auto
  ultimately show thesis using that [OF B(1-3)] by blast
qed

lemma accept_leader_peers [simp]: "peers (accept_leader sops r req) = peers r"
  by (simp add: accept_leader_def Let_def)

lemma follower_commit_keeps [simp]:
  "fsm (follower_commit lops r req) = fsm r" "lastApplied (follower_commit lops r req) = lastApplied r"
  by (simp_all add: follower_commit_def notifyCommit_def Let_def)

lemma node_sim_accept:
  assumes "node_sim fapply init servers X n r" and "r1 = (accept_leader sops r req)\<lparr>logStore := logStore r1\<rparr>"
    and "holds (logStore r1) L'" and "lg X' n = L'"
    and "ci X' n = (if ci X n < ae_LeaderCommit req then min (ae_LeaderCommit req) (length L') else ci X n)"
    and "ci X n \<le> length L'" and "take (ci X n) L' = take (ci X n) (lg X n)"
    and "ae_LeaderCommit req \<le> length L'"
  shows "node_sim fapply init servers X' n (follower_commit lops r1 req)"
proof -
  note ns = assms(1) [unfolded node_sim_def]
  have keep: "commitIndex r1 = ci X n" "lastApplied r1 = lastApplied r" "fsm r1 = fsm r" "state r1 = Follower"
    using ns by (subst assms(2), simp)+
  have la: "lastApplied r \<le> ci X n" "lastApplied r \<le> length (lg X n)"
    "apply_datas fapply init (map Data (take (lastApplied r) (lg X n))) = Some (fsm r)"
    using ns by (simp_all add: applied_ok_def)
  have "take (lastApplied r) L' = take (lastApplied r) (take (ci X n) L')" using la(1) by (simp add: min_def)
  also have "\<dots> = take (lastApplied r) (lg X n)" using assms(7) la(1) by (simp add: min_def)
  finally have "applied_ok fapply init L' (follower_commit lops r1 req)"
    using la assms(6) keep by (simp add: applied_ok_def)
  moreover have "commitIndex (follower_commit lops r1 req) = ci X' n"
    using keep(1) assms(5) by (simp add: follower_commit_def notifyCommit_def Let_def last_idx_holds [OF assms(3)])
  moreover have "lastApplied r \<le> ci X' n" using la(1) assms(5,8) by simp
  ultimately show ?thesis
    using assms(3,4) keep by (simp add: node_sim_def leader_view_def)
qed

lemma sim_accept:
  assumes "finite servers" and "[] \<notin> servers" and "xinv servers X" and "sys_sim fapply init servers S X" and "n \<in> servers"
    and "(ae_Term req, ae_LeaderID req) \<in> leaders (net S)" and "ae_LeaderID req \<noteq> n" and "currentTerm (node_of S n) \<le> ae_Term req"
    and "(ae_Term req, B, ae_LeaderCommit req) \<in> offers X" and "ae_PrevLogIndex req \<le> length B"
    and "ae_PrevLogIndex req = 0 \<or> ae_PrevLogIndex req \<le> length (lg X n) \<and>
      Term (lg X n ! (ae_PrevLogIndex req - 1)) = Term (B ! (ae_PrevLogIndex req - 1))"
    and "ae_Entries req = drop (ae_PrevLogIndex req) B" and "ae_Entries req \<noteq> [] \<Longrightarrow> length B = Index (last (ae_Entries req))"
    and "r1 = (accept_leader sops (node_of S n) req)\<lparr>logStore := logStore r1\<rparr>"
    and "holds (logStore r1) (appended (lg X n) (ae_PrevLogIndex req) (ae_Entries req))"
  shows "\<exists>X'. (xstep servers)\<^sup>*\<^sup>* X X' \<and> sys_sim fapply init servers
    (S\<lparr>net := put n (follower_commit lops r1 req) (net S), replies := insert (n, req, resp) (replies S)\<rparr>) X'"
    (is "\<exists>X'. _ \<and> sys_sim _ _ _ ?S' X'")
proof -
  let ?r = "node_of S n" and ?p = "ae_PrevLogIndex req" and ?c = "ae_LeaderCommit req"
  let ?a = "accept_leader sops ?r req" and ?L' = "appended (lg X n) ?p (ae_Entries req)"
  note sD = sys_simD [OF assms(4)]
  let ?X1 = "X\<lparr>el := view (put n ?a (net S))\<rparr>"
  have s1: "xstep servers X ?X1" by (rule x_accept_leader [OF assms(5) sD(1) assms(8,6,7)])
  have inv1: "xinv servers ?X1" by (rule xstep_inv [OF assms(1,2) s1 assms(3)])
  have tm1: "tm (el ?X1) n = ae_Term req" using assms(8) by simp
  have o1: "(tm (el ?X1) n, B, ?c) \<in> offers ?X1" using assms(9) tm1 by simp
  have L': "?L' = appended (lg ?X1 n) ?p (drop ?p B)" using assms(12) by simp
  have fit1: "?p = 0 \<or> ?p \<le> length (lg ?X1 n) \<and> Term (lg ?X1 n ! (?p - 1)) = Term (B ! (?p - 1))" using assms(11) by simp
  note kept = accept_keeps_commits [OF assms(1) inv1 assms(5) o1 assms(10) fit1 L']
  let ?X2 = "?X1\<lparr>lg := (lg ?X1)(n := ?L'), ci := (ci ?X1)(n := if ci ?X1 n < ?c then min ?c (length ?L') else ci ?X1 n),
    acks := acks ?X1 \<union> prefixes_of (tm (el ?X1) n) n B\<rparr>"
  have "xstep servers ?X1 ?X2" by (rule x_accept [OF assms(5) _ o1 assms(10) fit1 L']) simp
  with r_into_rtranclp [of "xstep servers", OF s1] have "(xstep servers)\<^sup>*\<^sup>* X ?X2" by (rule rtranclp.rtrancl_into_rtrancl)
  moreover have "sys_sim fapply init servers ?S' ?X2"
  proof (rule sys_sim_put [OF assms(4), of ?X2 n ?S' "follower_commit lops r1 req"])
    have "currentTerm r1 = currentTerm ?a" "votedFor r1 = votedFor ?a" "state r1 = state ?a"
      by (subst assms(14), simp)+
    then have "view (put n (follower_commit lops r1 req) (net S)) = view (put n ?a (net S))"
      by (auto simp: view_def fun_eq_iff)
    then show "el ?X2 = view (net ?S')" by simp
    show "node_sim fapply init servers ?X2 n (follower_commit lops r1 req)"
      by (rule node_sim_accept [OF sD(2) [OF assms(5)] assms(14,15)]) (use kept in simp_all)
    have "(ae_Term req, n, B) \<in> acks ?X2" using tm1 by simp
    with assms(13) have "acked ?X2 (n, req, resp)" by (auto simp: acked_def simp del: view_simps)
    then show "m \<in> replies S \<or> acked ?X2 m" if "m \<in> replies ?S'" for m using that by auto
  qed auto
  ultimately show ?thesis by blast
qed

lemma sim_cut:
  assumes "finite servers" and "[] \<notin> servers" and "xinv servers X" and "sys_sim fapply init servers S X" and "n \<in> servers"
    and "(ae_Term req, ae_LeaderID req) \<in> leaders (net S)" and "ae_LeaderID req \<noteq> n" and "currentTerm (node_of S n) \<le> ae_Term req"
    and "(ae_Term req, B, ae_LeaderCommit req) \<in> offers X" and "ae_PrevLogIndex req \<le> length B"
    and "ae_Entries req = drop (ae_PrevLogIndex req) B" and "conflict_cut (lg X n) (ae_PrevLogIndex req) (ae_Entries req) q"
    and "r1 = (accept_leader sops (node_of S n) req)\<lparr>logStore := logStore r1\<rparr>" and "holds (logStore r1) (take q (lg X n))"
    and "\<not> aer_Success resp"
  shows "\<exists>X'. (xstep servers)\<^sup>*\<^sup>* X X' \<and> sys_sim fapply init servers
    (S\<lparr>net := put n r1 (net S), replies := insert (n, req, resp) (replies S)\<rparr>) X'"
    (is "\<exists>X'. _ \<and> sys_sim _ _ _ ?S' X'")
proof -
  let ?r = "node_of S n" and ?L = "lg X n" and ?a = "accept_leader sops (node_of S n) req"
  note sD = sys_simD [OF assms(4)]
  note ns = sD(2) [OF assms(5), unfolded node_sim_def applied_ok_def]
  let ?X1 = "X\<lparr>el := view (put n ?a (net S))\<rparr>" let ?X2 = "?X1\<lparr>lg := (lg X)(n := take q ?L)\<rparr>"
  have s1: "xstep servers X ?X1" by (rule x_accept_leader [OF assms(5) sD(1) assms(8,6,7)])
  have inv1: "xinv servers ?X1" by (rule xstep_inv [OF assms(1,2) s1 assms(3)])
  have o1: "(tm (el ?X1) n, B, ae_LeaderCommit req) \<in> offers ?X1" using assms(8,9) by simp
  have "(xstep servers)\<^sup>*\<^sup>* ?X1 ?X2 \<and> ci X n \<le> q"
  proof (cases "q = length ?L")
    case True
    then have "?X2 = ?X1" by simp
    moreover have "ci X n \<le> q" using xinvD(10) [OF assms(3)] assms(5) True by (auto simp: commits_ok_def)
    ultimately show ?thesis by simp
  next
    case False
    with assms(10-12) have q: "q < length (lg ?X1 n)" "q < length B" "Term (lg ?X1 n ! q) \<noteq> Term (B ! q)"
      by (auto simp: conflict_cut_def)
    from x_cut [OF assms(5) _ o1 q] have "xstep servers ?X1 ?X2" by simp
    then show ?thesis using cut_keeps_commits(2) [OF assms(1) inv1 assms(5) o1 q] by simp
  qed
  then have steps: "(xstep servers)\<^sup>*\<^sup>* X ?X2" and q: "ci X n \<le> q"
    using converse_rtranclp_into_rtranclp [of "xstep servers", OF s1] by blast+
  have keep: "commitIndex r1 = ci X n" "lastApplied r1 = lastApplied ?r" "fsm r1 = fsm ?r" "state r1 = Follower"
    "currentTerm r1 = currentTerm ?a" "votedFor r1 = votedFor ?a"
    using ns by (subst assms(13), simp)+
  have "sys_sim fapply init servers ?S' ?X2"
  proof (rule sys_sim_put [OF assms(4), of ?X2 n ?S' r1])
    have "view (put n r1 (net S)) = view (put n ?a (net S))" by (auto simp: view_def fun_eq_iff keep)
    then show "el ?X2 = view (net ?S')" by simp
    have "min (lastApplied ?r) q = lastApplied ?r" using ns q by simp
    then show "node_sim fapply init servers ?X2 n r1"
      using ns q keep(1-4) assms(14) by (simp add: node_sim_def applied_ok_def leader_view_def)
    show "m \<in> replies S \<or> acked ?X2 m" if "m \<in> replies ?S'" for m using that assms(15) by (auto simp: acked_def)
  qed auto
  with steps show ?thesis by blast
qed

lemma sim_append:
  assumes "finite servers" and "[] \<notin> servers" and "xinv servers X" and "sys_sim fapply init servers S X" and "n \<in> servers"
    and "req \<in> appendReqs (net S)" and "(ae_Term req, ae_LeaderID req) \<in> leaders (net S)" and "ae_LeaderID req \<noteq> n"
    and "last_idx lops (logStore (node_of S n)) < 2 ^ 64 - 1"
    and "handleAppendEntries lops sops (node_of S n) req = Some (r', resp, reset)"
  shows "\<exists>X'. (xstep servers)\<^sup>*\<^sup>* X X' \<and> sys_sim fapply init servers
    (S\<lparr>net := put n r' (net S), replies := insert (n, req, resp) (replies S)\<rparr>) X'"
    (is "\<exists>X'. _ \<and> sys_sim _ _ _ ?S' X'")
proof -
  let ?r = "node_of S n" and ?p = "ae_PrevLogIndex req" and ?L = "lg X n"
  note sD = sys_simD [OF assms(4)]
  note ns = sD(2) [OF assms(5), unfolded node_sim_def]
  note h = conjunct1 [OF ns]
  have len: "length ?L < 2 ^ 64 - 1" using assms(9) by (simp add: last_idx_holds [OF h])
  have nack: "acked X (n, req, resp)" if "\<not> aer_Success resp" using that by (simp add: acked_def)
  consider (stale) "ae_Term req < currentTerm ?r"
    | (refused) "currentTerm ?r \<le> ae_Term req" "\<not> (?p = 0 \<or> ?p \<le> length ?L \<and> Term (?L ! (?p - 1)) = ae_PrevLogTerm req)"
    | (fits) "currentTerm ?r \<le> ae_Term req" "?p = 0 \<or> ?p \<le> length ?L \<and> Term (?L ! (?p - 1)) = ae_PrevLogTerm req"
    by linarith
  then show ?thesis
  proof cases
    case stale
    with assms(10) have r': "r' = ?r" "\<not> aer_Success resp" by (auto simp: handleAppendEntries_stale)
    show ?thesis
      by (rule sim_role [OF assms(4,5) x_same [OF sD(1), of n r']]) (use r' nack in auto)
  next
    case refused
    from handleAppendEntries_reject [OF h len refused, of sops] assms(10)
    have r': "r' = accept_leader sops ?r req" "\<not> aer_Success resp" by auto
    have "xstep servers X (X\<lparr>el := view (put n r' (net S))\<rparr>)"
      unfolding r'(1) by (rule x_accept_leader [OF assms(5) sD(1) refused(1) assms(7,8)])
    then show ?thesis
      by (intro sim_role [OF assms(4,5) r_into_rtranclp]) (use r' nack in \<open>auto simp: marks_def\<close>)
  next
    case fits
    from offered_accept [OF assms(3,5) sD(3) [OF assms(6)] fits(2)] obtain B
      where B: "(ae_Term req, B, ae_LeaderCommit req) \<in> offers X" "?p \<le> length B" "ae_Entries req = drop ?p B"
        "consecutive ?p (ae_Entries req)" "?p = 0 \<or> ?p \<le> length ?L \<and> Term (?L ! (?p - 1)) = Term (B ! (?p - 1))"
        "ae_Entries req \<noteq> [] \<Longrightarrow> length B = Index (last (ae_Entries req))" by blast
    show ?thesis
    proof (cases rule: handleAppendEntries_accept [OF h len fits B(4), of sops])
      case (1 r1)
      with assms(10) have r': "r' = follower_commit lops r1 req" by simp
      show ?thesis unfolding r' by (rule sim_accept [OF assms(1-5,7,8) fits(1) B(1,2,5,3,6) 1(2,3)])
    next
      case (2 r1 q)
      with assms(10) have r': "r' = r1" "\<not> aer_Success resp" by auto
      show ?thesis unfolding r'(1) by (rule sim_cut [OF assms(1-5,7,8) fits(1) B(1,2,3) 2(4,2,3) r'(2)])
    qed
  qed
qed

text \<open>A response of a newer term.\<close>

lemma sim_newer:
  assumes "sys_sim fapply init servers S X" and "n \<in> servers" and "currentTerm (node_of S n) < t"
  shows "\<exists>X'. (xstep servers)\<^sup>*\<^sup>* X X' \<and> sys_sim fapply init servers (set_node n (stepDown sops (node_of S n) t) S) X'"
proof -
  have "xstep servers X (X\<lparr>el := view (put n (stepDown sops (node_of S n) t) (net S))\<rparr>)"
    by (rule x_to_newer [OF assms(2) sys_simD(1) [OF assms(1)]]) (use assms(3) in simp_all)
  then show ?thesis by (intro sim_role [OF assms(1,2) r_into_rtranclp]) (simp_all add: marks_def)
qed

text \<open>An acknowledgement moves the mark of one peer, and then the commit index.\<close>

lemma leader_view_peers:
  "state r = Leader \<Longrightarrow> leader_view servers X n r \<longleftrightarrow> distinct (map fst (peers r)) \<and> fst ` set (peers r) = servers - {n} \<and>
     (\<forall>(p, ps) \<in> set (peers r). ps_id ps = p \<and>
        (matchIndex ps = 0 \<or> (\<exists>A. (currentTerm r, p, A) \<in> acks X \<and> matchIndex ps \<le> length A)))"
proof -
  have "map fst (marks r) = map fst (peers r)" by (auto simp: marks_def)
  moreover then have "fst ` set (marks r) = fst ` set (peers r)" by (metis list.set_map)
  moreover have "(\<forall>(p, q, k) \<in> set (marks r). P p q k) \<longleftrightarrow> (\<forall>(p, ps) \<in> set (peers r). P p (ps_id ps) (matchIndex ps))" for P
    by (auto simp: marks_def)
  ultimately show "state r = Leader \<Longrightarrow> ?thesis" by (simp add: leader_view_def)
qed

lemma leader_view_ack:
  assumes "leader_view servers X n r" and "state r = Leader" and "map_of (peers r) v = Some peer" and "ps_id peer' = ps_id peer"
    and "matchIndex peer' = matchIndex peer \<or> (\<exists>A. (currentTerm r, v, A) \<in> acks X \<and> matchIndex peer' \<le> length A)"
  shows "leader_view servers X n (put_peer True peer' r)"
proof -
  note lv = assms(1) [unfolded leader_view_peers [OF assms(2)]]
  have peer: "(v, peer) \<in> set (peers r)" using assms(3) by (rule map_of_SomeD)
  then have id: "ps_id peer = v" using lv by auto
  let ?al = "AList.update v peer' (peers r)"
  have keys: "map fst ?al = map fst (peers r)" using peer by (force simp: update_keys)
  have "ps_id ps = p \<and> (matchIndex ps = 0 \<or> (\<exists>A. (currentTerm r, p, A) \<in> acks X \<and> matchIndex ps \<le> length A))"
    if "(p, ps) \<in> set ?al" for p ps
  proof (cases "p = v")
    case True
    from that keys lv have "map_of ?al p = Some ps" by simp
    then have "ps = peer'" using True by (simp add: update_conv')
    with assms(4,5) lv peer id True show ?thesis by fastforce
  next
    case False
    from that keys lv have "map_of ?al p = Some ps" by simp
    then have "map_of (peers r) p = Some ps" using False by (simp add: update_conv')
    then have "(p, ps) \<in> set (peers r)" by (rule map_of_SomeD)
    with lv show ?thesis by fastforce
  qed
  moreover have "fst ` set ?al = fst ` set (peers r)" using keys by (metis list.set_map)
  ultimately show ?thesis
    using lv keys id assms(2,4) by (auto simp: leader_view_peers put_peer_def)
qed

lemma majority_marks:
  assumes "finite servers" and "n \<in> servers" and "distinct (map fst al)" and "fst ` set al = servers - {n}" and "k \<le> len"
    and "on_majority (len # map (matchIndex \<circ> snd) al) k"
  shows "majority_of servers (insert n (fst ` set (filter (\<lambda>(p, ps). k \<le> matchIndex ps) al)))"
proof -
  let ?al = "filter (\<lambda>(p, ps). k \<le> matchIndex ps) al"
  have "length al = card (servers - {n})" using assms(3,4) by (metis distinct_card length_map list.set_map)
  then have all: "card servers = Suc (length al)" using assms(1,2) by (metis card_Suc_Diff1)
  have d: "distinct (map fst ?al)" using assms(3) by (rule distinct_map_filter)
  then have "card (fst ` set ?al) = length ?al" by (metis distinct_card length_map list.set_map)
  moreover have "n \<notin> fst ` set ?al" using assms(4) by auto
  ultimately have q: "card (insert n (fst ` set ?al)) = Suc (length ?al)" by simp
  have "length (filter (\<lambda>m. k \<le> m) (map (matchIndex \<circ> snd) al)) = length ?al"
    by (simp add: filter_map comp_def case_prod_unfold)
  then have "card servers < 2 * card (insert n (fst ` set ?al))"
    using assms(5,6) all q by (simp add: on_majority_def)
  moreover have "insert n (fst ` set ?al) \<subseteq> servers" using assms(2,4) by auto
  ultimately show ?thesis by (simp add: majority_of_def majority_def)
qed

lemma sim_advance:
  assumes "finite servers" and "sys_sim fapply init servers S X" and "n \<in> servers" and "state (node_of S n) = Leader"
    and "leader_view servers X n r" and "same_vote (node_of S n) r" and "logStore r = logStore (node_of S n)"
    and "commitIndex r = commitIndex (node_of S n)" and "fsm r = fsm (node_of S n)" and "lastApplied r = lastApplied (node_of S n)"
  shows "\<exists>X'. (xstep servers)\<^sup>*\<^sup>* X X' \<and> sys_sim fapply init servers (set_node n (advanceCommitIndex lops r) S) X'"
proof -
  let ?r = "node_of S n"
  note sD = sys_simD [OF assms(2)]
  note ns = sD(2) [OF assms(3), unfolded node_sim_def]
  have h: "holds (logStore r) (lg X n)" using ns assms(7) by simp
  have v: "state r = Leader" "currentTerm r = currentTerm ?r" using assms(4,6) by (simp_all add: same_vote_def)
  show ?thesis
  proof (cases rule: advanceCommitIndex_cases [OF h])
    case 1
    have "sys_sim fapply init servers (set_node n r S) X"
      by (rule sys_sim_put [OF assms(2), of X n _ r])
        (use sD(1) view_put_same [OF assms(6)] ns assms(5,7-10) in \<open>auto simp: node_sim_def applied_ok_def\<close>)
    then show ?thesis using 1(1) by auto
  next
    case (2 k)
    let ?Q = "insert n (fst ` set (filter (\<lambda>(p, ps). k \<le> matchIndex ps) (peers r)))"
    let ?X = "X\<lparr>ci := (ci X)(n := k), acks := acks X \<union> prefixes_of (tm (el X) n) n (lg X n)\<rparr>"
    let ?r' = "notifyCommit (r\<lparr>commitIndex := k\<rparr>)"
    note lv = assms(5) [unfolded leader_view_peers [OF v(1)]]
    have acked: "w = n \<or> (\<exists>A. (tm (el X) n, w, A) \<in> acks X \<and> k \<le> length A)" if "w \<in> ?Q" for w
      using that lv 2(2) sD(1) v(2) by fastforce
    have maj: "majority_of servers ?Q"
      by (rule majority_marks [OF assms(1,3) _ _ 2(3)]) (use lv 2(5) in \<open>auto simp: matches_def\<close>)
    have "xstep servers X ?X"
      by (rule x_commit [OF assms(3) _ _ 2(3) _ maj]) (use sD(1) assms(4) v(2) 2(2,4) acked in simp_all)
    moreover have "sys_sim fapply init servers (set_node n (advanceCommitIndex lops r) S) ?X"
    proof (rule sys_sim_put [OF assms(2), of ?X n _ ?r'])
      have "same_vote ?r ?r'" using assms(6) by (simp add: same_vote_def notifyCommit_def)
      from view_put_same [OF this] show "el ?X = view (net (set_node n (advanceCommitIndex lops r) S))"
        using sD(1) 2(1) by simp
      have "leader_view servers ?X n ?r'"
        by (rule leader_view_mono [OF assms(5)]) (use v in \<open>auto simp: marks_def notifyCommit_def\<close>)
      then show "node_sim fapply init servers ?X n ?r'"
        using ns h assms(8-10) 2(2) by (simp add: node_sim_def applied_ok_def notifyCommit_def)
    qed (use 2(1) in auto)
    ultimately show ?thesis by blast
  qed
qed

lemma sim_reply:
  assumes "finite servers" and "sys_sim fapply init servers S X" and "n \<in> servers" and "state (node_of S n) = Leader"
    and "(v, req, resp) \<in> replies S" and "ae_Term req = currentTerm (node_of S n)"
    and "map_of (peers (node_of S n)) v = Some peer"
    and "replicate_response lops sops (node_of S n) True peer (ae_Entries req) resp = (r', peer')"
  shows "\<exists>X'. (xstep servers)\<^sup>*\<^sup>* X X' \<and> sys_sim fapply init servers (set_node n r' S) X'"
proof -
  let ?r = "node_of S n"
  note sD = sys_simD [OF assms(2)]
  note ns = sD(2) [OF assms(3), unfolded node_sim_def]
  have put: "leader_view servers X n (put_peer True p ?r)"
    if "ps_id p = ps_id peer" "matchIndex p = matchIndex peer \<or> (\<exists>A. (currentTerm ?r, v, A) \<in> acks X \<and> matchIndex p \<le> length A)" for p
    by (rule leader_view_ack [OF _ assms(4,7) that]) (use ns in simp)
  have keep: "same_vote ?r (put_peer True p ?r)" "logStore (put_peer True p ?r) = logStore ?r"
    "commitIndex (put_peer True p ?r) = commitIndex ?r" "fsm (put_peer True p ?r) = fsm ?r"
    "lastApplied (put_peer True p ?r) = lastApplied ?r" for p
    by (simp_all add: put_peer_def same_vote_def)
  show ?thesis
  proof (cases "currentTerm ?r < aer_Term resp")
    case True
    then have "r' = stepDown sops ?r (aer_Term resp)" using assms(8) by (simp add: replicate_response_def)
    with sim_newer [OF assms(2,3) True] show ?thesis by simp
  next
    case cur: False
    show ?thesis
    proof (cases "aer_Success resp")
      case True
      have r': "r' = advanceCommitIndex lops (put_peer True peer' ?r)" and
        p': "peer' = (if ae_Entries req \<noteq> [] then peer\<lparr>matchIndex := Index (last (ae_Entries req)),
           nextIndex := u64 (Index (last (ae_Entries req)) + 1)\<rparr> else peer)"
        using assms(8) cur True by (auto simp: replicate_response_def Let_def)
      have "leader_view servers X n (put_peer True peer' ?r)"
        by (rule put) (use sD(5) [OF assms(5)] True p' assms(6) in \<open>auto simp: acked_def\<close>)
      from sim_advance [OF assms(1-4) this keep] show ?thesis unfolding r' .
    next
      case False
      then have r': "r' = put_peer True peer' ?r" and p': "ps_id peer' = ps_id peer" "matchIndex peer' = matchIndex peer"
        using assms(8) cur by (auto simp: replicate_response_def Let_def)
      have "leader_view servers X n r'" unfolding r' by (rule put) (use p' in simp_all)
      then have "sys_sim fapply init servers (set_node n r' S) X"
        by (intro sys_sim_put [OF assms(2), of X n _ r'])
          (use sD(1) view_put_same [OF keep(1)] ns keep r' in \<open>auto simp: node_sim_def applied_ok_def\<close>)
      then show ?thesis by blast
    qed
  qed
qed

lemma sim_shutdown:
  assumes "sys_sim fapply init servers S X" and "n \<in> servers"
  shows "\<exists>X'. (xstep servers)\<^sup>*\<^sup>* X X' \<and> sys_sim fapply init servers (set_node n (Shutdown (node_of S n)) S) X'"
proof (cases "shutdownCh (node_of S n)")
  case True
  then have "Shutdown (node_of S n) = node_of S n" by (simp add: Shutdown_def)
  moreover have "set_node n (node_of S n) S = S"
    by (rule System.equality) simp_all
  ultimately show ?thesis using assms(1) by auto
next
  case False
  let ?r = "node_of S n" and ?r1 = "(node_of S n)\<lparr>shutdownCh := True, state := Follower\<rparr>"
  from False have sh: "Shutdown ?r = fail_all ErrShutdown ?r1" by (simp add: Shutdown_def)
  have v: "same_vote ?r1 (Shutdown ?r)" unfolding sh by (rule same_vote_fail_all)
  have "xstep servers X (X\<lparr>el := view (put n (Shutdown ?r) (net S))\<rparr>)"
    by (rule x_to_follower [OF assms(2) sys_simD(1) [OF assms(1)]]) (use v in \<open>simp_all add: same_vote_def\<close>)
  then show ?thesis
    by (intro sim_role [OF assms r_into_rtranclp])
      (use v fail_all_keeps [of ErrShutdown ?r1] sh in \<open>auto simp: same_vote_def marks_def\<close>)
qed

lemma sim_restart:
  assumes "sys_sim fapply init servers S X" and "n \<in> servers" and "persisted sops (node_of S n)"
    and "NewRaftNode sops (config (node_of S n)) (logStore (node_of S n)) (stableStore (node_of S n)) init = Ok r'"
  shows "\<exists>X'. (xstep servers)\<^sup>*\<^sup>* X X' \<and> sys_sim fapply init servers (set_node n r' S) X'"
proof -
  note sD = sys_simD [OF assms(1)] and nr = NewRaftNode_vote [OF assms(4)]
  let ?X = "X\<lparr>el := (el X)\<lparr>st := (st (el X))(n := Follower)\<rparr>, ci := (ci X)(n := 0)\<rparr>"
  have v: "currentTerm r' = currentTerm (node_of S n)" "votedFor r' = votedFor (node_of S n)"
    using nr(1,2) assms(3) by (simp_all add: persisted_def)
  have "xstep servers X ?X" by (rule x_restart [OF assms(2)])
  moreover have "sys_sim fapply init servers (set_node n r' S) ?X"
  proof (rule sys_sim_put [OF assms(1), of ?X n _ r'])
    show "el ?X = view (net (set_node n r' S))" using sD(1) v nr(5) by (auto simp: view_def fun_eq_iff)
    show "node_sim fapply init servers ?X n r'"
      using sD(2) [OF assms(2)] nr by (simp add: node_sim_def leader_view_def applied_ok_def)
  qed auto
  ultimately show ?thesis by blast
qed

text \<open>Every step of the cluster is a sequence of steps of the protocol.\<close>

lemma sim_step:
  assumes "bounded_step lops sops fapply init (server_ids plist) S S'" and "distinct (map ID plist)" and "[] \<notin> server_ids plist"
    and "cinv plist (net S)" and "xinv (server_ids plist) X" and "sys_sim fapply init (server_ids plist) S X"
  shows "\<exists>X'. (xstep (server_ids plist))\<^sup>*\<^sup>* X X' \<and> sys_sim fapply init (server_ids plist) S' X'"
proof -
  let ?V = "server_ids plist"
  note c = cinvD [OF assms(4)]
  have fin: "finite ?V" by simp
  have len: "last_idx lops (logStore (node_of S n)) < 2 ^ 64 - 1" if "n \<in> ?V" for n
    using assms(1) that unfolding bounded_step_def by blast
  from assms(1) have "rstep lops sops fapply init ?V S S'" by (simp add: bounded_step_def)
  then show ?thesis
  proof cases
    case (r_local n r')
    show ?thesis unfolding r_local(1) by (rule sim_local [OF assms(5,6) c(2) assms(2) r_local(2) len [OF r_local(2)] r_local(3)])
  next
    case (r_noop n)
    then show ?thesis using sim_noop [OF assms(6) r_noop(2) _ len [OF r_noop(2)]] by (simp add: IsLeader_def)
  next
    case (r_elect n r' req targets votes)
    show ?thesis unfolding r_elect(1) by (rule sim_elect [OF assms(6) c(2) assms(2) r_elect(2-5)])
  next
    case (r_request n req r' resp reset)
    have "rv_CandidateID req \<in> ?V" using c(4) r_request(3) by (simp add: messages_ok_def)
    from sim_request [OF assms(6) r_request(2-4) this r_request(5)] show ?thesis unfolding r_request(1) .
  next
    case (r_vote n v req resp r' votes' d)
    have "v \<in> ?V" "rvr_VoteGranted resp \<Longrightarrow> (currentTerm (node_of S n), v, n) \<in> vote_log (net S)"
      using c(4) r_vote(3,4,6) by (auto simp: messages_ok_def)
    from sim_vote [OF assms(5,6) c(2) assms(2) r_vote(2,5,7) this r_vote(9)] show ?thesis unfolding r_vote(1) .
  next
    case (r_send n peer req)
    show ?thesis unfolding r_send(1) by (rule sim_send [OF assms(6) r_send(2) len [OF r_send(2)] r_send(3)])
  next
    case (r_append n req r' resp reset)
    have "(ae_Term req, ae_LeaderID req) \<in> leaders (net S)" using c(4) r_append(3) by (simp add: messages_ok_def)
    from sim_append [OF fin assms(3,5,6) r_append(2,3) this r_append(4) len [OF r_append(2)] r_append(5)]
    show ?thesis unfolding r_append(1) .
  next
    case (r_reply n v req resp peer r' peer')
    show ?thesis unfolding r_reply(1)
      by (rule sim_reply [OF fin assms(6) r_reply(2) _ r_reply(3,6,8,9)]) (use r_reply(5) in \<open>simp add: IsLeader_def\<close>)
  next
    case (r_deposed n v req resp live peer r' peer')
    then have "r' = stepDown sops (node_of S n) (aer_Term resp)" by (simp add: replicate_response_def)
    with sim_newer [OF assms(6) r_deposed(2,5)] r_deposed(1) show ?thesis by simp
  next
    case (r_shutdown n)
    show ?thesis unfolding r_shutdown(1) by (rule sim_shutdown [OF assms(6) r_shutdown(2)])
  next
    case (r_restart n r')
    have "persisted sops (node_of S n)" using c(3) [OF r_restart(2)] by (simp add: node_ok_def)
    from sim_restart [OF assms(6) r_restart(2) this r_restart(3)] show ?thesis unfolding r_restart(1) .
  qed
qed

section \<open>What follows for the cluster\<close>

definition refines :: "('f \<Rightarrow> string \<Rightarrow> ('f \<times> 'r option) option) \<Rightarrow> 'f \<Rightarrow> PeerConfig list \<Rightarrow> ('l, 's, 'f, 'r) System \<Rightarrow> Consensus \<Rightarrow> bool" where
  "refines fapply init plist S X \<longleftrightarrow>
     cinv plist (net S) \<and> xinv (server_ids plist) X \<and> sys_sim fapply init (server_ids plist) S X"

lemma refines_start:
  assumes "system_start holds sops plist init S"
  shows "refines fapply init plist S (xinit (view (net S)))"
proof -
  have c: "cluster_init sops plist (net S)" using assms by (simp add: system_start_def)
  have "xinv (server_ids plist) (xinit (view (net S)))"
    by (rule xinv_init) (use c in \<open>auto simp: cluster_init_def\<close>)
  moreover have "sys_sim fapply init (server_ids plist) S (xinit (view (net S)))"
    unfolding sys_sim_def
  proof (intro conjI ballI)
    fix n assume n: "n \<in> server_ids plist"
    note st = conjunct1 [OF bspec [OF conjunct1 [OF conjunct2 [OF c [unfolded cluster_init_def]]] n]]
    note log = bspec [OF conjunct2 [OF conjunct2 [OF assms [unfolded system_start_def]]] n]
    from st log show "node_sim fapply init (server_ids plist) (xinit (view (net S))) n (node_of S n)"
      by (simp add: node_sim_def xinit_def leader_view_def applied_ok_def)
  qed (use assms c in \<open>auto simp: system_start_def cluster_init_def xinit_def\<close>)
  ultimately show ?thesis using cinv_init [OF c] by (simp add: refines_def)
qed

lemma refines_steps:
  assumes "(bounded_step lops sops fapply init (server_ids plist))\<^sup>*\<^sup>* S S'" and "distinct (map ID plist)"
    and "[] \<notin> server_ids plist" and "refines fapply init plist S X"
  shows "\<exists>X'. (xstep (server_ids plist))\<^sup>*\<^sup>* X X' \<and> refines fapply init plist S' X'"
  using assms(1)
proof (induction rule: rtranclp_induct)
  case base
  with assms(4) show ?case by blast
next
  case (step T T')
  from step(3) obtain Y where Y: "(xstep (server_ids plist))\<^sup>*\<^sup>* X Y" "cinv plist (net T)" "xinv (server_ids plist) Y"
    "sys_sim fapply init (server_ids plist) T Y" by (auto simp: refines_def)
  from sim_step [OF step(2) assms(2,3) Y(2-4)] obtain Z
    where Z: "(xstep (server_ids plist))\<^sup>*\<^sup>* Y Z" "sys_sim fapply init (server_ids plist) T' Z" by blast
  have "rstep lops sops fapply init (server_ids plist) T T'" using step(2) by (simp add: bounded_step_def)
  from cinv_reachable [OF rstep_csteps [OF this] Y(2) assms(2,3)] xsteps_inv [OF _ assms(3) Z(1) Y(3)] Z(2)
  have "refines fapply init plist T' Z" by (simp add: refines_def)
  with rtranclp_trans [OF Y(1) Z(1)] show ?case by blast
qed

lemma refines_node:
  assumes "refines fapply init plist S X" and "n \<in> server_ids plist"
  shows "holds (logStore (node_of S n)) (lg X n)" "commitIndex (node_of S n) = ci X n" "ci X n \<le> length (lg X n)"
    "lastApplied (node_of S n) \<le> ci X n" "applied_ok fapply init (lg X n) (node_of S n)"
    "st (el X) n = state (node_of S n)" "tm (el X) n = currentTerm (node_of S n)"
    "lg X n \<in> tree X" "safe (server_ids plist) X (currentTerm (node_of S n)) (take (ci X n) (lg X n))"
proof -
  have x: "xinv (server_ids plist) X" and s: "sys_sim fapply init (server_ids plist) S X"
    using assms(1) by (simp_all add: refines_def)
  from sys_simD(2) [OF s assms(2)] show "holds (logStore (node_of S n)) (lg X n)" "commitIndex (node_of S n) = ci X n"
    "lastApplied (node_of S n) \<le> ci X n" "applied_ok fapply init (lg X n) (node_of S n)" by (simp_all add: node_sim_def)
  show e: "st (el X) n = state (node_of S n)" "tm (el X) n = currentTerm (node_of S n)" using sys_simD(1) [OF s] by simp_all
  show "lg X n \<in> tree X" by (rule logs_okD(1) [OF xinvD(4) [OF x] assms(2)])
  show "ci X n \<le> length (lg X n)" "safe (server_ids plist) X (currentTerm (node_of S n)) (take (ci X n) (lg X n))"
    using xinvD(10) [OF x] assms(2) e(2) unfolding commits_ok_def by auto
qed

end

text \<open>The in-memory stores.\<close>

interpretation inmem_sys: raft_stores inmem_log inmem_inv inmem_abs inmem_stable
  by unfold_locales

end
