(* ===== verification/Raft_Run.thy ===== *)
theory Raft_Run
  imports Raft_System
begin

text \<open>
  A run of three servers on the in-memory stores, for any state machine: the steps of
  \<^verbatim>\<open>Raft_System\<close> evaluated on concrete nodes. It shows that the hypotheses of the safety properties
  can hold with something elected, replicated, committed and applied.
\<close>

section \<open>The nodes of the run\<close>

text \<open>Server \<open>"a"\<close> is elected by \<open>"b"\<close>, takes a command, replicates it to \<open>"b"\<close>, commits and applies it.\<close>

definition boot :: "'f \<Rightarrow> string \<Rightarrow> (InmemLogStore, InmemStableStore, 'f, 'r) RaftNode" where
  "boot f me = \<lparr>config = ex_config me, currentTerm = 0, votedFor = [], logStore = NewInmemLogStore,
     stableStore = NewInmemStableStore, state = Follower, commitIndex = 0, lastApplied = 0, peers = [],
     leaderID = [], leaderAddr = [], fsm = f, pendingFutures = [], futures = (\<lambda>_. newApplyFuture),
     nextFuture = 0, applyCh = [], commitNotifyCh = False, shutdownCh = False\<rparr>"

definition ex_system :: "'f \<Rightarrow> (InmemLogStore, InmemStableStore, 'f, 'r) System" where
  "ex_system f = \<lparr>net = \<lparr>nodes = boot f, ballots = (\<lambda>_. {}), voteReqs = {}, voteResps = {}, appendReqs = {},
     vote_log = {}, leaders = {}\<rparr>, replies = {}\<rparr>"

abbreviation ex_step where
  "ex_step fapply f \<equiv> bounded_step inmem_log inmem_stable fapply f (server_ids three_peers)"

definition hello :: LogEntry where
  "hello = \<lparr>Index = 1, Term = 1, Data = ''hello''\<rparr>"

lemma hello_simps [simp]: "Index hello = Suc 0" "Term hello = Suc 0" "Data hello = ''hello''"
  by (simp_all add: hello_def)

definition ex_append :: AppendEntriesRequest where
  "ex_append = \<lparr>ae_Term = 1, ae_LeaderID = ''a'', ae_PrevLogIndex = 0, ae_PrevLogTerm = 0,
     ae_Entries = [hello], ae_LeaderCommit = 0\<rparr>"

definition ex_accept :: AppendEntriesResponse where
  "ex_accept = \<lparr>aer_Term = 1, aer_Success = True, aer_ConflictTerm = 0, aer_ConflictIndex = 0\<rparr>"

lemma message_simps [simp]:
  "rv_Term ex_request = Suc 0" "rv_CandidateID ex_request = ''a''" "rvr_Term ex_grant = Suc 0" "rvr_VoteGranted ex_grant"
  "ae_Term ex_append = Suc 0" "ae_LeaderID ex_append = ''a''" "ae_Entries ex_append = [hello]" "aer_Term ex_accept = Suc 0"
  by (simp_all add: ex_request_def ex_grant_def ex_append_def ex_accept_def)

definition ex_candidate :: "'f \<Rightarrow> (InmemLogStore, InmemStableStore, 'f, 'r) RaftNode" where
  "ex_candidate f = fst (candidate_start inmem_log inmem_stable (follower_timeout (boot f ''a'')))"

definition ex_voter :: "'f \<Rightarrow> (InmemLogStore, InmemStableStore, 'f, 'r) RaftNode" where
  "ex_voter f = fst (handleRequestVote inmem_log inmem_stable (boot f ''b'') ex_request)"

definition ex_leader :: "'f \<Rightarrow> (InmemLogStore, InmemStableStore, 'f, 'r) RaftNode" where
  "ex_leader f = start_leader inmem_log (becomeLeader (ex_candidate f))"

definition ex_busy :: "'f \<Rightarrow> (InmemLogStore, InmemStableStore, 'f, 'r) RaftNode" where
  "ex_busy f = fst (the (raft_Apply (ex_leader f) ''hello'' Enqueued))"

definition ex_writer :: "'f \<Rightarrow> (InmemLogStore, InmemStableStore, 'f, 'r) RaftNode" where
  "ex_writer f = handleApplyRequest inmem_log ((ex_busy f)\<lparr>applyCh := []\<rparr>) \<lparr>req_data = ''hello'', req_future = 0\<rparr>"

definition ex_follower :: "'f \<Rightarrow> (InmemLogStore, InmemStableStore, 'f, 'r) RaftNode" where
  "ex_follower f = fst (the (handleAppendEntries inmem_log inmem_stable (ex_voter f) ex_append))"

definition ex_committer :: "'f \<Rightarrow> (InmemLogStore, InmemStableStore, 'f, 'r) RaftNode" where
  "ex_committer f = fst (replicate_response inmem_log inmem_stable (ex_writer f) True ((ex_peer ''b'' 1 0)\<lparr>triggerCh := True\<rparr>)
     [hello] ex_accept)"

definition ex_applied ::
    "('f \<Rightarrow> string \<Rightarrow> ('f \<times> 'r option) option) \<Rightarrow> 'f \<Rightarrow> (InmemLogStore, InmemStableStore, 'f, 'r) RaftNode" where
  "ex_applied fapply f = the (applyCommitted inmem_log fapply ((ex_committer f)\<lparr>commitNotifyCh := False\<rparr>))"

lemmas node_defs = boot_def ex_config_def

lemma boot_simps [simp]:
  "logStore (boot f me) = NewInmemLogStore" "state (boot f me) = Follower" "currentTerm (boot f me) = 0"
  "config (boot f me) = ex_config me" "commitIndex (boot f me) = 0" "lastApplied (boot f me) = 0" "fsm (boot f me) = f"
  by (simp_all add: boot_def)

lemma boot_persisted: "persisted inmem_stable (boot f me)"
  by (simp add: persisted_def boot_def inmem_stable_def inmem_GetUint64_def inmem_Get_def NewInmemStableStore_def)

lemma ex_candidate_facts:
  "candidate_start inmem_log inmem_stable (follower_timeout (boot f ''a'')) = (ex_candidate f, ex_request, [''b:1'', ''c:1''], 1)"
  "state (ex_candidate f) = Candidate" "currentTerm (ex_candidate f) = 1" "config (ex_candidate f) = ex_config ''a''"
  "logStore (ex_candidate f) = NewInmemLogStore" "commitIndex (ex_candidate f) = 0" "lastApplied (ex_candidate f) = 0" "fsm (ex_candidate f) = f"
  "applyCh (ex_candidate f) = []" "nextFuture (ex_candidate f) = 0" "pendingFutures (ex_candidate f) = []"
  by (simp_all add: ex_candidate_def candidate_start_def startElection_def Let_def lastLogInfo_empty follower_timeout_def
      node_defs quorum_def three_peers_def u64_def ex_request_def persistState_def)

lemma ex_voter_facts:
  "handleRequestVote inmem_log inmem_stable (boot f ''b'') ex_request = (ex_voter f, ex_grant, True)"
  "state (ex_voter f) = Follower" "currentTerm (ex_voter f) = 1" "logStore (ex_voter f) = NewInmemLogStore" "commitIndex (ex_voter f) = 0"
  "config (ex_voter f) = ex_config ''b''"
  by (simp_all add: ex_voter_def handleRequestVote_def ex_request_def ex_grant_def Let_def lastLogInfo_empty
      node_defs isLogUpToDate_def stepDown_def persistState_def)

lemma ex_leader_facts:
  "candidate_vote inmem_stable (ex_candidate f) 1 ex_grant = (becomeLeader (ex_candidate f), 2, True)"
  "state (ex_leader f) = Leader" "currentTerm (ex_leader f) = 1" "logStore (ex_leader f) = NewInmemLogStore" "commitIndex (ex_leader f) = 0"
  "peers (ex_leader f) = [(''b'', ex_peer ''b'' 1 0), (''c'', ex_peer ''c'' 1 0)]" "applyCh (ex_leader f) = []"
  "config (ex_leader f) = ex_config ''a''" "fsm (ex_leader f) = f" "lastApplied (ex_leader f) = 0"
  "nextFuture (ex_leader f) = 0" "pendingFutures (ex_leader f) = []"
proof -
  show "candidate_vote inmem_stable (ex_candidate f) 1 ex_grant = (becomeLeader (ex_candidate f), 2, True)"
    by (simp add: candidate_vote_def ex_grant_def ex_candidate_facts quorum_def ex_config_def three_peers_def)
  have "last_idx inmem_log NewInmemLogStore = 0"
    by (simp add: last_idx_def inmem_log_def inmem_LastIndex_def NewInmemLogStore_def)
  then show "state (ex_leader f) = Leader" "currentTerm (ex_leader f) = 1" "logStore (ex_leader f) = NewInmemLogStore"
    "commitIndex (ex_leader f) = 0" "applyCh (ex_leader f) = []" "config (ex_leader f) = ex_config ''a''" "fsm (ex_leader f) = f"
    "lastApplied (ex_leader f) = 0" "nextFuture (ex_leader f) = 0" "pendingFutures (ex_leader f) = []"
    "peers (ex_leader f) = [(''b'', ex_peer ''b'' 1 0), (''c'', ex_peer ''c'' 1 0)]"
    by (simp_all add: ex_leader_def start_leader_def initLeader_def becomeLeader_def Let_def ex_candidate_facts
        ex_config_def three_peers_def u64_def ex_peer_def)
qed

lemma ex_writer_facts:
  "raft_Apply (ex_leader f) ''hello'' Enqueued = Some (ex_busy f, 0)" "applyCh (ex_busy f) = [\<lparr>req_data = ''hello'', req_future = 0\<rparr>]"
  "logStore (ex_busy f) = NewInmemLogStore"
  "state (ex_writer f) = Leader" "currentTerm (ex_writer f) = 1" "logStore (ex_writer f) = mk_log [hello]"
  "commitIndex (ex_writer f) = 0" "fsm (ex_writer f) = f" "lastApplied (ex_writer f) = 0" "config (ex_writer f) = ex_config ''a''"
  "peers (ex_writer f) = [(''b'', (ex_peer ''b'' 1 0)\<lparr>triggerCh := True\<rparr>), (''c'', (ex_peer ''c'' 1 0)\<lparr>triggerCh := True\<rparr>)]"
proof -
  show "raft_Apply (ex_leader f) ''hello'' Enqueued = Some (ex_busy f, 0)" "applyCh (ex_busy f) = [\<lparr>req_data = ''hello'', req_future = 0\<rparr>]"
    "logStore (ex_busy f) = NewInmemLogStore"
    by (simp_all add: ex_busy_def raft_Apply_def Let_def ex_leader_facts)
  have "last_idx inmem_log NewInmemLogStore = 0"
    by (simp add: last_idx_def inmem_log_def inmem_LastIndex_def NewInmemLogStore_def)
  then show "state (ex_writer f) = Leader" "currentTerm (ex_writer f) = 1" "logStore (ex_writer f) = mk_log [hello]"
    "commitIndex (ex_writer f) = 0" "fsm (ex_writer f) = f" "lastApplied (ex_writer f) = 0" "config (ex_writer f) = ex_config ''a''"
    "peers (ex_writer f) = [(''b'', (ex_peer ''b'' 1 0)\<lparr>triggerCh := True\<rparr>), (''c'', (ex_peer ''c'' 1 0)\<lparr>triggerCh := True\<rparr>)]"
    by (simp_all add: ex_writer_def ex_busy_def raft_Apply_def handleApplyRequest_def Let_def ex_leader_facts u64_def
        triggerReplication_def inmem_log_def inmem_StoreLog_def mk_log_def hello_def inmem_StoreLogs_def)
qed

lemma ex_log_facts:
  "last_idx inmem_log (mk_log [hello]) = Suc 0"
  "got (GetLog inmem_log (mk_log [hello]) (Suc 0)) = Some hello"
  "last_idx inmem_log NewInmemLogStore = 0" "got (GetLog inmem_log NewInmemLogStore i) = None"
  "StoreLogs inmem_log NewInmemLogStore [hello] = (mk_log [hello], None)"
  by (simp_all add: last_idx_def got_def inmem_log_def inmem_LastIndex_def inmem_GetLog_def mk_log_def inmem_StoreLogs_def
      store_one_def NewInmemLogStore_def)

lemma ex_follower_facts:
  "replicate_request inmem_log (ex_writer f) (ex_peer ''b'' 1 0) = Some ex_append"
  "handleAppendEntries inmem_log inmem_stable (ex_voter f) ex_append = Some (ex_follower f, ex_accept, True)"
  "logStore (ex_follower f) = mk_log [hello]"
  by (simp_all add: replicate_request_def ex_writer_facts ex_log_facts ex_append_def Let_def ex_config_def
      ex_follower_def handleAppendEntries_def prev_conflict_def accept_leader_def follower_commit_def ex_voter_facts ex_accept_def)

lemma ex_committer_facts:
  "replicate_response inmem_log inmem_stable (ex_writer f) True ((ex_peer ''b'' 1 0)\<lparr>triggerCh := True\<rparr>) [hello] ex_accept =
     (ex_committer f, (ex_peer ''b'' 2 1)\<lparr>triggerCh := True\<rparr>)"
  "state (ex_committer f) = Leader" "commitIndex (ex_committer f) = 1" "logStore (ex_committer f) = mk_log [hello]"
  "fsm (ex_committer f) = f" "lastApplied (ex_committer f) = 0" "currentTerm (ex_committer f) = 1"
  by (simp_all add: ex_committer_def replicate_response_def ex_accept_def ex_writer_facts Let_def ex_peer_def u64_def
      advanceCommitIndex_def put_peer_def ex_log_facts notifyCommit_def)

lemma ex_applied_facts:
  assumes "fapply f ''hello'' = Some (f', resp)"
  shows "applyCommitted inmem_log fapply ((ex_committer f)\<lparr>commitNotifyCh := False\<rparr>) = Some (ex_applied fapply f)"
  "fsm (ex_applied fapply f) = f'" "lastApplied (ex_applied fapply f) = 1" "commitIndex (ex_applied fapply f) = 1"
  "logStore (ex_applied fapply f) = mk_log [hello]" "state (ex_applied fapply f) = Leader" "currentTerm (ex_applied fapply f) = 1"
proof -
  have "\<exists>r'. applyCommitted inmem_log fapply ((ex_committer f)\<lparr>commitNotifyCh := False\<rparr>) = Some r' \<and>
      fsm r' = f' \<and> lastApplied r' = 1 \<and> commitIndex r' = 1 \<and> logStore r' = mk_log [hello] \<and>
      state r' = Leader \<and> currentTerm r' = 1"
    by (simp add: applyCommitted_def ex_committer_facts u64_def apply_one_def ex_log_facts assms Let_def
        respond_at_def split: option.splits)
  then show "applyCommitted inmem_log fapply ((ex_committer f)\<lparr>commitNotifyCh := False\<rparr>) = Some (ex_applied fapply f)"
    "fsm (ex_applied fapply f) = f'" "lastApplied (ex_applied fapply f) = 1" "commitIndex (ex_applied fapply f) = 1"
    "logStore (ex_applied fapply f) = mk_log [hello]" "state (ex_applied fapply f) = Leader" "currentTerm (ex_applied fapply f) = 1"
    unfolding ex_applied_def by auto
qed

text \<open>The states of the run: the nodes \<open>"a"\<close> and \<open>"b"\<close>, and the messages.\<close>

definition trio ::
    "'f \<Rightarrow> (InmemLogStore, InmemStableStore, 'f, 'r) RaftNode \<Rightarrow> (InmemLogStore, InmemStableStore, 'f, 'r) RaftNode \<Rightarrow>
     string \<Rightarrow> (InmemLogStore, InmemStableStore, 'f, 'r) RaftNode" where
  "trio f ra rb n = (if n = ''a'' then ra else if n = ''b'' then rb else boot f n)"

lemma trio_simps [simp]:
  "trio f ra rb ''a'' = ra" "trio f ra rb ''b'' = rb" "(trio f ra rb)(''a'' := r) = trio f r rb" "(trio f ra rb)(''b'' := r) = trio f ra r"
  "trio f ra rb ''c'' = boot f ''c''"
  by (auto simp: trio_def fun_eq_iff)

definition ex_sys where
  "ex_sys f ra rb bal rq rs ar vl ld rep = \<lparr>net = \<lparr>nodes = trio f ra rb, ballots = bal, voteReqs = rq, voteResps = rs,
     appendReqs = ar, vote_log = vl, leaders = ld\<rparr>, replies = rep\<rparr>"

lemma ex_bounded:
  assumes "rstep inmem_log inmem_stable fapply f (server_ids three_peers) (ex_sys f ra rb bal rq rs ar vl ld rep) S'"
    and "logStore ra \<in> {NewInmemLogStore, mk_log [hello]}" and "logStore rb \<in> {NewInmemLogStore, mk_log [hello]}"
  shows "(ex_step fapply f) (ex_sys f ra rb bal rq rs ar vl ld rep) S'"
proof -
  have "last_idx inmem_log (logStore (trio f ra rb n)) < 2 ^ 64 - 1" if "n \<in> server_ids three_peers" for n
    using that assms(2,3) by (auto simp: ex_servers ex_log_facts)
  with assms(1) show ?thesis by (simp add: bounded_step_def ex_sys_def)
qed

lemma ex_start_ok: "system_start inmem_holds inmem_stable three_peers f (ex_system f)"
proof -
  have "cluster_init inmem_stable three_peers (net (ex_system f))"
    by (simp add: cluster_init_def configured_def ex_system_def boot_persisted ex_config_def)
  then show ?thesis using inmem_holds_new by (simp add: system_start_def ex_system_def)
qed

lemma ex_ids: "''a'' \<in> server_ids three_peers" "''b'' \<in> server_ids three_peers"
  by (simp_all add: ex_servers)

lemma ex_system_eq: "(ex_system f) = ex_sys f (boot f ''a'') (boot f ''b'') (\<lambda>_. {}) {} {} {} {} {} {}"
  by (auto simp: ex_system_def ex_sys_def trio_def fun_eq_iff)

lemma ex_elected:
  "\<exists>bal rq rs vl ld. (ex_step fapply f)\<^sup>*\<^sup>* (ex_system f) (ex_sys f (ex_leader f) (ex_voter f) bal rq rs {} vl ld {})"
proof -
  let ?b = "(\<lambda>_. {})(''a'' := {''a''})" and ?b2 = "(\<lambda>_. {})(''a'' := {''b'', ''a''})"
  let ?S1 = "ex_sys f (ex_candidate f) (boot f ''b'') ?b {ex_request} {} {} {(1, ''a'', ''a'')} {} {}"
  let ?S2 = "ex_sys f (ex_candidate f) (ex_voter f) ?b {ex_request} {(''b'', ex_request, ex_grant)} {} {(1, ''b'', ''a''), (1, ''a'', ''a'')} {} {}"
  let ?S3 = "ex_sys f (ex_leader f) (ex_voter f) ?b2 {ex_request} {(''b'', ex_request, ex_grant)} {} {(1, ''b'', ''a''), (1, ''a'', ''a'')} {(1, ''a'')} {}"
  from r_elect [OF ex_ids(1), of "ex_system f" inmem_log inmem_stable "ex_candidate f" ex_request "[''b:1'', ''c:1'']" 1 fapply f]
  have "rstep inmem_log inmem_stable fapply f (server_ids three_peers) (ex_system f) ?S1"
    by (simp add: ex_system_eq ex_sys_def ex_candidate_facts start_leader_def)
  then have 1: "(ex_step fapply f) (ex_system f) ?S1" unfolding ex_system_eq by (rule ex_bounded) (simp_all add: node_defs)
  from r_request [OF ex_ids(2), of ex_request ?S1 inmem_log inmem_stable "ex_voter f" ex_grant True fapply f]
  have "rstep inmem_log inmem_stable fapply f (server_ids three_peers) ?S1 ?S2"
    by (simp add: ex_sys_def ex_voter_facts)
  then have 2: "(ex_step fapply f) ?S1 ?S2" by (rule ex_bounded) (simp_all add: node_defs ex_candidate_facts)
  from r_vote [OF ex_ids(1), of "''b''" ex_request ex_grant ?S2 inmem_stable "becomeLeader (ex_candidate f)" 2 True inmem_log fapply f]
  have "rstep inmem_log inmem_stable fapply f (server_ids three_peers) ?S2 ?S3"
    by (simp add: ex_sys_def ex_candidate_facts ex_leader_facts(1) [unfolded One_nat_def] ex_leader_def)
  then have 3: "(ex_step fapply f) ?S2 ?S3" by (rule ex_bounded) (simp_all add: ex_candidate_facts ex_voter_facts)
  note into = converse_rtranclp_into_rtranclp [where r = "ex_step fapply f"]
  have "(ex_step fapply f)\<^sup>*\<^sup>* (ex_system f) ?S3"
    by (rule into [OF 1], rule into [OF 2], rule into [OF 3], rule rtranclp.rtrancl_refl)
  then show ?thesis by blast
qed

lemma ex_replicated:
  assumes "fapply f ''hello'' = Some (f', resp)"
  shows "\<exists>S. (ex_step fapply f)\<^sup>*\<^sup>* (ex_system f) S \<and> node_of S ''a'' = ex_applied fapply f \<and> node_of S ''b'' = ex_follower f"
proof -
  obtain bal rq rs vl ld where S: "(ex_step fapply f)\<^sup>*\<^sup>* (ex_system f) (ex_sys f (ex_leader f) (ex_voter f) bal rq rs {} vl ld {})"
    using ex_elected [of fapply f] by (elim exE)
  let ?sys = "\<lambda>ra rb ar rep. ex_sys f ra rb bal rq rs ar vl ld rep" and ?m = "(''b'', ex_append, ex_accept)"
  let ?rstep = "rstep inmem_log inmem_stable fapply f (server_ids three_peers)"
  note facts = ex_leader_facts ex_voter_facts ex_writer_facts ex_follower_facts ex_committer_facts
  have local: "?rstep (?sys ra rb ar rep) (?sys r' rb ar rep)" if "local_step inmem_log fapply ra r'" for ra rb ar rep r'
    using r_local [OF ex_ids(1), of inmem_log fapply "?sys ra rb ar rep" r' inmem_stable f] that by (simp add: ex_sys_def)
  have 1: "(ex_step fapply f) (?sys (ex_leader f) (ex_voter f) {} {}) (?sys (ex_busy f) (ex_voter f) {} {})"
    by (rule ex_bounded [OF local [OF local_Apply [OF ex_writer_facts(1)]]]) (simp_all add: facts)
  have 2: "(ex_step fapply f) (?sys (ex_busy f) (ex_voter f) {} {}) (?sys (ex_writer f) (ex_voter f) {} {})"
    unfolding ex_writer_def
    by (rule ex_bounded [OF local [OF local_request [OF ex_writer_facts(2)]]]) (simp_all add: facts)
  have "?rstep (?sys (ex_writer f) (ex_voter f) {} {}) (?sys (ex_writer f) (ex_voter f) {ex_append} {})"
    using r_send [OF ex_ids(1), of inmem_log "?sys (ex_writer f) (ex_voter f) {} {}" "ex_peer ''b'' 1 0" ex_append inmem_stable fapply f]
      by (simp add: ex_sys_def ex_follower_facts(1) [unfolded One_nat_def])
  then have 3: "(ex_step fapply f) (?sys (ex_writer f) (ex_voter f) {} {}) (?sys (ex_writer f) (ex_voter f) {ex_append} {})"
    by (rule ex_bounded) (simp_all add: facts)
  have "?rstep (?sys (ex_writer f) (ex_voter f) {ex_append} {}) (?sys (ex_writer f) (ex_follower f) {ex_append} {?m})"
    using r_append [OF ex_ids(2), of ex_append "?sys (ex_writer f) (ex_voter f) {ex_append} {}" inmem_log inmem_stable "ex_follower f" ex_accept True]
      by (simp add: ex_sys_def ex_follower_facts(2))
  then have 4: "(ex_step fapply f) (?sys (ex_writer f) (ex_voter f) {ex_append} {}) (?sys (ex_writer f) (ex_follower f) {ex_append} {?m})"
    by (rule ex_bounded) (simp_all add: facts)
  have "?rstep (?sys (ex_writer f) (ex_follower f) {ex_append} {?m}) (?sys (ex_committer f) (ex_follower f) {ex_append} {?m})"
    using r_reply [OF ex_ids(1), of "''b''" ex_append ex_accept "?sys (ex_writer f) (ex_follower f) {ex_append} {?m}"
        "(ex_peer ''b'' 1 0)\<lparr>triggerCh := True\<rparr>" inmem_log inmem_stable "ex_committer f"
        "(ex_peer ''b'' 2 (Suc 0))\<lparr>triggerCh := True\<rparr>" fapply f]
      by (simp add: ex_sys_def IsLeader_def ex_writer_facts ex_committer_facts(1) [unfolded One_nat_def])
  then have 5: "(ex_step fapply f) (?sys (ex_writer f) (ex_follower f) {ex_append} {?m}) (?sys (ex_committer f) (ex_follower f) {ex_append} {?m})"
    by (rule ex_bounded) (simp_all add: facts)
  have 6: "(ex_step fapply f) (?sys (ex_committer f) (ex_follower f) {ex_append} {?m}) (?sys (ex_applied fapply f) (ex_follower f) {ex_append} {?m})"
    by (rule ex_bounded [OF local [OF local_commit [OF ex_applied_facts(1) [where fapply = fapply, OF assms]]]]) (simp_all add: facts)
  note into = converse_rtranclp_into_rtranclp [where r = "ex_step fapply f"]
  have "(ex_step fapply f)\<^sup>*\<^sup>* (ex_system f) (?sys (ex_applied fapply f) (ex_follower f) {ex_append} {?m})"
    by (rule rtranclp_trans [OF S], rule into [OF 1], rule into [OF 2], rule into [OF 3], rule into [OF 4], rule into [OF 5],
        rule into [OF 6], rule rtranclp.rtrancl_refl)
  moreover have "node_of (?sys (ex_applied fapply f) (ex_follower f) {ex_append} {?m}) ''a'' = (ex_applied fapply f)"
    "node_of (?sys (ex_applied fapply f) (ex_follower f) {ex_append} {?m}) ''b'' = (ex_follower f)" by (simp_all add: ex_sys_def)
  ultimately show ?thesis by blast
qed

end
