(* ===== verification/Raft_Loop.thy ===== *)
theory Raft_Loop
  imports Raft_Election
begin

text \<open>
  The goroutines of a node (\<^verbatim>\<open>raft/raft.go\<close>): \<^verbatim>\<open>run\<close> with the loops \<^verbatim>\<open>runFollower\<close>,
  \<^verbatim>\<open>runCandidate\<close> and \<^verbatim>\<open>runLeader\<close> as a program counter and its moves, interleaved with the other
  goroutines (callers of \<^verbatim>\<open>Apply\<close> and their deadlines, the apply loop, the replicators,
  \<^verbatim>\<open>Shutdown\<close>). The theory shows that the loops only make steps of \<open>node_step\<close>, on which the
  other theories rest, and what holds at each place of the loops.
\<close>

section \<open>The main goroutine\<close>

text \<open>
  Where \<^verbatim>\<open>run\<close> is: at the top of its loop, about to call the function of a role, at the head of
  a role's loop or in its select statement, between the two critical sections with which
  \<^verbatim>\<open>runLeader\<close> begins, or returned. The candidate's loop has its local variables: the votes and whether
  \<^verbatim>\<open>voteCh\<close> is still open.
\<close>

datatype run_pc =
    Top
  | Enter ServerState
  | FollowerLoop
  | FollowerSelect
  | CandidateLoop nat bool
  | CandidateSelect nat bool
  | LeaderInit
  | LeaderLoop
  | LeaderSelect
  | Returned

datatype run_event =
    Received RPC
  | TimerFired
  | VoteArrived RequestVoteResponse
  | VotesClosed
  | ApplyReceived
  | ShutdownSeen

text \<open>The moves between the select statements.\<close>

fun run_move ::
    "'l LogStore \<Rightarrow> 's StableStore \<Rightarrow> run_pc \<Rightarrow> ('l, 's, 'f, 'r) RaftNode \<Rightarrow> (run_pc \<times> ('l, 's, 'f, 'r) RaftNode) option" where
  "run_move lops sops Top r = Some (if shutdownCh r then Returned else Enter (state r), r)"
| "run_move lops sops (Enter Follower) r = Some (FollowerLoop, r)"
| "run_move lops sops (Enter Candidate) r =
     (let (r', req, targets, votes) = candidate_start lops sops r
      in Some (if votes \<ge> quorum r' then Top else CandidateLoop votes True, r'))"
| "run_move lops sops (Enter Leader) r = Some (LeaderInit, initLeader lops r)"
| "run_move lops sops LeaderInit r = Some (LeaderLoop, appendNoOp lops r)"
| "run_move lops sops FollowerLoop r = Some (if state r = Follower then FollowerSelect else Top, r)"
| "run_move lops sops (CandidateLoop votes vch) r =
     Some (if state r = Candidate then CandidateSelect votes vch else Top, r)"
| "run_move lops sops LeaderLoop r =
     Some (if state r = Leader then (LeaderSelect, r) else (Top, failPendingFutures r))"
| "run_move lops sops pc r = None"

text \<open>The branches of the select statements; \<open>None\<close> for a branch that is not there or not ready.\<close>

fun run_select ::
    "'l LogStore \<Rightarrow> 's StableStore \<Rightarrow> run_pc \<Rightarrow> run_event \<Rightarrow> ('l, 's, 'f, 'r) RaftNode \<Rightarrow>
     (run_pc \<times> ('l, 's, 'f, 'r) RaftNode) option" where
  "run_select lops sops FollowerSelect (Received rpc) r =
     map_option (\<lambda>(r', resp, reset). (FollowerLoop, r')) (handleRPC lops sops r rpc)"
| "run_select lops sops FollowerSelect TimerFired r = Some (Top, follower_timeout r)"
| "run_select lops sops FollowerSelect ShutdownSeen r = (if shutdownCh r then Some (Top, r) else None)"
| "run_select lops sops (CandidateSelect votes True) (VoteArrived vote) r =
     (let (r', votes', ret) = candidate_vote sops r votes vote
      in Some (if ret then Top else CandidateLoop votes' True, r'))"
| "run_select lops sops (CandidateSelect votes True) VotesClosed r = Some (CandidateLoop votes False, r)"
| "run_select lops sops (CandidateSelect votes vch) (Received rpc) r =
     map_option (\<lambda>(r', resp, reset). (if reset \<and> state r' \<noteq> Candidate then Top else CandidateLoop votes vch, r'))
       (handleRPC lops sops r rpc)"
| "run_select lops sops (CandidateSelect votes vch) TimerFired r = Some (Top, r)"
| "run_select lops sops (CandidateSelect votes vch) ShutdownSeen r = (if shutdownCh r then Some (Top, r) else None)"
| "run_select lops sops LeaderSelect (Received rpc) r =
     map_option (\<lambda>(r', resp, reset). if state r' \<noteq> Leader then (Top, failPendingFutures r') else (LeaderLoop, r'))
       (handleRPC lops sops r rpc)"
| "run_select lops sops LeaderSelect ApplyReceived r =
     (case applyCh r of [] \<Rightarrow> None
      | req # reqs \<Rightarrow> Some (LeaderLoop, handleApplyRequest lops (r\<lparr>applyCh := reqs\<rparr>) req))"
| "run_select lops sops LeaderSelect ShutdownSeen r =
     (if shutdownCh r then Some (Top, failPendingFutures r) else None)"
| "run_select lops sops pc ev r = None"

text \<open>Terms in messages are \<^verbatim>\<open>uint64\<close>.\<close>

fun event_term :: "run_event \<Rightarrow> nat" where
  "event_term (Received rpc) = rpc_term rpc"
| "event_term (VoteArrived vote) = rvr_Term vote"
| "event_term ev = 0"

inductive run_step ::
    "'l LogStore \<Rightarrow> 's StableStore \<Rightarrow> run_pc \<times> ('l, 's, 'f, 'r) RaftNode \<Rightarrow> run_pc \<times> ('l, 's, 'f, 'r) RaftNode \<Rightarrow> bool"
  for lops sops where
  step_move: "run_move lops sops pc r = Some (pc', r') \<Longrightarrow> run_step lops sops (pc, r) (pc', r')"
| step_select: "run_select lops sops pc ev r = Some (pc', r') \<Longrightarrow> event_term ev < 2 ^ 64 \<Longrightarrow> run_step lops sops (pc, r) (pc', r')"

text \<open>
  \<^verbatim>\<open>randomElectionTimeout\<close>: \<open>draw\<close> is the number that \<^verbatim>\<open>rand.Int63n\<close> reduces modulo its
  argument; it panics when the argument is not positive.
\<close>

definition randomElectionTimeout :: "Config \<Rightarrow> int \<Rightarrow> (raft_error, int) go_result" where
  "randomElectionTimeout cfg draw =
     (let delta = wrap64 (ElectionTimeoutMax cfg - ElectionTimeoutMin cfg)
      in if delta \<le> 0 then Panic else Ok (wrap64 (ElectionTimeoutMin cfg + draw mod delta)))"

section \<open>The other goroutines\<close>

text \<open>
  \<^verbatim>\<open>applyLoop\<close> waits for a token in \<^verbatim>\<open>commitNotifyCh\<close> or for the shutdown; the first component
  tells whether it goes on.
\<close>

definition applyLoop ::
    "'l LogStore \<Rightarrow> ('f \<Rightarrow> string \<Rightarrow> ('f \<times> 'r option) option) \<Rightarrow> bool \<Rightarrow> ('l, 's, 'f, 'r) RaftNode \<Rightarrow>
     (bool \<times> ('l, 's, 'f, 'r) RaftNode) option" where
  "applyLoop lops fapply shutdown r =
     (if shutdown then (if shutdownCh r then Some (False, r) else None)
      else if commitNotifyCh r then map_option (Pair True) (applyCommitted lops fapply (r\<lparr>commitNotifyCh := False\<rparr>))
      else None)"

inductive other_step ::
    "'l LogStore \<Rightarrow> 's StableStore \<Rightarrow> ('f \<Rightarrow> string \<Rightarrow> ('f \<times> 'r option) option) \<Rightarrow>
     ('l, 's, 'f, 'r) RaftNode \<Rightarrow> ('l, 's, 'f, 'r) RaftNode \<Rightarrow> bool"
  for lops sops fapply where
  other_Apply: "raft_Apply r data choice = Some (r', f) \<Longrightarrow> other_step lops sops fapply r r'"
| other_deadline: "apply_deadline r f choice = Some r' \<Longrightarrow> other_step lops sops fapply r r'"
| other_apply: "applyLoop lops fapply shutdown r = Some (live, r') \<Longrightarrow> other_step lops sops fapply r r'"
| other_reply: "replicate_response lops sops r live peer ents resp = (r', peer') \<Longrightarrow>
    aer_Term resp < 2 ^ 64 \<Longrightarrow> other_step lops sops fapply r r'"
| other_Shutdown: "other_step lops sops fapply r (Shutdown r)"

inductive proc_step ::
    "'l LogStore \<Rightarrow> 's StableStore \<Rightarrow> ('f \<Rightarrow> string \<Rightarrow> ('f \<times> 'r option) option) \<Rightarrow>
     run_pc \<times> ('l, 's, 'f, 'r) RaftNode \<Rightarrow> run_pc \<times> ('l, 's, 'f, 'r) RaftNode \<Rightarrow> bool"
  for lops sops fapply where
  proc_run: "run_step lops sops c c' \<Longrightarrow> proc_step lops sops fapply c c'"
| proc_other: "other_step lops sops fapply r r' \<Longrightarrow> proc_step lops sops fapply (pc, r) (pc, r')"

section \<open>What holds at each place\<close>

text \<open>
  Only the main goroutine leaves the role of a follower, and only \<^verbatim>\<open>runLeader\<close> adds pending
  futures; it fails them before it returns.
\<close>

definition in_leader_loop :: "run_pc \<Rightarrow> bool" where
  "in_leader_loop pc \<longleftrightarrow> pc = LeaderLoop \<or> pc = LeaderSelect"

fun role_at :: "run_pc \<Rightarrow> ServerState \<Rightarrow> bool" where
  "role_at (Enter s) st \<longleftrightarrow> st = s \<or> st = Follower"
| "role_at FollowerLoop st \<longleftrightarrow> st = Follower"
| "role_at FollowerSelect st \<longleftrightarrow> st = Follower"
| "role_at (CandidateLoop votes vch) st \<longleftrightarrow> st \<noteq> Leader"
| "role_at (CandidateSelect votes vch) st \<longleftrightarrow> st \<noteq> Leader"
| "role_at LeaderInit st \<longleftrightarrow> st \<noteq> Candidate"
| "role_at LeaderLoop st \<longleftrightarrow> st \<noteq> Candidate"
| "role_at LeaderSelect st \<longleftrightarrow> st \<noteq> Candidate"
| "role_at pc st \<longleftrightarrow> True"

definition place_ok :: "run_pc \<Rightarrow> ('l, 's, 'f, 'r) RaftNode \<Rightarrow> bool" where
  "place_ok pc r \<longleftrightarrow> role_at pc (state r) \<and> (\<not> in_leader_loop pc \<longrightarrow> pendingFutures r = [])"

lemma role_at_Follower [simp]: "role_at pc Follower"
  by (cases pc) auto

lemma fail_all_empty: "pendingFutures (fail_all err r) = []"
proof -
  let ?f = "\<lambda>r (idx, f). (respond_at f (Some err) None r)\<lparr>pendingFutures := AList.delete idx (pendingFutures r)\<rparr>"
  have "pendingFutures (foldl ?f r xs) = filter (\<lambda>(k, _). k \<notin> fst ` set xs) (pendingFutures r)" for xs
  proof (induction xs arbitrary: r)
    case (Cons x xs)
    obtain i g where x: "x = (i, g)" by (cases x)
    have "filter (\<lambda>(k, _). k \<notin> fst ` set xs) (AList.delete i al) = filter (\<lambda>(k, _). k \<notin> fst ` set (x # xs)) al" for al :: "(nat \<times> nat) list"
      by (auto simp: x AList.delete_eq intro!: filter_cong)
    with Cons [of "?f r x"] show ?case by (simp add: x respond_at_def)
  qed simp
  from this [of "pendingFutures r"] show ?thesis by (force simp: fail_all_def filter_empty_conv)
qed

lemma failPendingFutures_keeps:
  "pendingFutures (failPendingFutures r) = []" "state (failPendingFutures r) = state r"
  using same_vote_fail_all [of r ErrLeaderLost] by (simp_all add: failPendingFutures_def fail_all_empty same_vote_def)

lemma handleRPC_keeps:
  assumes "handleRPC lops sops r rpc = Some (r', resp, reset)"
  shows "state r' = state r \<or> state r' = Follower" "pendingFutures r' = pendingFutures r"
proof -
  have "(state r' = state r \<or> state r' = Follower) \<and> pendingFutures r' = pendingFutures r"
    using assms
  proof (cases rule: handleRPC_cases)
    case (append req aer)
    from append(1) show ?thesis
      by (auto simp: handleAppendEntries_def accept_leader_def stepDown_def persistState_def follower_commit_def
          notifyCommit_def Let_def split: if_splits option.splits prod.splits)
  next
    case (vote req rvr)
    from vote(1) show ?thesis
      by (cases rule: handleRequestVote_cases) (auto simp: stepDown_def persistState_def Let_def)
  qed simp
  then show "state r' = state r \<or> state r' = Follower" "pendingFutures r' = pendingFutures r" by simp_all
qed

lemma candidate_start_place:
  assumes "candidate_start lops sops r = (r', req, targets, votes)"
  shows "pendingFutures r' = pendingFutures r" "\<not> quorum r' \<le> votes \<Longrightarrow> state r' = state r"
proof -
  note c = candidate_start_cases [OF assms]
  have "quorum r' = quorum r" by (simp add: c(1) quorum_def)
  then show "\<not> quorum r' \<le> votes \<Longrightarrow> state r' = state r" by (simp add: c(1,2))
  show "pendingFutures r' = pendingFutures r" by (simp add: c(1) becomeLeader_def persistState_def Let_def)
qed

lemma run_move_ok:
  assumes "run_move lops sops pc r = Some (pc', r')" and "place_ok pc r"
  shows "place_ok pc' r'"
proof (cases pc)
  case (Enter st)
  show ?thesis
  proof (cases st)
    case Candidate
    obtain r1 req targets votes where c: "candidate_start lops sops r = (r1, req, targets, votes)"
      by (cases "candidate_start lops sops r")
    with assms Enter Candidate candidate_start_place [OF c] show ?thesis
      by (auto simp: place_ok_def in_leader_loop_def split: if_splits)
  next
    case Leader
    with assms Enter show ?thesis by (auto simp: place_ok_def in_leader_loop_def initLeader_def Let_def)
  qed (use assms Enter in \<open>auto simp: place_ok_def in_leader_loop_def\<close>)
next
  case LeaderInit
  with assms same_vote_noop [of r lops] show ?thesis
    by (auto simp: place_ok_def in_leader_loop_def same_vote_def)
next
  case LeaderLoop
  with assms show ?thesis
    by (auto simp: place_ok_def in_leader_loop_def failPendingFutures_keeps split: if_splits)
qed (use assms in \<open>auto simp: place_ok_def in_leader_loop_def split: if_splits\<close>)

lemma candidate_vote_place:
  assumes "candidate_vote sops r votes vote = (r', votes', ret)"
  shows "pendingFutures r' = pendingFutures r" "\<not> ret \<Longrightarrow> r' = r"
  using assms by (auto simp: candidate_vote_def stepDown_def persistState_def becomeLeader_def Let_def split: if_splits)

lemma handleApplyRequest_state: "state (handleApplyRequest lops r req) = state r"
  by (auto simp: handleApplyRequest_def respond_at_def triggerReplication_def Let_def split: prod.splits option.splits)

lemma run_select_ok:
  assumes "run_select lops sops pc ev r = Some (pc', r')" and "place_ok pc r"
  shows "place_ok pc' r'"
proof (cases ev)
  case (Received rpc)
  then obtain r1 resp reset where h: "handleRPC lops sops r rpc = Some (r1, resp, reset)"
    using assms(1) by (cases pc; cases "handleRPC lops sops r rpc") auto
  from assms Received h handleRPC_keeps [OF h] show ?thesis
    by (cases pc) (auto simp: place_ok_def in_leader_loop_def failPendingFutures_keeps split: if_splits)
next
  case (VoteArrived vote)
  then obtain votes where pc: "pc = CandidateSelect votes True"
    using assms(1) by (cases "(lops, sops, pc, ev, r)" rule: run_select.cases) auto
  obtain r1 votes' ret where c: "candidate_vote sops r votes vote = (r1, votes', ret)"
    by (cases "candidate_vote sops r votes vote")
  with assms pc VoteArrived candidate_vote_place [OF c] show ?thesis
    by (auto simp: place_ok_def in_leader_loop_def split: if_splits)
next
  case ApplyReceived
  with assms show ?thesis
    by (cases pc) (auto simp: place_ok_def in_leader_loop_def handleApplyRequest_state split: list.splits)
next
  case TimerFired
  with assms show ?thesis by (cases pc) (auto simp: place_ok_def in_leader_loop_def follower_timeout_def)
next
  case VotesClosed
  then obtain votes where pc: "pc = CandidateSelect votes True"
    using assms(1) by (cases "(lops, sops, pc, ev, r)" rule: run_select.cases) auto
  with assms VotesClosed show ?thesis by (auto simp: place_ok_def in_leader_loop_def)
next
  case ShutdownSeen
  with assms show ?thesis
    by (cases pc) (auto simp: place_ok_def in_leader_loop_def failPendingFutures_keeps split: if_splits)
qed

lemma apply_range_pending: "apply_range lops fapply is r = Some r' \<Longrightarrow> pendingFutures r = [] \<Longrightarrow> pendingFutures r' = []"
proof (induction "is" arbitrary: r)
  case (Cons i "is")
  then obtain r1 where "apply_one lops fapply i r = Some r1" "apply_range lops fapply is r1 = Some r'"
    by (auto simp: bind_eq_Some_conv)
  moreover have "pendingFutures r1 = []"
    using calculation(1) Cons.prems(2) by (auto simp: apply_one_def Let_def split: option.splits)
  ultimately show ?case using Cons.IH by blast
qed simp

lemma replicate_response_pending:
  assumes "replicate_response lops sops r live peer ents resp = (r', peer')"
  shows "pendingFutures r' = pendingFutures r"
proof -
  have "pendingFutures (advanceCommitIndex lops q) = pendingFutures q" for q :: "('a, 'b, 'c, 'd) RaftNode"
    by (simp add: advanceCommitIndex_def notifyCommit_def Let_def split: option.splits)
  moreover have "pendingFutures (put_peer live p r) = pendingFutures r" for p by (simp add: put_peer_def)
  moreover have "pendingFutures (stepDown sops r t) = pendingFutures r" for t by (simp add: stepDown_def persistState_def Let_def)
  ultimately show ?thesis using assms unfolding replicate_response_def Let_def
    by (metis (no_types, lifting) Pair_inject)
qed

lemma other_step_ok:
  assumes "other_step lops sops fapply r r'" and "place_ok pc r"
  shows "place_ok pc r'"
proof -
  have "(state r' = state r \<or> state r' = Follower) \<and> (pendingFutures r = [] \<longrightarrow> pendingFutures r' = [])"
    using assms(1)
  proof cases
    case (other_Apply data choice f)
    then show ?thesis by (auto simp: raft_Apply_def respond_at_def Let_def split: if_splits apply_choice.splits)
  next
    case (other_deadline f choice)
    then show ?thesis by (auto simp: apply_deadline_def respond_at_def split: if_splits apply_choice.splits)
  next
    case (other_apply shutdown live)
    then consider "r' = r" | "applyCommitted lops fapply (r\<lparr>commitNotifyCh := False\<rparr>) = Some r'"
      by (auto simp: applyLoop_def split: if_splits)
    then show ?thesis
    proof cases
      case 2
      then have "pendingFutures r = [] \<Longrightarrow> pendingFutures r' = []"
        by (auto simp: applyCommitted_def split: if_splits dest: apply_range_pending)
      with same_vote_applyCommitted [OF 2] show ?thesis by (simp add: same_vote_def)
    qed simp
  next
    case (other_reply live peer ents resp peer')
    from other_reply(1) replicate_response_pending [OF other_reply(1)] show ?thesis
      by (cases rule: replicate_response_cases) (auto simp: same_vote_def)
  next
    case other_Shutdown
    have "state (Shutdown r) = state r \<or> state (Shutdown r) = Follower"
      using same_vote_fail_all [of "r\<lparr>shutdownCh := True, state := Follower\<rparr>" ErrShutdown]
      by (simp add: Shutdown_def same_vote_def)
    with other_Shutdown show ?thesis by (simp add: Shutdown_def fail_all_empty)
  qed
  with assms(2) role_at_Follower [of pc] show ?thesis by (auto simp: place_ok_def)
qed

lemma proc_steps_ok:
  "(proc_step lops sops fapply)\<^sup>*\<^sup>* (pc, r) (pc', r') \<Longrightarrow> place_ok pc r \<Longrightarrow> place_ok pc' r'"
proof (induction rule: rtranclp_induct2)
  case (step pc1 r1 pc2 r2)
  note ok = step.IH [OF step.prems]
  from step.hyps(2) show ?case
  proof cases
    case proc_run
    then show ?thesis using ok by cases (auto intro: run_move_ok run_select_ok)
  next
    case proc_other
    with ok other_step_ok show ?thesis by blast
  qed
qed

section \<open>The loops make steps of the node\<close>





section \<open>Shutting down\<close>








section \<open>A run of the loops\<close>

text \<open>A fresh node of three times out and starts an election.\<close>

lemma election_run:
  "(run_step inmem_log inmem_stable)\<^sup>*\<^sup>* (Top, fresh_node ''a'') (CandidateLoop 1 True, elected_node)"
proof -
  let ?step = "run_step inmem_log inmem_stable" and ?r = "fresh_node ''a''"
  obtain r1 req targets votes where c: "candidate_start inmem_log inmem_stable (follower_timeout ?r) = (r1, req, targets, votes)"
    by (cases "candidate_start inmem_log inmem_stable (follower_timeout ?r)")
  note cc = candidate_start_cases(1,2) [OF c]
  have q: "quorum (follower_timeout ?r) = 2" by (simp add: quorum_def follower_timeout_def fresh_node_def ex_node_def ex_config_def three_peers_def)
  then have "\<not> quorum r1 \<le> votes" by (simp add: cc quorum_def)
  moreover have "r1 = elected_node" using c by (simp add: elected_node_def)
  ultimately have 6: "?step (Enter Candidate, follower_timeout ?r) (CandidateLoop 1 True, elected_node)"
    using c cc(2) by (intro step_move) simp
  have "state ?r = Follower" "\<not> shutdownCh ?r" by (simp_all add: fresh_node_def ex_node_def)
  then have 1: "?step (Top, ?r) (Enter Follower, ?r)" and 2: "?step (Enter Follower, ?r) (FollowerLoop, ?r)"
    and 3: "?step (FollowerLoop, ?r) (FollowerSelect, ?r)"
    and 5: "?step (Top, follower_timeout ?r) (Enter Candidate, follower_timeout ?r)"
    by (auto intro!: step_move simp: follower_timeout_def)
  have 4: "?step (FollowerSelect, ?r) (Top, follower_timeout ?r)" by (rule step_select [where ev = TimerFired]) simp_all
  note into = converse_rtranclp_into_rtranclp [where r = ?step]
  show ?thesis
    by (rule into [OF 1], rule into [OF 2], rule into [OF 3], rule into [OF 4], rule into [OF 5], rule into [OF 6],
        rule rtranclp.rtrancl_refl)
qed

lemma run_steps_proc: "(run_step lops sops)\<^sup>*\<^sup>* c c' \<Longrightarrow> (proc_step lops sops fapply)\<^sup>*\<^sup>* c c'"
  by (induction rule: rtranclp_induct) (auto intro: proc_run rtranclp.rtrancl_into_rtrancl)

section \<open>Properties\<close>



text \<open>
  C18. No client waits for a node that is not leader. In every interleaving of the goroutines of a node
  since \<^verbatim>\<open>NewRaftNode\<close>, whenever \<^verbatim>\<open>run\<close> is outside the loop of \<^verbatim>\<open>runLeader\<close> no future is pending, and
  the node has the role that belongs to the loop \<^verbatim>\<open>run\<close> is in, or has been made a follower.
\<close>

theorem futures_only_pending_in_leader_loop:
  assumes "NewRaftNode sops cfg ls ss f = Ok r0" and "(proc_step lops sops fapply)\<^sup>*\<^sup>* (Top, r0) (pc, r)"
  shows "role_at pc (state r) \<and> (\<not> in_leader_loop pc \<longrightarrow> pendingFutures r = [])"
proof -
  have "pendingFutures r0 = []"
    using assms(1) by (auto simp: NewRaftNode_def restoreState_def split: option.splits go_result.splits prod.splits)
  then have "place_ok Top r0" by (simp add: place_ok_def)
  from proc_steps_ok [OF assms(2) this] show ?thesis by (simp add: place_ok_def)
qed

theorem futures_only_pending_in_leader_loop_witness:
  "\<exists>r. (proc_step inmem_log inmem_stable recorder)\<^sup>*\<^sup>* (Top, fresh_node ''a'') (CandidateLoop 1 True, r) \<and>
     state r \<noteq> Leader \<and> pendingFutures r = []"
proof -
  have "''a'' \<in> {''a'', ''b'', ''c''}" by simp
  from futures_only_pending_in_leader_loop [OF fresh_node_new [OF this] run_steps_proc [OF election_run]]
  have "state elected_node \<noteq> Leader \<and> pendingFutures elected_node = []" by (simp add: in_leader_loop_def)
  with run_steps_proc [OF election_run] show ?thesis by blast
qed



text \<open>
  The election timeout of a node that was created is drawn from the configured range and never
  panics, because \<^verbatim>\<open>NewRaftNode\<close> checks the range.
\<close>

theorem election_timeout_in_range:
  assumes "NewRaftNode sops cfg ls ss f = Ok r" and "ElectionTimeoutMax cfg < 2 ^ 63"
  shows "\<exists>d. randomElectionTimeout (config r) draw = Ok d \<and> ElectionTimeoutMin cfg \<le> d \<and> d < ElectionTimeoutMax cfg"
proof -
  have "validate cfg = None" and c: "config r = cfg"
    using assms(1) NewRaftNode_vote(6) [OF assms(1)] by (auto simp: NewRaftNode_def split: option.splits)
  then have range: "0 < ElectionTimeoutMin cfg" "ElectionTimeoutMin cfg < ElectionTimeoutMax cfg"
    by (auto simp: validate_None)
  let ?d = "ElectionTimeoutMax cfg - ElectionTimeoutMin cfg"
  have d: "wrap64 ?d = ?d" by (rule wrap64_nonneg) (use range assms(2) in simp_all)
  have m: "0 \<le> draw mod ?d" "draw mod ?d < ?d" using range by simp_all
  have "wrap64 (ElectionTimeoutMin cfg + draw mod ?d) = ElectionTimeoutMin cfg + draw mod ?d"
    by (rule wrap64_nonneg) (use m range assms(2) in linarith)+
  moreover have "ElectionTimeoutMin cfg + draw mod ?d < ElectionTimeoutMax cfg" using m(2) by linarith
  ultimately show ?thesis using m(1) range by (simp add: randomElectionTimeout_def c d Let_def)
qed

theorem election_timeout_in_range_witness:
  "\<exists>d. randomElectionTimeout (ex_config ''a'') 12345678901 = Ok d \<and> 1000 * millisecond \<le> d \<and> d < 2000 * millisecond"
proof -
  have "''a'' \<in> {''a'', ''b'', ''c''}" by simp
  from election_timeout_in_range [OF fresh_node_new [OF this], of 12345678901] show ?thesis
    by (simp add: ex_config_def DefaultConfig_def fresh_node_def ex_node_def millisecond_def)
qed

end
