(* ===== verification/Inmem_Transport.thy ===== *)
theory Inmem_Transport
  imports Raft_Types "HOL-Library.AList"
begin

text \<open>
  \<^verbatim>\<open>InmemTransport\<close> of \<^verbatim>\<open>internal/raft/inmem.go\<close>: nodes connected by Go channels, with simulated
  partitions. A transport holds pointers to its peers, so the state is a heap \<open>net\<close> of
  transports, and \<open>tpeers\<close> maps an address to a reference. A call is split where it blocks: the
  request is put on the peer's channel of capacity 256, and the response is awaited.
\<close>

section \<open>State and operations\<close>

record InmemTransport =
  localAddr :: string
  rpcCh :: "RPC list"
  tpeers :: "(string \<times> nat) list"
  tshutdown :: bool

type_synonym net = "nat \<Rightarrow> InmemTransport"

datatype inmem_error = NotConnected string | SendTimeout string | ResponseTimeout string | PeerError

definition NewInmemTransport :: "string \<Rightarrow> InmemTransport" where
  "NewInmemTransport addr = \<lparr>localAddr = addr, rpcCh = [], tpeers = [], tshutdown = False\<rparr>"

definition Connect :: "net \<Rightarrow> nat \<Rightarrow> string \<Rightarrow> nat \<Rightarrow> net" where
  "Connect net t addr peer = net(t := (net t)\<lparr>tpeers := AList.update addr peer (tpeers (net t))\<rparr>)"

definition Disconnect :: "net \<Rightarrow> nat \<Rightarrow> string \<Rightarrow> net" where
  "Disconnect net t addr = net(t := (net t)\<lparr>tpeers := AList.delete addr (tpeers (net t))\<rparr>)"

definition DisconnectAll :: "net \<Rightarrow> nat \<Rightarrow> net" where
  "DisconnectAll net t = net(t := (net t)\<lparr>tpeers := []\<rparr>)"

definition inmem_Shutdown :: "net \<Rightarrow> nat \<Rightarrow> net" where
  "inmem_Shutdown net t = net(t := (net t)\<lparr>tshutdown := True, tpeers := []\<rparr>)"

text \<open>
  The first half of \<^verbatim>\<open>SendAppendEntries\<close> and of \<^verbatim>\<open>SendRequestVote\<close>. The \<^verbatim>\<open>select\<close> times out when
  the channel is full for a second; a receiver that makes room in time is a step before this one.
\<close>

definition inmem_send :: "net \<Rightarrow> nat \<Rightarrow> string \<Rightarrow> RPC \<Rightarrow> net \<times> inmem_error option" where
  "inmem_send net t target rpc =
     (case map_of (tpeers (net t)) target of
        None \<Rightarrow> (net, Some (NotConnected target))
      | Some peer \<Rightarrow>
          if length (rpcCh (net peer)) < 256
          then (net(peer := (net peer)\<lparr>rpcCh := rpcCh (net peer) @ [rpc]\<rparr>), None)
          else (net, Some (SendTimeout target)))"

definition inmem_send_append :: "net \<Rightarrow> nat \<Rightarrow> string \<Rightarrow> AppendEntriesRequest \<Rightarrow> net \<times> inmem_error option" where
  "inmem_send_append net t target req = inmem_send net t target (AppendEntriesRPC req)"

definition inmem_send_vote :: "net \<Rightarrow> nat \<Rightarrow> string \<Rightarrow> RequestVoteRequest \<Rightarrow> net \<times> inmem_error option" where
  "inmem_send_vote net t target req = inmem_send net t target (RequestVoteRPC req)"

text \<open>
  The second half: \<open>answer\<close> is what arrives on \<^verbatim>\<open>respCh\<close> within a second. The type assertion
  panics on a response of the other kind.
\<close>

definition await_append :: "string \<Rightarrow> RPCResponse option \<Rightarrow> (inmem_error, AppendEntriesResponse) go_result" where
  "await_append target answer =
     (case answer of
        None \<Rightarrow> Err (ResponseTimeout target)
      | Some UnknownRPCType \<Rightarrow> Err PeerError
      | Some (AppendEntriesReply resp) \<Rightarrow> Ok resp
      | Some (RequestVoteReply resp) \<Rightarrow> Panic)"

definition await_vote :: "string \<Rightarrow> RPCResponse option \<Rightarrow> (inmem_error, RequestVoteResponse) go_result" where
  "await_vote target answer =
     (case answer of
        None \<Rightarrow> Err (ResponseTimeout target)
      | Some UnknownRPCType \<Rightarrow> Err PeerError
      | Some (RequestVoteReply resp) \<Rightarrow> Ok resp
      | Some (AppendEntriesReply resp) \<Rightarrow> Panic)"

text \<open>The node at the other end receives from \<^verbatim>\<open>Consumer()\<close>.\<close>

definition inmem_receive :: "net \<Rightarrow> nat \<Rightarrow> (RPC \<times> net) option" where
  "inmem_receive net t =
     (case rpcCh (net t) of
        [] \<Rightarrow> None
      | rpc # rpcs \<Rightarrow> Some (rpc, net(t := (net t)\<lparr>rpcCh := rpcs\<rparr>)))"

section \<open>Runs of the network\<close>

datatype net_op =
    DoConnect nat string nat
  | DoDisconnect nat string
  | DoDisconnectAll nat
  | DoShutdown nat
  | DoSend nat string RPC
  | DoReceive nat

fun net_step :: "net \<Rightarrow> net_op \<Rightarrow> net" where
  "net_step net (DoConnect t addr peer) = Connect net t addr peer"
| "net_step net (DoDisconnect t addr) = Disconnect net t addr"
| "net_step net (DoDisconnectAll t) = DisconnectAll net t"
| "net_step net (DoShutdown t) = inmem_Shutdown net t"
| "net_step net (DoSend t target rpc) = fst (inmem_send net t target rpc)"
| "net_step net (DoReceive t) = (case inmem_receive net t of None \<Rightarrow> net | Some (rpc, net') \<Rightarrow> net')"

fun connects :: "nat \<Rightarrow> string \<Rightarrow> net_op \<Rightarrow> bool" where
  "connects t addr (DoConnect t' addr' peer) = (t' = t \<and> addr' = addr)"
| "connects t addr op = False"

section \<open>Lemmas\<close>

lemma map_of_Connect:
  "map_of (tpeers (Connect net t addr peer t')) a =
     (if t' = t \<and> a = addr then Some peer else map_of (tpeers (net t')) a)"
  by (simp add: Connect_def update_conv)

lemma map_of_Disconnect:
  "map_of (tpeers (Disconnect net t addr t')) a =
     (if t' = t \<and> a = addr then None else map_of (tpeers (net t')) a)"
  by (simp add: Disconnect_def delete_conv)

lemma tpeers_send [simp]: "tpeers (fst (inmem_send net t target rpc) t') = tpeers (net t')"
  by (simp add: inmem_send_def split: option.splits)

lemma net_step_unreachable:
  "map_of (tpeers (net t)) addr = None \<Longrightarrow> \<not> connects t addr op \<Longrightarrow>
     map_of (tpeers (net_step net op t)) addr = None"
  by (cases op) (auto simp: map_of_Connect map_of_Disconnect DisconnectAll_def inmem_Shutdown_def inmem_receive_def
      split: option.splits list.splits)

lemma unreachable_run:
  "map_of (tpeers (net t)) addr = None \<Longrightarrow> list_all (\<lambda>op. \<not> connects t addr op) ops \<Longrightarrow>
     map_of (tpeers (foldl net_step net ops t)) addr = None"
  by (induction ops arbitrary: net) (simp_all add: net_step_unreachable)

section \<open>Properties\<close>

text \<open>
  A simulated partition lasts: after \<^verbatim>\<open>Disconnect(addr)\<close>, however the network is used, a send
  to that address fails and delivers nothing, until the transport is connected to it again.
\<close>

theorem partition_lasts:
  assumes "list_all (\<lambda>op. \<not> connects t addr op) ops"
  shows "inmem_send (foldl net_step (Disconnect net t addr) ops) t addr rpc =
    (foldl net_step (Disconnect net t addr) ops, Some (NotConnected addr))"
  using unreachable_run [OF _ assms, of "Disconnect net t addr"] by (simp add: map_of_Disconnect inmem_send_def)

theorem partition_lasts_witness:
  "snd (inmem_send
      (foldl net_step (Disconnect (\<lambda>n. NewInmemTransport [CHR ''a'']) 0 ''b'')
        [DoConnect 0 ''c'' 2, DoConnect 1 ''b'' 1, DoSend 0 ''c'' OtherRPC, DoReceive 2])
      0 ''b'' OtherRPC) = Some (NotConnected ''b'')"
  using partition_lasts [of 0 "''b''" "[DoConnect 0 ''c'' 2, DoConnect 1 ''b'' 1, DoSend 0 ''c'' OtherRPC, DoReceive 2]"]
  by simp

text \<open>
  Delivery is exact and in order: a send to a connected peer with room appends the RPC at the
  end of that peer's channel and touches nothing else, and the peer receives the RPCs in the order
  in which they were sent.
\<close>

theorem delivery_in_order:
  assumes "map_of (tpeers (net t)) target = Some peer" and "length (rpcCh (net peer)) + length rpcs \<le> 256"
  shows "\<exists>net'. foldl (\<lambda>n rpc. fst (inmem_send n t target rpc)) net rpcs = net' \<and>
    rpcCh (net' peer) = rpcCh (net peer) @ rpcs \<and> (\<forall>q. q \<noteq> peer \<longrightarrow> net' q = net q) \<and>
    (\<forall>rpc rest. rpcCh (net' peer) = rpc # rest \<longrightarrow>
       (\<exists>net''. inmem_receive net' peer = Some (rpc, net'') \<and> rpcCh (net'' peer) = rest))"
proof -
  have "rpcCh (foldl (\<lambda>n rpc. fst (inmem_send n t target rpc)) net rpcs peer) = rpcCh (net peer) @ rpcs \<and>
      (\<forall>q. q \<noteq> peer \<longrightarrow> foldl (\<lambda>n rpc. fst (inmem_send n t target rpc)) net rpcs q = net q)"
    using assms
  proof (induction rpcs arbitrary: net)
    case (Cons rpc rpcs)
    obtain n where n: "fst (inmem_send net t target rpc) = n" by simp
    then have at: "n q = net q" if "q \<noteq> peer" for q
      using Cons.prems that by (auto simp: inmem_send_def)
    have peers: "map_of (tpeers (n t)) target = Some peer" using Cons.prems by (simp add: n [symmetric])
    have "rpcCh (n peer) = rpcCh (net peer) @ [rpc]" using Cons.prems n by (auto simp: inmem_send_def)
    with Cons.IH [of n] peers Cons.prems at show ?case by (simp add: n)
  qed simp
  then show ?thesis by (auto simp: inmem_receive_def)
qed

theorem delivery_in_order_witness:
  "rpcCh (foldl (\<lambda>n rpc. fst (inmem_send n 0 ''b'' rpc)) (Connect (\<lambda>n. NewInmemTransport []) 0 ''b'' 1)
      [OtherRPC, OtherRPC] 1) = [OtherRPC, OtherRPC]"
  using delivery_in_order [of "Connect (\<lambda>n. NewInmemTransport []) 0 ''b'' 1" 0 "''b''" 1 "[OtherRPC, OtherRPC]"]
  by (simp add: map_of_Connect) (simp add: Connect_def NewInmemTransport_def)

end
