(* ===== verification/Go_JSON.thy ===== *)
theory Go_JSON
  imports Go_UTF8
begin

text \<open>
  What the program uses of \<^verbatim>\<open>encoding/json\<close>, \<^verbatim>\<open>encoding/base64\<close> and \<^verbatim>\<open>strconv\<close>: the text that
  \<^verbatim>\<open>json.Marshal\<close> writes for a tree of values, the parser behind \<^verbatim>\<open>json.Unmarshal\<close>, and
  the decoding of a tree into Go values. The theory shows that parsing inverts printing for
  strings that are valid UTF-8; other strings come back with U+FFFD in place of the bad bytes. The
  structs of the program are in the \<^verbatim>\<open>Wire\<close> theories.
\<close>

section \<open>Numbers (strconv)\<close>

definition is_digit :: "char \<Rightarrow> bool" where
  "is_digit c \<longleftrightarrow> 48 \<le> byte c \<and> byte c \<le> 57"

fun show_nat :: "nat \<Rightarrow> string" where
  "show_nat n = (if n < 10 then [char_of (48 + n)] else show_nat (n div 10) @ [char_of (48 + n mod 10)])"

declare show_nat.simps [simp del]

definition show_int :: "int \<Rightarrow> string" where
  "show_int i = (if i < 0 then CHR ''-'' # show_nat (nat (- i)) else show_nat (nat i))"

fun read_digits :: "nat \<Rightarrow> string \<Rightarrow> nat option" where
  "read_digits acc [] = Some acc"
| "read_digits acc (c # cs) = (if is_digit c then read_digits (acc * 10 + (byte c - 48)) cs else None)"

text \<open>\<^verbatim>\<open>strconv.ParseUint(s, 10, 64)\<close> and \<^verbatim>\<open>strconv.ParseInt(s, 10, 64)\<close>.\<close>

definition ParseUint :: "string \<Rightarrow> nat option" where
  "ParseUint s =
     (if s = [] then None
      else case read_digits 0 s of None \<Rightarrow> None | Some n \<Rightarrow> if n < 2 ^ 64 then Some n else None)"

definition ParseInt :: "string \<Rightarrow> int option" where
  "ParseInt s =
     (case s of
        [] \<Rightarrow> None
      | c # cs \<Rightarrow>
          (if byte c = 45 then
             (if cs = [] then None
              else case read_digits 0 cs of None \<Rightarrow> None | Some n \<Rightarrow> if n \<le> 2 ^ 63 then Some (- int n) else None)
           else
             (case read_digits 0 s of None \<Rightarrow> None | Some n \<Rightarrow> if n < 2 ^ 63 then Some (int n) else None)))"

section \<open>Values and their text\<close>

text \<open>A number is kept as the literal that stands in the text.\<close>

datatype json =
    JNull
  | JBool bool
  | JNum string
  | JStr string
  | JArr "json list"
  | JObj "(string \<times> json) list"

definition hex_char :: "nat \<Rightarrow> char" where
  "hex_char n = (if n < 10 then char_of (48 + n) else char_of (87 + n))"

definition u_escape :: "nat \<Rightarrow> string" where
  "u_escape r = [CHR 0x5C, CHR ''u'', hex_char (r div 4096 mod 16), hex_char (r div 256 mod 16),
     hex_char (r div 16 mod 16), hex_char (r mod 16)]"

text \<open>
  One rune in a string literal: \<^verbatim>\<open>Marshal\<close> escapes the quote, the backslash, control
  characters, \<^verbatim>\<open><\<close>, \<^verbatim>\<open>>\<close>, \<^verbatim>\<open>&\<close> and U+2028, U+2029.
\<close>

definition escape_rune :: "nat \<Rightarrow> string" where
  "escape_rune r =
     (if r = 34 \<or> r = 92 then [CHR 0x5C, char_of r]
      else if r = 8 then [CHR 0x5C, CHR ''b''] else if r = 12 then [CHR 0x5C, CHR ''f'']
      else if r = 10 then [CHR 0x5C, CHR ''n''] else if r = 13 then [CHR 0x5C, CHR ''r'']
      else if r = 9 then [CHR 0x5C, CHR ''t'']
      else if r < 32 \<or> r = 60 \<or> r = 62 \<or> r = 38 \<or> r = 0x2028 \<or> r = 0x2029 then u_escape r
      else encode_rune r)"

function quote_body :: "string \<Rightarrow> string" where
  "quote_body s =
     (if s = [] then []
      else (if decode_rune s = (0xFFFD, 1) then u_escape 0xFFFD else escape_rune (fst (decode_rune s))) @
             quote_body (drop (snd (decode_rune s)) s))"
  by auto
termination
  by (relation "measure length") (use decode_rune_width in \<open>auto intro: diff_less\<close>)

declare quote_body.simps [simp del]

definition quote :: "string \<Rightarrow> string" where
  "quote s = CHR 0x22 # quote_body s @ [CHR 0x22]"

fun print :: "json \<Rightarrow> string"
  and print_elems :: "json list \<Rightarrow> string"
  and print_members :: "(string \<times> json) list \<Rightarrow> string" where
  "print JNull = ''null''"
| "print (JBool b) = (if b then ''true'' else ''false'')"
| "print (JNum l) = l"
| "print (JStr s) = quote s"
| "print (JArr vs) = CHR ''['' # print_elems vs @ [CHR '']'']"
| "print (JObj ms) = CHR ''{'' # print_members ms @ [CHR ''}'']"
| "print_elems [] = []"
| "print_elems [v] = print v"
| "print_elems (v # w # vs) = print v @ CHR '','' # print_elems (w # vs)"
| "print_members [] = []"
| "print_members [(k, v)] = quote k @ CHR '':'' # print v"
| "print_members ((k, v) # m # ms) = quote k @ CHR '':'' # print v @ CHR '','' # print_members (m # ms)"

section \<open>Parsing\<close>

fun skip_ws :: "string \<Rightarrow> string" where
  "skip_ws [] = []"
| "skip_ws (c # cs) = (if byte c = 32 \<or> byte c = 9 \<or> byte c = 10 \<or> byte c = 13 then skip_ws cs else c # cs)"

text \<open>The longest number literal at the front.\<close>

definition int_part :: "string \<Rightarrow> (string \<times> string) option" where
  "int_part s =
     (case s of
        [] \<Rightarrow> None
      | c # cs \<Rightarrow>
          if byte c = 48 then Some ([c], cs)
          else if is_digit c then Some (takeWhile is_digit s, dropWhile is_digit s) else None)"

definition digits_part :: "string \<Rightarrow> string \<Rightarrow> (string \<times> string) option" where
  "digits_part pre s = (if takeWhile is_digit s = [] then None else Some (pre @ takeWhile is_digit s, dropWhile is_digit s))"

definition frac_part :: "string \<Rightarrow> (string \<times> string) option" where
  "frac_part s = (case s of [] \<Rightarrow> Some ([], []) | c # cs \<Rightarrow> if byte c = 46 then digits_part [c] cs else Some ([], s))"

definition exp_part :: "string \<Rightarrow> (string \<times> string) option" where
  "exp_part s =
     (case s of
        [] \<Rightarrow> Some ([], [])
      | c # cs \<Rightarrow>
          if byte c = 101 \<or> byte c = 69 then
            (case cs of
               [] \<Rightarrow> None
             | d # ds \<Rightarrow> if byte d = 43 \<or> byte d = 45 then digits_part [c, d] ds else digits_part [c] cs)
          else Some ([], s))"

definition number :: "string \<Rightarrow> (string \<times> string) option" where
  "number s =
     (let (sgn, s1) = (case s of [] \<Rightarrow> ([], []) | c # cs \<Rightarrow> if byte c = 45 then ([c], cs) else ([], s))
      in case int_part s1 of
           None \<Rightarrow> None
         | Some (ip, s2) \<Rightarrow>
             (case frac_part s2 of
                None \<Rightarrow> None
              | Some (fp, s3) \<Rightarrow>
                  (case exp_part s3 of None \<Rightarrow> None | Some (ep, s4) \<Rightarrow> Some (sgn @ ip @ fp @ ep, s4))))"

definition hex_val :: "char \<Rightarrow> nat option" where
  "hex_val c =
     (if 48 \<le> byte c \<and> byte c \<le> 57 then Some (byte c - 48)
      else if 97 \<le> byte c \<and> byte c \<le> 102 then Some (byte c - 87)
      else if 65 \<le> byte c \<and> byte c \<le> 70 then Some (byte c - 55) else None)"

fun hex4 :: "string \<Rightarrow> (nat \<times> string) option" where
  "hex4 (a # b # c # d # cs) =
     (case (hex_val a, hex_val b, hex_val c, hex_val d) of
        (Some w, Some x, Some y, Some z) \<Rightarrow> Some (w * 4096 + x * 256 + y * 16 + z, cs)
      | _ \<Rightarrow> None)"
| "hex4 cs = None"

text \<open>\<^verbatim>\<open>getu4\<close>: another escape of this kind, or nothing.\<close>

fun getu4 :: "string \<Rightarrow> (nat \<times> string) option" where
  "getu4 (a # b # cs) = (if byte a = 92 \<and> byte b = 117 then hex4 cs else None)"
| "getu4 cs = None"

definition simple_escape :: "char \<Rightarrow> string option" where
  "simple_escape c =
     (if byte c = 34 \<or> byte c = 92 \<or> byte c = 47 then Some [c]
      else if byte c = 98 then Some [char_of (8 :: nat)] else if byte c = 102 then Some [char_of (12 :: nat)]
      else if byte c = 110 then Some [char_of (10 :: nat)] else if byte c = 114 then Some [char_of (13 :: nat)]
      else if byte c = 116 then Some [char_of (9 :: nat)] else None)"

text \<open>
  One character of a string literal: its bytes and what follows. A surrogate that is not half of a
  pair, and a byte that is not UTF-8, become U+FFFD.
\<close>

definition u_rune :: "nat \<Rightarrow> string \<Rightarrow> string \<times> string" where
  "u_rune r cs =
     (if 0xD800 \<le> r \<and> r < 0xE000 then
        (case getu4 cs of
           None \<Rightarrow> (encode_rune 0xFFFD, cs)
         | Some (r2, cs2) \<Rightarrow>
             if r < 0xDC00 \<and> 0xDC00 \<le> r2 \<and> r2 < 0xE000
             then (encode_rune ((r - 0xD800) * 1024 + (r2 - 0xDC00) + 0x10000), cs2)
             else (encode_rune 0xFFFD, cs))
      else (encode_rune r, cs))"

definition literal_char :: "string \<Rightarrow> (string \<times> string) option" where
  "literal_char s =
     (case s of
        [] \<Rightarrow> None
      | c # cs \<Rightarrow>
          if byte c = 92 then
            (case cs of
               [] \<Rightarrow> None
             | e # ds \<Rightarrow>
                 if byte e = 117 then map_option (\<lambda>(r, rest). u_rune r rest) (hex4 ds)
                 else map_option (\<lambda>b. (b, ds)) (simple_escape e))
          else if byte c < 32 then None
          else Some (encode_rune (fst (decode_rune s)), drop (snd (decode_rune s)) s))"

lemma hex4_shorter: "hex4 s = Some (r, t) \<Longrightarrow> length t < length s"
  by (cases s rule: hex4.cases) (auto split: option.splits)

lemma getu4_shorter: "getu4 s = Some (r, t) \<Longrightarrow> length t < length s"
  by (cases s rule: getu4.cases) (auto split: if_splits dest: hex4_shorter)

lemma u_rune_shorter: "u_rune r s = (b, t) \<Longrightarrow> length t \<le> length s"
  by (auto simp: u_rune_def split: if_splits option.splits dest: getu4_shorter)

lemma literal_char_shorter: "literal_char s = Some (b, t) \<Longrightarrow> length t < length s"
  using decode_rune_width [of s]
  by (auto simp: literal_char_def split: list.splits if_splits dest!: hex4_shorter u_rune_shorter)

function unquote :: "string \<Rightarrow> (string \<times> string) option" where
  "unquote s =
     (case s of
        [] \<Rightarrow> None
      | c # cs \<Rightarrow>
          if byte c = 34 then Some ([], cs)
          else (case literal_char s of
                  None \<Rightarrow> None
                | Some (b, t) \<Rightarrow> map_option (\<lambda>(b', rest). (b @ b', rest)) (unquote t)))"
  by auto
termination
  by (relation "measure length") (auto dest: literal_char_shorter)

declare unquote.simps [simp del]

lemma skip_ws_shorter: "length (skip_ws s) \<le> length s"
  by (induction s) auto

lemma skip_ws_Cons: "skip_ws s = c # cs \<Longrightarrow> length cs < length s"
  using skip_ws_shorter [of s] by simp

text \<open>
  Values. \<open>d\<close> counts the open arrays and objects, of which \<^verbatim>\<open>encoding/json\<close> allows 10000. Every
  call consumes something; the tests of the length say so and always succeed
  (\<open>parse_consumes\<close>).
\<close>

definition literal :: "string \<Rightarrow> json \<Rightarrow> string \<Rightarrow> (json \<times> string) option" where
  "literal w v s = (if take (length w) s = w then Some (v, drop (length w) s) else None)"

function parse_value :: "nat \<Rightarrow> string \<Rightarrow> (json \<times> string) option"
  and parse_elems :: "nat \<Rightarrow> string \<Rightarrow> (json list \<times> string) option"
  and parse_members :: "nat \<Rightarrow> string \<Rightarrow> ((string \<times> json) list \<times> string) option" where
  "parse_value d s0 =
     (case skip_ws s0 of
        [] \<Rightarrow> None
      | c # cs \<Rightarrow>
          if byte c = 91 then
            (if 10000 \<le> d then None
             else case skip_ws cs of
                    [] \<Rightarrow> None
                  | e # es \<Rightarrow>
                      if byte e = 93 then Some (JArr [], es)
                      else map_option (\<lambda>(vs, rest). (JArr vs, rest)) (parse_elems (Suc d) cs))
          else if byte c = 123 then
            (if 10000 \<le> d then None
             else case skip_ws cs of
                    [] \<Rightarrow> None
                  | e # es \<Rightarrow>
                      if byte e = 125 then Some (JObj [], es)
                      else map_option (\<lambda>(ms, rest). (JObj ms, rest)) (parse_members (Suc d) cs))
          else if byte c = 34 then map_option (\<lambda>(str, rest). (JStr str, rest)) (unquote cs)
          else if byte c = 110 then literal ''null'' JNull (c # cs)
          else if byte c = 116 then literal ''true'' (JBool True) (c # cs)
          else if byte c = 102 then literal ''false'' (JBool False) (c # cs)
          else map_option (\<lambda>(l, rest). (JNum l, rest)) (number (c # cs)))"
| "parse_elems d s =
     (case parse_value d s of
        None \<Rightarrow> None
      | Some (v, r) \<Rightarrow>
          (case skip_ws r of
             [] \<Rightarrow> None
           | c # cs \<Rightarrow>
               if byte c = 93 then Some ([v], cs)
               else if byte c = 44 \<and> length cs < length s
               then map_option (\<lambda>(vs, rest). (v # vs, rest)) (parse_elems d cs)
               else None))"
| "parse_members d s =
     (case skip_ws s of
        [] \<Rightarrow> None
      | q # qs \<Rightarrow>
          if byte q \<noteq> 34 then None
          else
            (case unquote qs of
               None \<Rightarrow> None
             | Some (k, r) \<Rightarrow>
                 (case skip_ws r of
                    [] \<Rightarrow> None
                  | c # cs \<Rightarrow>
                      if byte c = 58 \<and> length cs < length s then
                        (case parse_value d cs of
                           None \<Rightarrow> None
                         | Some (v, r2) \<Rightarrow>
                             (case skip_ws r2 of
                                [] \<Rightarrow> None
                              | e # es \<Rightarrow>
                                  if byte e = 125 then Some ([(k, v)], es)
                                  else if byte e = 44 \<and> length es < length s
                                  then map_option (\<lambda>(ms, rest). ((k, v) # ms, rest)) (parse_members d es)
                                  else None))
                      else None)))"
  by pat_completeness auto
termination
  by (relation "measure (\<lambda>x. case x of Inl (d, s) \<Rightarrow> 2 * length s
        | Inr (Inl (d, s)) \<Rightarrow> Suc (2 * length s) | Inr (Inr (d, s)) \<Rightarrow> Suc (2 * length s))")
    (auto dest!: skip_ws_Cons)

declare parse_value.simps [simp del] parse_elems.simps [simp del] parse_members.simps [simp del]

text \<open>\<^verbatim>\<open>json.Unmarshal\<close> up to the tree: one value, and nothing but white space after it.\<close>

definition parse_json :: "string \<Rightarrow> json option" where
  "parse_json s = (case parse_value 0 s of None \<Rightarrow> None | Some (v, rest) \<Rightarrow> if skip_ws rest = [] then Some v else None)"

section \<open>Parsing consumes its input\<close>

lemma unquote_shorter: "unquote s = Some (b, t) \<Longrightarrow> length t < length s"
proof (induction s arbitrary: b t rule: unquote.induct)
  case (1 s)
  from "1.IH" "1.prems" [unfolded unquote.simps [of s]] show ?case
    by (fastforce split: list.splits if_splits option.splits dest: literal_char_shorter)
qed

lemma digits_part_splits: "digits_part pre s = Some (l, r) \<Longrightarrow> pre @ s = l @ r"
  by (auto simp: digits_part_def split: if_splits)

lemma part_splits:
  "int_part s = Some (l, r) \<Longrightarrow> s = l @ r \<and> l \<noteq> []"
  "frac_part s = Some (l, r) \<Longrightarrow> s = l @ r"
  "exp_part s = Some (l, r) \<Longrightarrow> s = l @ r"
  by (auto simp: int_part_def frac_part_def exp_part_def split: list.splits if_splits dest!: digits_part_splits)

lemma number_splits: "number s = Some (l, r) \<Longrightarrow> s = l @ r \<and> l \<noteq> []"
  by (fastforce simp: number_def Let_def split: list.splits if_splits option.splits dest: part_splits)

lemma literal_shorter: "literal w v s = Some (u, r) \<Longrightarrow> w \<noteq> [] \<Longrightarrow> s \<noteq> [] \<Longrightarrow> length r < length s"
  by (auto simp: literal_def split: if_splits)

lemma parse_consumes:
  "parse_value d s = Some (v, r) \<Longrightarrow> length r < length s"
  "parse_elems d s = Some (vs, r) \<Longrightarrow> length r < length s"
  "parse_members d s = Some (ms, r) \<Longrightarrow> length r < length s"
proof (induction d s and d s and d s arbitrary: v r and vs r and ms r rule: parse_value_parse_elems_parse_members.induct)
  case (1 d s0)
  note prem = "1.prems" [unfolded parse_value.simps [of d s0]]
  then obtain c cs where cs: "skip_ws s0 = c # cs" by (cases "skip_ws s0") auto
  have lit: "length r < length (c # cs)" if "literal w u (c # cs) = Some (v, r)" "w \<noteq> []" for w u
    using literal_shorter [OF that] by simp
  have num: "length r < length (c # cs)" if "number (c # cs) = Some (l, r)" for l
    using number_splits [OF that] by (cases l) (auto dest: arg_cong [where f = length])
  have "length r < length (c # cs)"
    using prem [unfolded cs] "1.IH" [OF cs]
    by (auto split: list.splits if_splits dest: unquote_shorter lit num skip_ws_Cons intro: less_SucI)
  with skip_ws_Cons [OF cs] show ?case by simp
next
  case (2 d s)
  from "2.IH" "2.prems" [unfolded parse_elems.simps [of d s]] show ?case
    by (fastforce split: list.splits if_splits option.splits dest: skip_ws_Cons)
next
  case (3 d s)
  note prem = "3.prems" [unfolded parse_members.simps [of d s]]
  then obtain q qs k r1 where q: "skip_ws s = q # qs" "byte q = 34" "unquote qs = Some (k, r1)"
    by (auto split: list.splits if_splits option.splits)
  with prem obtain c cs where c: "skip_ws r1 = c # cs" "byte c = 58 \<and> length cs < length s"
    by (auto split: list.splits if_splits)
  with prem q obtain v r2 where v: "parse_value d cs = Some (v, r2)" by (auto split: option.splits)
  with prem q c obtain e es where e: "skip_ws r2 = e # es" by (auto split: list.splits)
  have "length r2 < length cs" by (rule "3.IH"(1) [OF q(1) _ q(3) _ c v]) (use q(2) in auto)
  with skip_ws_Cons [OF e] c(2) have es: "length es < length s" by simp
  have "length r < length s"
    if "byte e \<noteq> 125" "byte e = 44" "parse_members d es = Some (ms', r)" for ms'
    using "3.IH"(2) [OF q(1) _ q(3) _ c v _ e] that es q(2) by fastforce
  with prem q c v e es show ?case by (auto split: if_splits)
qed

section \<open>Numbers come back\<close>

lemma show_nat_digits: "c \<in> set (show_nat n) \<Longrightarrow> is_digit c"
proof (induction n rule: show_nat.induct)
  case (1 n)
  have d: "is_digit (char_of (48 + m))" if "m < 10" for m :: nat
    using that by (simp add: is_digit_def)
  from 1 d [of n] d [of "n mod 10"] show ?case
    by (subst (asm) (2) show_nat.simps) (auto split: if_splits)
qed

lemma show_nat_not_Nil [simp]: "show_nat n \<noteq> []"
  by (subst show_nat.simps) simp

lemma read_digits_append:
  "read_digits acc (s @ t) = Option.bind (read_digits acc s) (\<lambda>n. read_digits n t)"
  by (induction acc s rule: read_digits.induct) auto

lemma read_show_nat: "read_digits 0 (show_nat n) = Some n"
proof (induction n rule: show_nat.induct)
  case (1 n)
  have one: "read_digits a [char_of (48 + m)] = Some (a * 10 + m)" if "m < 10" for a m
    using that by (simp add: is_digit_def)
  show ?case
  proof (cases "n < 10")
    case True
    then show ?thesis using one [of n 0] by (simp add: show_nat.simps)
  next
    case False
    then show ?thesis
      using 1 one [of "n mod 10" "n div 10"] by (subst show_nat.simps) (simp add: read_digits_append)
  qed
qed

lemma show_nat_hd: "0 < n \<Longrightarrow> byte (hd (show_nat n)) \<noteq> 48"
proof (induction n rule: show_nat.induct)
  case (1 n)
  show ?case
  proof (cases "n < 10")
    case True
    with 1(2) show ?thesis by (simp add: show_nat.simps)
  next
    case False
    then have "0 < n div 10" by simp
    with False 1(1) show ?thesis by (subst show_nat.simps) simp
  qed
qed

lemma ParseUint_show: "n < 2 ^ 64 \<Longrightarrow> ParseUint (show_nat n) = Some n"
  by (simp add: ParseUint_def read_show_nat)

lemma show_nat_hd_digit: "is_digit (hd (show_nat n))"
  by (intro show_nat_digits [of _ n] hd_in_set) simp

lemma ParseInt_show:
  assumes "in_int64 i"
  shows "ParseInt (show_int i) = Some i"
proof (cases "i < 0")
  case True
  then show ?thesis using assms by (simp add: ParseInt_def show_int_def read_show_nat in_int64_def)
next
  case False
  obtain c cs where c: "show_nat (nat i) = c # cs" by (cases "show_nat (nat i)") auto
  have "byte c \<noteq> 45" using show_nat_hd_digit [of "nat i"] c by (auto simp: is_digit_def)
  with False c assms read_show_nat [of "nat i"] show ?thesis by (simp add: ParseInt_def show_int_def in_int64_def)
qed

text \<open>Literals after which the parser stops: nothing that could continue a number follows.\<close>

definition stops :: "string \<Rightarrow> bool" where
  "stops rest \<longleftrightarrow> rest = [] \<or> \<not> is_digit (hd rest) \<and> byte (hd rest) \<notin> {46, 69, 101}"

definition number_literal :: "string \<Rightarrow> bool" where
  "number_literal l \<longleftrightarrow> (\<forall>rest. stops rest \<longrightarrow> number (l @ rest) = Some (l, rest)) \<and> l \<noteq> [] \<and>
     (is_digit (hd l) \<or> byte (hd l) = 45)"

lemma takeWhile_stops:
  assumes "\<And>c. c \<in> set l \<Longrightarrow> is_digit c" and "stops rest"
  shows "takeWhile is_digit (l @ rest) = l" "dropWhile is_digit (l @ rest) = rest"
proof -
  have "takeWhile is_digit rest = []" "dropWhile is_digit rest = rest"
    using assms(2) by (cases rest; simp add: stops_def)+
  with assms(1) show "takeWhile is_digit (l @ rest) = l" "dropWhile is_digit (l @ rest) = rest"
    by (simp_all add: takeWhile_append2 dropWhile_append2)
qed

lemma int_part_show:
  assumes "stops rest"
  shows "int_part (show_nat n @ rest) = Some (show_nat n, rest)"
proof (cases "n = 0")
  case True
  then show ?thesis by (simp add: int_part_def show_nat.simps)
next
  case False
  obtain c cs where c: "show_nat n = c # cs" by (cases "show_nat n") auto
  have "byte c \<noteq> 48" "is_digit c" using show_nat_hd [of n] show_nat_hd_digit [of n] False c by auto
  with takeWhile_stops [of "show_nat n" rest, OF show_nat_digits [of _ n] assms] c show ?thesis by (simp add: int_part_def)
qed

lemma no_more_parts: "stops rest \<Longrightarrow> frac_part rest = Some ([], rest) \<and> exp_part rest = Some ([], rest)"
  by (cases rest) (auto simp: frac_part_def exp_part_def stops_def)

lemma show_int_literal: "number_literal (show_int i)"
proof -
  have "number (show_int i @ rest) = Some (show_int i, rest)" if "stops rest" for rest
  proof (cases "i < 0")
    case True
    then show ?thesis using that no_more_parts [OF that] int_part_show [OF that]
      by (simp add: number_def show_int_def)
  next
    case False
    obtain c cs where c: "show_nat (nat i) = c # cs" by (cases "show_nat (nat i)") auto
    have "byte c \<noteq> 45" using show_nat_hd_digit [of "nat i"] c by (auto simp: is_digit_def)
    with False c no_more_parts [OF that] int_part_show [OF that, of "nat i"] show ?thesis
      by (simp add: number_def show_int_def)
  qed
  moreover have "is_digit (hd (show_int i)) \<or> byte (hd (show_int i)) = 45"
    using show_nat_hd_digit by (auto simp: show_int_def)
  ultimately show ?thesis by (auto simp: number_literal_def show_int_def)
qed

lemma show_nat_literal: "number_literal (show_nat n)"
  using show_int_literal [of "int n"] by (simp add: show_int_def)

section \<open>Strings come back\<close>

lemma hex_val_char: "n < 16 \<Longrightarrow> hex_val (hex_char n) = Some n"
  by (simp add: hex_val_def hex_char_def)

lemma hex4_escape:
  assumes "r < 65536"
  shows "hex4 (drop 2 (u_escape r) @ t) = Some (r, t)"
proof -
  have "r div 4096 * 4096 + r div 256 mod 16 * 256 + r div 16 mod 16 * 16 + r mod 16 = r"
  proof -
    have "r div 16 = r div 256 * 16 + r div 16 mod 16" "r div 256 = r div 4096 * 16 + r div 256 mod 16"
      using div_mult2_eq [of r 16 16] div_mult2_eq [of r 256 16] by simp_all
    then show ?thesis using div_mult_mod_eq [of r 16] by linarith
  qed
  moreover have q: "r div 4096 < 16" using assms by simp
  ultimately show ?thesis by (simp add: u_escape_def hex_val_char hex_val_char [OF q])
qed

lemma literal_u_escape:
  assumes "r < 0xD800 \<or> 0xDFFF < r" and "r < 65536"
  shows "literal_char (u_escape r @ t) = Some (encode_rune r, t)"
proof -
  have "hex4 (drop 2 (u_escape r) @ t) = Some (r, t)" by (rule hex4_escape [OF assms(2)])
  with assms(1) show ?thesis by (auto simp: literal_char_def u_escape_def u_rune_def)
qed

lemma encode_rune_ascii: "r < 128 \<Longrightarrow> encode_rune r = [char_of r]"
  by (simp add: encode_rune_def encode_valid_def valid_rune_def)

lemma encode_rune_hd:
  assumes "valid_rune r" and "128 \<le> r"
  shows "128 \<le> byte (hd (encode_rune r))"
proof -
  have "r div 64 < 64" if "r \<le> 0x7FF" using that by simp
  moreover have "r div 4096 < 32" if "r \<le> 0xFFFF" using that by simp
  moreover have "r div 262144 < 16" using assms(1) by (auto simp: valid_rune_def)
  ultimately show ?thesis using assms by (auto simp: encode_rune_def encode_valid_def)
qed

lemma literal_escape_rune:
  assumes "valid_rune r"
  shows "literal_char (escape_rune r @ t) = Some (encode_rune r, t) \<and> byte (hd (escape_rune r)) \<noteq> 34"
proof -
  consider (simple) "r \<in> {34, 92, 8, 12, 10, 13, 9}"
    | (u) "r \<notin> {34, 92, 8, 12, 10, 13, 9}" "r < 32 \<or> r \<in> {60, 62, 38, 0x2028, 0x2029}"
    | (raw) "escape_rune r = encode_rune r" "r \<noteq> 34" "r \<noteq> 92" "32 \<le> r"
    by (cases "r \<in> {34, 92, 8, 12, 10, 13, 9}"; cases "r < 32 \<or> r \<in> {60, 62, 38, 0x2028, 0x2029}")
      (auto simp: escape_rune_def)
  then show ?thesis
  proof cases
    case simple
    then show ?thesis
      by (auto simp: escape_rune_def literal_char_def simple_escape_def encode_rune_ascii)
  next
    case u
    then have "escape_rune r = u_escape r" by (auto simp: escape_rune_def)
    moreover have "literal_char (u_escape r @ t) = Some (encode_rune r, t)"
      by (rule literal_u_escape) (use u(2) in auto)
    ultimately show ?thesis by (simp add: u_escape_def)
  next
    case raw
    obtain c cs where c: "encode_rune r = c # cs" by (cases "encode_rune r") auto
    have b: "byte c = r \<or> 128 \<le> byte c"
      using encode_rune_hd [OF assms] encode_rune_ascii [of r] c by (cases "r < 128") auto
    have "decode_rune (c # cs @ t) = (r, length (encode_rune r))"
      using decode_encode_rune [OF assms, of t] c by simp
    then have "literal_char (c # cs @ t) = Some (encode_rune r, t)"
      using b raw(3,4) c by (auto simp: literal_char_def)
    with c raw b show ?thesis by auto
  qed
qed

lemma unquote_char:
  assumes "literal_char s = Some (b, t)" and "s \<noteq> []" and "byte (hd s) \<noteq> 34"
  shows "unquote s = map_option (\<lambda>(b', rest). (b @ b', rest)) (unquote t)"
  using assms by (subst unquote.simps) (auto split: list.splits)

lemma unquote_end: "unquote (CHR 0x22 # rest) = Some ([], rest)"
  by (subst unquote.simps) simp

lemma unquote_quote: "unquote (quote_body s @ CHR 0x22 # rest) = Some (to_valid s, rest)"
proof (induction s rule: quote_body.induct)
  case (1 s)
  show ?case
  proof (cases "s = []")
    case True
    then show ?thesis by (simp add: quote_body.simps to_valid_def unquote_end)
  next
    case False
    let ?r = "fst (decode_rune s)" and ?s = "drop (snd (decode_rune s)) s"
    let ?e = "if decode_rune s = (0xFFFD, 1) then u_escape 0xFFFD else escape_rune ?r"
    let ?t = "quote_body ?s @ CHR 0x22 # rest"
    have e: "literal_char (?e @ ?t) = Some (encode_rune ?r, ?t) \<and> byte (hd ?e) \<noteq> 34 \<and> ?e \<noteq> []"
    proof (cases "decode_rune s = (0xFFFD, 1)")
      case True
      have "literal_char (u_escape 0xFFFD @ ?t) = Some (encode_rune 0xFFFD, ?t)" by (rule literal_u_escape) simp_all
      with True show ?thesis by (simp add: u_escape_def)
    next
      case False
      have "escape_rune ?r \<noteq> []" by (simp add: escape_rune_def u_escape_def)
      with False literal_escape_rune [OF decode_rune_valid, of s ?t] show ?thesis by simp
    qed
    have "quote_body s @ CHR 0x22 # rest = ?e @ ?t"
      using False by (subst quote_body.simps) simp
    then have "unquote (quote_body s @ CHR 0x22 # rest) = unquote (?e @ ?t)" by simp
    also have "\<dots> = map_option (\<lambda>(b', rest). (encode_rune ?r @ b', rest)) (unquote ?t)"
      by (rule unquote_char) (use e in auto)
    also have "unquote ?t = Some (to_valid ?s, rest)" by (rule 1 [OF False])
    finally show ?thesis
      using False by (simp add: to_valid_def runes.simps [of s])
  qed
qed

section \<open>Values come back\<close>

text \<open>Trees with well-formed numbers and at most \<open>n\<close> levels, and what becomes of their strings.\<close>

fun fits :: "nat \<Rightarrow> json \<Rightarrow> bool" where
  "fits n (JNum l) \<longleftrightarrow> number_literal l"
| "fits n (JArr vs) \<longleftrightarrow> 0 < n \<and> (\<forall>v \<in> set vs. fits (n - 1) v)"
| "fits n (JObj ms) \<longleftrightarrow> 0 < n \<and> (\<forall>m \<in> set ms. fits (n - 1) (snd m))"
| "fits n v \<longleftrightarrow> True"

fun coerce :: "json \<Rightarrow> json" where
  "coerce (JStr s) = JStr (to_valid s)"
| "coerce (JArr vs) = JArr (map coerce vs)"
| "coerce (JObj ms) = JObj (map (\<lambda>m. (to_valid (fst m), coerce (snd m))) ms)"
| "coerce v = v"

lemma parse_null: "parse_value d (''null'' @ rest) = Some (JNull, rest)"
  and parse_true: "parse_value d (''true'' @ rest) = Some (JBool True, rest)"
  and parse_false: "parse_value d (''false'' @ rest) = Some (JBool False, rest)"
  by (simp_all add: parse_value.simps literal_def)

lemma parse_number:
  assumes "number_literal l" and "stops rest"
  shows "parse_value d (l @ rest) = Some (JNum l, rest)"
proof -
  obtain c cs where c: "l = c # cs" using assms(1) by (cases l) (auto simp: number_literal_def)
  have n: "number (c # cs @ rest) = Some (l, rest)" using assms c by (auto simp: number_literal_def)
  have "48 \<le> byte c \<and> byte c \<le> 57 \<or> byte c = 45" using assms(1) c by (auto simp: number_literal_def is_digit_def)
  then have "byte c \<notin> {9, 10, 13, 32, 34, 91, 102, 110, 116, 123}" by auto
  with c n show ?thesis by (simp add: parse_value.simps)
qed

lemma parse_string: "parse_value d (quote s @ rest) = Some (JStr (to_valid s), rest)"
  by (simp add: parse_value.simps quote_def unquote_quote)

text \<open>What a value can begin with.\<close>

definition opener :: "char \<Rightarrow> bool" where
  "opener c \<longleftrightarrow> byte c \<notin> {9, 10, 13, 32, 93, 125}"

lemma print_opener:
  assumes "fits n v"
  obtains c cs where "print v = c # cs" "opener c"
proof (cases v)
  case (JNum l)
  then show ?thesis using assms that by (cases l) (auto simp: number_literal_def is_digit_def opener_def)
next
  case (JBool b)
  then show ?thesis using that by (cases b) (auto simp: opener_def)
qed (use that in \<open>auto simp: quote_def opener_def split: if_splits\<close>)

lemma print_elems_opener:
  assumes "vs \<noteq> []" and "\<forall>v \<in> set vs. fits n v"
  obtains c cs where "print_elems vs = c # cs" "opener c"
proof -
  obtain v ws where vs: "vs = v # ws" using assms(1) by (cases vs) auto
  obtain c cs where "print v = c # cs" "opener c" using print_opener assms(2) vs by (metis list.set_intros(1))
  then show thesis using that vs by (cases ws) auto
qed

lemma print_members_opener:
  assumes "ms \<noteq> []"
  obtains cs where "print_members ms = CHR 0x22 # cs"
proof -
  obtain k v ns where ms: "ms = (k, v) # ns" using assms by (cases ms) auto
  then show thesis using that by (cases ns) (auto simp: quote_def)
qed

lemma skip_opener [simp]: "opener c \<Longrightarrow> skip_ws (c # cs) = c # cs"
  by (simp add: opener_def)

lemma stops_closers [simp]: "stops (CHR '','' # s)" "stops (CHR '']'' # s)" "stops (CHR ''}'' # s)" "stops []"
  by (simp_all add: stops_def is_digit_def)

text \<open>Arrays and objects, given their parts.\<close>

lemma parse_array:
  assumes "d < 10000" and "vs \<noteq> []" and "\<forall>v \<in> set vs. fits n v"
    and "parse_elems (Suc d) (print_elems vs @ CHR '']'' # rest) = Some (ws, rest)"
  shows "parse_value d (print (JArr vs) @ rest) = Some (JArr ws, rest)"
proof -
  obtain c cs where c: "print_elems vs = c # cs" "opener c" by (rule print_elems_opener [OF assms(2,3)])
  then have "byte c \<noteq> 93" by (simp add: opener_def)
  with assms(1,4) c show ?thesis by (simp add: parse_value.simps opener_def)
qed

lemma parse_object:
  assumes "d < 10000" and "ms \<noteq> []"
    and "parse_members (Suc d) (print_members ms @ CHR ''}'' # rest) = Some (ns, rest)"
  shows "parse_value d (print (JObj ms) @ rest) = Some (JObj ns, rest)"
proof -
  obtain cs where "print_members ms = CHR 0x22 # cs" by (rule print_members_opener [OF assms(2)])
  with assms(1,3) show ?thesis by (simp add: parse_value.simps)
qed

lemma parse_elem:
  assumes "parse_value d (s @ c # t) = Some (v, c # t)" and "byte c = 44 \<or> byte c = 93"
  shows "parse_elems d (s @ c # t) =
    (if byte c = 93 then Some ([v], t) else map_option (\<lambda>(vs, rest). (v # vs, rest)) (parse_elems d t))"
  using assms by (subst parse_elems.simps) auto

lemma parse_member:
  assumes "parse_value d (s @ c # t) = Some (v, c # t)" and "byte c = 44 \<or> byte c = 125"
  shows "parse_members d (quote k @ CHR '':'' # s @ c # t) =
    (if byte c = 125 then Some ([(to_valid k, v)], t)
     else map_option (\<lambda>(ms, rest). ((to_valid k, v) # ms, rest)) (parse_members d t))"
  using assms by (subst parse_members.simps) (auto simp: quote_def unquote_quote)

lemma parse_print:
  "(\<And>d rest. fits (10000 - d) v \<Longrightarrow> stops rest \<Longrightarrow> parse_value d (print v @ rest) = Some (coerce v, rest))"
  "(\<And>d rest. vs \<noteq> [] \<Longrightarrow> \<forall>v \<in> set vs. fits (10000 - d) v \<Longrightarrow>
     parse_elems d (print_elems vs @ CHR '']'' # rest) = Some (map coerce vs, rest))"
  "(\<And>d rest. ms \<noteq> [] \<Longrightarrow> \<forall>m \<in> set ms. fits (10000 - d) (snd m) \<Longrightarrow>
     parse_members d (print_members ms @ CHR ''}'' # rest) = Some (map (\<lambda>m. (to_valid (fst m), coerce (snd m))) ms, rest))"
proof (induction v and vs and ms rule: print_print_elems_print_members.induct)
  case (5 vs)
  show ?case
  proof (cases "vs = []")
    case True
    with 5 show ?thesis by (simp add: parse_value.simps)
  next
    case False
    with 5 show ?thesis by (subst coerce.simps, intro parse_array) auto
  qed
next
  case (6 ms)
  show ?case
  proof (cases "ms = []")
    case True
    with 6 show ?thesis by (simp add: parse_value.simps)
  next
    case False
    with 6 show ?thesis by (subst coerce.simps, intro parse_object) auto
  qed
next
  case (8 v)
  then show ?case using parse_elem [of d "print v" "CHR '']''" rest "coerce v"] by simp
next
  case (9 v w vs)
  then show ?case
    using parse_elem [of d "print v" "CHR '',''" "print_elems (w # vs) @ CHR '']'' # rest" "coerce v"] by simp
next
  case (11 k v)
  then show ?case using parse_member [of d "print v" "CHR ''}''" rest "coerce v" k] by simp
next
  case (12 k v m ms)
  then show ?case
    using parse_member [of d "print v" "CHR '',''" "print_members (m # ms) @ CHR ''}'' # rest" "coerce v" k] by simp
qed (simp_all add: parse_null [simplified] parse_true [simplified] parse_false [simplified] parse_number parse_string)

text \<open>\<^verbatim>\<open>Unmarshal\<close> reads back what \<^verbatim>\<open>Marshal\<close> wrote, with the strings made valid UTF-8.\<close>

lemma parse_print_coerce: "fits 10000 v \<Longrightarrow> parse_json (print v) = Some (coerce v)"
  using parse_print(1) [of 0 v "[]"] by (simp add: parse_json_def)

section \<open>Plain text\<close>

text \<open>Printable ASCII that needs no escape is written as it is.\<close>

definition plain :: "char \<Rightarrow> bool" where
  "plain c \<longleftrightarrow> 32 \<le> byte c \<and> byte c < 128 \<and> byte c \<notin> {34, 38, 60, 62, 92}"

lemma quote_body_plain: "list_all plain s \<Longrightarrow> quote_body s = s"
proof (induction s)
  case (Cons c s)
  then have "decode_rune (c # s) = (byte c, 1)" by (simp add: decode_1 plain_def)
  moreover have "escape_rune (byte c) = [c]" using Cons.prems by (auto simp: escape_rune_def plain_def encode_rune_ascii)
  ultimately show ?case using Cons by (subst quote_body.simps) (auto simp: plain_def)
qed (simp add: quote_body.simps)

lemma quote_plain: "list_all plain s \<Longrightarrow> quote s = CHR 0x22 # s @ [CHR 0x22]"
  by (simp add: quote_def quote_body_plain)

lemma length_show_nat: "n < 10 ^ Suc k \<Longrightarrow> length (show_nat n) \<le> Suc k"
proof (induction k arbitrary: n)
  case 0
  then show ?case by (simp add: show_nat.simps)
next
  case (Suc k)
  then have "length (show_nat (n div 10)) \<le> Suc k" by (intro Suc.IH) (simp add: less_mult_imp_div_less)
  then show ?case by (subst show_nat.simps) simp
qed

lemma length_show_uint: "n < 2 ^ 64 \<Longrightarrow> length (show_nat n) \<le> 20"
  using length_show_nat [of n 19] by simp

section \<open>Parsed strings are UTF-8\<close>

lemma encode_rune_runes: "\<exists>rs. list_all valid_rune rs \<and> encode_rune r = encode_runes rs"
proof -
  have "encode_rune r = encode_runes [if valid_rune r then r else 0xFFFD]"
    by (simp add: encode_rune_def valid_rune_def)
  moreover have "list_all valid_rune [if valid_rune r then r else 0xFFFD]" by (simp add: valid_rune_def)
  ultimately show ?thesis by blast
qed

lemma valid_utf8_encode_rune: "valid_utf8 (encode_rune r)"
  using encode_rune_runes [of r] valid_utf8_encode_runes by metis

lemma valid_utf8_append:
  assumes "valid_utf8 s" and "valid_utf8 t"
  shows "valid_utf8 (s @ t)"
proof -
  have "s @ t = encode_runes (runes s @ runes t)"
    using assms by (simp add: valid_utf8_def encode_runes_def)
  moreover have "list_all valid_rune (runes s @ runes t)" by (simp add: runes_valid)
  ultimately show ?thesis using valid_utf8_encode_runes [of "runes s @ runes t"] by simp
qed

lemma valid_utf8_byte: "byte c < 128 \<Longrightarrow> valid_utf8 [c]"
  using valid_utf8_encode_rune [of "byte c"] by (simp add: encode_rune_ascii)

lemma u_rune_valid: "u_rune r s = (b, t) \<Longrightarrow> valid_utf8 b"
  by (auto simp: u_rune_def valid_utf8_encode_rune split: if_splits option.splits)

lemma simple_escape_valid: "simple_escape c = Some b \<Longrightarrow> valid_utf8 b"
  by (auto simp: simple_escape_def split: if_splits intro!: valid_utf8_byte)

lemma literal_char_valid: "literal_char s = Some (b, t) \<Longrightarrow> valid_utf8 b"
  by (auto simp: literal_char_def valid_utf8_encode_rune simple_escape_valid split: list.splits if_splits
      dest: u_rune_valid)

lemma unquote_valid: "unquote s = Some (b, t) \<Longrightarrow> valid_utf8 b"
proof (induction s arbitrary: b t rule: unquote.induct)
  case (1 s)
  have "valid_utf8 []" by (simp add: valid_utf8_def)
  with "1.IH" "1.prems" [unfolded unquote.simps [of s]] show ?case
    by (fastforce split: list.splits if_splits option.splits dest: literal_char_valid intro: valid_utf8_append)
qed

fun utf8_tree :: "json \<Rightarrow> bool" where
  "utf8_tree (JStr s) \<longleftrightarrow> valid_utf8 s"
| "utf8_tree (JArr vs) \<longleftrightarrow> (\<forall>v \<in> set vs. utf8_tree v)"
| "utf8_tree (JObj ms) \<longleftrightarrow> (\<forall>m \<in> set ms. utf8_tree (snd m))"
| "utf8_tree v \<longleftrightarrow> True"

lemma literal_value: "literal w v s = Some (u, r) \<Longrightarrow> u = v"
  by (auto simp: literal_def split: if_splits)

lemma parse_utf8:
  "parse_value d s = Some (v, r) \<Longrightarrow> utf8_tree v"
  "parse_elems d s = Some (vs, r) \<Longrightarrow> \<forall>v \<in> set vs. utf8_tree v"
  "parse_members d s = Some (ms, r) \<Longrightarrow> \<forall>m \<in> set ms. utf8_tree (snd m)"
proof (induction d s and d s and d s arbitrary: v r and vs r and ms r rule: parse_value_parse_elems_parse_members.induct)
  case (1 d s0)
  note prem = "1.prems" [unfolded parse_value.simps [of d s0]]
  then obtain c cs where cs: "skip_ws s0 = c # cs" by (cases "skip_ws s0") auto
  show ?case
    using prem [unfolded cs] "1.IH" [OF cs]
    by (auto split: list.splits if_splits dest: unquote_valid literal_value)
next
  case (2 d s)
  note prem = "2.prems" [unfolded parse_elems.simps [of d s]]
  then obtain v r1 c cs where v: "parse_value d s = Some (v, r1)" "skip_ws r1 = c # cs"
    by (auto split: list.splits option.splits)
  with "2.IH" prem show ?case by (fastforce split: if_splits)
next
  case (3 d s)
  note prem = "3.prems" [unfolded parse_members.simps [of d s]]
  then obtain q qs k r1 where q: "skip_ws s = q # qs" "byte q = 34" "unquote qs = Some (k, r1)"
    by (auto split: list.splits if_splits option.splits)
  with prem obtain c cs where c: "skip_ws r1 = c # cs" "byte c = 58 \<and> length cs < length s"
    by (auto split: list.splits if_splits)
  with prem q obtain v r2 where v: "parse_value d cs = Some (v, r2)" by (auto split: option.splits)
  with prem q c obtain e es where e: "skip_ws r2 = e # es" by (auto split: list.splits)
  have "utf8_tree v" by (rule "3.IH"(1) [OF q(1) _ q(3) _ c v]) (use q(2) in auto)
  moreover have "\<forall>m \<in> set ms'. utf8_tree (snd m)"
    if "byte e \<noteq> 125" "byte e = 44" "length es < length s" "parse_members d es = Some (ms', r)" for ms'
    using "3.IH"(2) [OF q(1) _ q(3) _ c v _ e] that q(2) by fastforce
  ultimately show ?case using prem q c v e by (fastforce split: if_splits)
qed

lemma parse_json_utf8: "parse_json s = Some v \<Longrightarrow> utf8_tree v"
  by (auto simp: parse_json_def split: option.splits if_splits dest: parse_utf8)

end
