(* ===== verification/Go_Decode.thy ===== *)
theory Go_Decode
  imports Go_JSON
begin

text \<open>
  Decoding a JSON tree into Go variables, as \<^verbatim>\<open>json.Unmarshal\<close> does it by reflection, and the
  base64 text of a \<^verbatim>\<open>[]byte\<close>. A decoder gets the tree and the old value of the variable; it gives
  the new value and whether every part had the right type. After a type error the rest of the tree is
  still decoded.
\<close>

type_synonym 'a decoder = "json \<Rightarrow> 'a \<Rightarrow> 'a \<times> bool"

section \<open>Base64\<close>

definition b64_char :: "nat \<Rightarrow> char" where
  "b64_char n =
     (if n < 26 then char_of (65 + n) else if n < 52 then char_of (71 + n) else if n < 62 then char_of (n - 4)
      else if n = 62 then CHR ''+'' else CHR ''/'')"

definition b64_val :: "char \<Rightarrow> nat option" where
  "b64_val c =
     (if 65 \<le> byte c \<and> byte c \<le> 90 then Some (byte c - 65)
      else if 97 \<le> byte c \<and> byte c \<le> 122 then Some (byte c - 71)
      else if 48 \<le> byte c \<and> byte c \<le> 57 then Some (byte c + 4)
      else if byte c = 43 then Some 62 else if byte c = 47 then Some 63 else None)"

fun b64_encode :: "string \<Rightarrow> string" where
  "b64_encode [] = []"
| "b64_encode [a] = [b64_char (byte a div 4), b64_char (byte a mod 4 * 16), CHR ''='', CHR ''='']"
| "b64_encode [a, b] =
     [b64_char (byte a div 4), b64_char (byte a mod 4 * 16 + byte b div 16), b64_char (byte b mod 16 * 4), CHR ''='']"
| "b64_encode (a # b # c # s) =
     b64_char (byte a div 4) # b64_char (byte a mod 4 * 16 + byte b div 16) #
     b64_char (byte b mod 16 * 4 + byte c div 64) # b64_char (byte c mod 64) # b64_encode s"

text \<open>Groups of four characters; the last may be padded. Line ends are ignored.\<close>

definition b64_pair :: "char \<Rightarrow> char \<Rightarrow> char option" where
  "b64_pair w x =
     (case (b64_val w, b64_val x) of (Some m, Some n) \<Rightarrow> Some (char_of (m * 4 + n div 16)) | _ \<Rightarrow> None)"

definition b64_triple :: "char \<Rightarrow> char \<Rightarrow> char \<Rightarrow> string option" where
  "b64_triple w x y =
     (case (b64_pair w x, b64_val x, b64_val y) of
        (Some a, Some n, Some p) \<Rightarrow> Some [a, char_of (n mod 16 * 16 + p div 4)] | _ \<Rightarrow> None)"

definition b64_quad :: "char \<Rightarrow> char \<Rightarrow> char \<Rightarrow> char \<Rightarrow> string option" where
  "b64_quad w x y z =
     (case (b64_triple w x y, b64_val y, b64_val z) of
        (Some ab, Some p, Some q) \<Rightarrow> Some (ab @ [char_of (p mod 4 * 64 + q)]) | _ \<Rightarrow> None)"

fun b64_groups :: "string \<Rightarrow> string option" where
  "b64_groups [] = Some []"
| "b64_groups (w # x # y # z # s) =
     (if s = [] \<and> byte y = 61 \<and> byte z = 61 then map_option (\<lambda>a. [a]) (b64_pair w x)
      else if s = [] \<and> byte z = 61 then b64_triple w x y
      else case b64_quad w x y z of None \<Rightarrow> None | Some abc \<Rightarrow> map_option (\<lambda>t. abc @ t) (b64_groups s))"
| "b64_groups s = None"

definition b64_decode :: "string \<Rightarrow> string option" where
  "b64_decode s = b64_groups (filter (\<lambda>c. byte c \<noteq> 10 \<and> byte c \<noteq> 13) s)"

section \<open>Decoders\<close>

definition dec_string :: "string decoder" where
  "dec_string v old = (case v of JNull \<Rightarrow> (old, True) | JStr s \<Rightarrow> (s, True) | _ \<Rightarrow> (old, False))"

definition dec_bool :: "bool decoder" where
  "dec_bool v old = (case v of JNull \<Rightarrow> (old, True) | JBool b \<Rightarrow> (b, True) | _ \<Rightarrow> (old, False))"

definition dec_num :: "(string \<Rightarrow> 'a option) \<Rightarrow> 'a decoder" where
  "dec_num conv v old =
     (case v of
        JNull \<Rightarrow> (old, True)
      | JNum l \<Rightarrow> (case conv l of None \<Rightarrow> (old, False) | Some n \<Rightarrow> (n, True))
      | _ \<Rightarrow> (old, False))"

abbreviation dec_int :: "int decoder" where
  "dec_int \<equiv> dec_num ParseInt"

abbreviation dec_uint :: "nat decoder" where
  "dec_uint \<equiv> dec_num ParseUint"

text \<open>A slice: elements that are already there are decoded into, the others start from zero.\<close>

fun dec_elems :: "'a decoder \<Rightarrow> 'a \<Rightarrow> json list \<Rightarrow> 'a list \<Rightarrow> 'a list \<times> bool" where
  "dec_elems dec zero [] old = ([], True)"
| "dec_elems dec zero (v # vs) old =
     (let (x, ok) = dec v (case old of [] \<Rightarrow> zero | y # ys \<Rightarrow> y);
          (xs, oks) = dec_elems dec zero vs (tl old)
      in (x # xs, ok \<and> oks))"

definition dec_slice :: "'a decoder \<Rightarrow> 'a \<Rightarrow> 'a list decoder" where
  "dec_slice dec zero v old =
     (case v of JNull \<Rightarrow> ([], True) | JArr vs \<Rightarrow> dec_elems dec zero vs old | _ \<Rightarrow> (old, False))"

definition ParseByte :: "string \<Rightarrow> char option" where
  "ParseByte l = (case ParseUint l of None \<Rightarrow> None | Some n \<Rightarrow> if n < 256 then Some (char_of n) else None)"

definition dec_bytes :: "string decoder" where
  "dec_bytes v old =
     (case v of
        JStr s \<Rightarrow> (case b64_decode s of None \<Rightarrow> (old, False) | Some b \<Rightarrow> (b, True))
      | _ \<Rightarrow> dec_slice (dec_num ParseByte) (char_of (0 :: nat)) v old)"

text \<open>
  A struct: a key names a field exactly or else up to case (\<^verbatim>\<open>foldName\<close>, where the long s and
  the Kelvin sign are an S and a K); other keys are ignored.
\<close>

definition fold_rune :: "nat \<Rightarrow> nat" where
  "fold_rune r = (if 97 \<le> r \<and> r \<le> 122 then r - 32 else if r = 0x17F then 83 else if r = 0x212A then 75 else r)"

definition fold_name :: "string \<Rightarrow> nat list" where
  "fold_name k = map fold_rune (runes k)"

definition field :: "string list \<Rightarrow> string \<Rightarrow> string option" where
  "field names k = (if k \<in> set names then Some k else find (\<lambda>n. fold_name n = fold_name k) names)"

fun dec_members :: "string list \<Rightarrow> (string \<Rightarrow> 'a decoder) \<Rightarrow> (string \<times> json) list \<Rightarrow> 'a \<Rightarrow> 'a \<times> bool" where
  "dec_members names dec [] x = (x, True)"
| "dec_members names dec ((k, v) # ms) x =
     (case field names k of
        None \<Rightarrow> dec_members names dec ms x
      | Some n \<Rightarrow> let (x1, ok) = dec n v x; (x2, oks) = dec_members names dec ms x1 in (x2, ok \<and> oks))"

definition dec_struct :: "string list \<Rightarrow> (string \<Rightarrow> 'a decoder) \<Rightarrow> 'a decoder" where
  "dec_struct names dec v old =
     (case v of JNull \<Rightarrow> (old, True) | JObj ms \<Rightarrow> dec_members names dec ms old | _ \<Rightarrow> (old, False))"

text \<open>A field of a struct, by its reading and writing.\<close>

definition into :: "'b decoder \<Rightarrow> 'b \<Rightarrow> ('b \<Rightarrow> 'a) \<Rightarrow> json \<Rightarrow> 'a \<times> bool" where
  "into dec old upd v = (let (y, ok) = dec v old in (upd y, ok))"

text \<open>\<^verbatim>\<open>json.Unmarshal(data, &x)\<close>: the variable afterwards, and whether the error is \<^verbatim>\<open>nil\<close>.\<close>

definition Unmarshal :: "'a decoder \<Rightarrow> string \<Rightarrow> 'a \<Rightarrow> 'a \<times> bool" where
  "Unmarshal dec data old = (case parse_json data of None \<Rightarrow> (old, False) | Some v \<Rightarrow> dec v old)"

definition decoded :: "'a \<times> bool \<Rightarrow> 'a option" where
  "decoded r = (if snd r then Some (fst r) else None)"

section \<open>Lemmas\<close>

lemma byte_less: "byte c < 256"
  by simp

lemma byte_div: "byte b div 16 < 16" "byte b div 64 < 4"
  by (rule less_mult_imp_div_less; use byte_less [of b] in linarith)+

lemma b64_char_byte:
  assumes "n < 64"
  shows "byte (b64_char n) = (if n < 26 then 65 + n else if n < 52 then 71 + n else if n < 62 then n - 4
    else if n = 62 then 43 else 47)"
  using assms by (simp add: b64_char_def)

lemma b64_val_char: "n < 64 \<Longrightarrow> b64_val (b64_char n) = Some n"
  unfolding b64_val_def b64_char_byte by auto

lemma b64_char_plain: "n < 64 \<Longrightarrow> byte (b64_char n) \<notin> {10, 13, 61}"
  unfolding b64_char_byte by auto

lemma byte_parts:
  "byte a div 4 < 64" "byte a mod 4 * 16 < 64" "byte a mod 4 * 16 + byte b div 16 < 64" "byte b mod 16 * 4 < 64"
  "byte b mod 16 * 4 + byte c div 64 < 64" "byte c mod 64 < 64"
  using byte_less [of a] byte_less [of b] byte_less [of c]
    mod_less_divisor [of 4 "byte a"] mod_less_divisor [of 16 "byte b"] by linarith+

lemma b64_byte_1: "char_of (byte a div 4 * 4 + (byte a mod 4 * 16 + x) div 16) = a" if "x < 16"
proof -
  have "(byte a mod 4 * 16 + x) div 16 = byte a mod 4" using that by simp
  then show ?thesis by simp
qed

lemma b64_byte_2: "char_of ((x * 16 + byte b div 16) mod 16 * 16 + (byte b mod 16 * 4 + y) div 4) = b" if "y < 4"
proof -
  have "(byte b mod 16 * 4 + y) div 4 = byte b mod 16" using that by simp
  moreover have "(x * 16 + byte b div 16) mod 16 = byte b div 16" using byte_div(1) [of b] by simp
  ultimately show ?thesis by simp
qed

lemma b64_byte_3: "char_of ((x * 4 + byte c div 64) mod 4 * 64 + byte c mod 64) = c"
proof -
  have "(x * 4 + byte c div 64) mod 4 = byte c div 64" using byte_div(2) [of c] by simp
  then show ?thesis by simp
qed

lemma b64_groups_encode: "b64_groups (b64_encode s) = Some s"
proof (induction s rule: b64_encode.induct)
  case (2 a)
  show ?case using b64_byte_1 [of 0 a] by (simp add: b64_pair_def b64_val_char byte_parts)
next
  case (3 a b)
  note d = byte_div(1) [of b]
  have "byte (b64_char (byte b mod 16 * 4)) \<noteq> 61" using b64_char_plain [OF byte_parts(4)] by auto
  then show ?case using b64_byte_1 [OF d, of a] b64_byte_2 [of 0 "byte a mod 4" b]
    by (simp add: b64_pair_def b64_triple_def b64_val_char byte_parts)
next
  case (4 a b c s)
  note d = byte_div(1) [of b] byte_div(2) [of c]
  have "byte (b64_char (byte c mod 64)) \<noteq> 61" using b64_char_plain [OF byte_parts(6)] by auto
  with 4 show ?case
    using b64_byte_1 [OF d(1), of a] b64_byte_2 [OF d(2), of "byte a mod 4" b] b64_byte_3 [of "byte b mod 16" c]
    by (simp add: b64_pair_def b64_triple_def b64_quad_def b64_val_char byte_parts)
qed simp

lemma b64_encode_plain: "filter (\<lambda>c. byte c \<noteq> 10 \<and> byte c \<noteq> 13) (b64_encode s) = b64_encode s"
proof -
  have p: "byte (b64_char n) \<noteq> 10" "byte (b64_char n) \<noteq> 13" if "n < 64" for n
    using b64_char_plain [OF that] by auto
  show ?thesis by (induction s rule: b64_encode.induct) (simp_all add: p byte_parts)
qed

lemma b64_roundtrip: "b64_decode (b64_encode s) = Some s"
  by (simp add: b64_decode_def b64_encode_plain b64_groups_encode)

text \<open>Base64 text is ASCII.\<close>

lemma ascii_valid_utf8: "\<forall>c \<in> set s. byte c < 128 \<Longrightarrow> valid_utf8 s"
proof -
  assume "\<forall>c \<in> set s. byte c < 128"
  then have "encode_runes (map byte s) = s \<and> list_all valid_rune (map byte s)"
    by (induction s) (auto simp: encode_rune_ascii valid_rune_def)
  then show ?thesis using valid_utf8_encode_runes [of "map byte s"] by simp
qed

lemma b64_valid_utf8: "valid_utf8 (b64_encode s)"
proof (rule ascii_valid_utf8)
  have "byte (b64_char n) < 128" if "n < 64" for n
    unfolding b64_char_byte [OF that] using that by auto
  then show "\<forall>c \<in> set (b64_encode s). byte c < 128"
    by (induction s rule: b64_encode.induct) (simp_all add: byte_parts)
qed

text \<open>Decoders give back what was written.\<close>

named_theorems json_decode \<open>what a decoder makes of a tree\<close>

lemma dec_basic [json_decode]:
  "dec_string (JStr s) old = (s, True)" "dec_bool (JBool b) oldb = (b, True)"
  "in_int64 i \<Longrightarrow> dec_int (JNum (show_int i)) oldi = (i, True)"
  "n < 2 ^ 64 \<Longrightarrow> dec_uint (JNum (show_nat n)) oldn = (n, True)"
  "dec_bytes (JStr (b64_encode d)) old = (d, True)" "dec_bytes JNull old = ([], True)"
  by (simp_all add: dec_string_def dec_bool_def dec_num_def ParseInt_show ParseUint_show dec_bytes_def b64_roundtrip
      dec_slice_def)

lemma dec_elems_map:
  "(\<And>x. x \<in> set xs \<Longrightarrow> dec (enc x) zero = (x, True)) \<Longrightarrow> dec_elems dec zero (map enc xs) [] = (xs, True)"
  by (induction xs) auto

lemma dec_slice_map [json_decode]:
  assumes "\<And>x. x \<in> set xs \<Longrightarrow> dec (enc x) zero = (x, True)"
  shows "dec_slice dec zero (JArr (map enc xs)) [] = (xs, True)" "dec_slice dec zero JNull old = ([], True)"
  using dec_elems_map [of xs dec enc zero] assms by (simp_all add: dec_slice_def)

lemma field_exact [json_decode]: "k \<in> set names \<Longrightarrow> field names k = Some k"
  by (simp add: field_def)

lemma Unmarshal_print: "fits 10000 v \<Longrightarrow> Unmarshal dec (print v) old = dec (coerce v) old"
  by (simp add: Unmarshal_def parse_print_coerce)

lemma fits_mono: "fits m v \<Longrightarrow> m \<le> n \<Longrightarrow> fits n v"
proof (induction n v arbitrary: m rule: fits.induct)
  case (2 n vs)
  then show ?case by (metis diff_le_mono fits.simps(2) le_0_eq not_gr_zero)
next
  case (3 n ms)
  then show ?case by (metis diff_le_mono fits.simps(3) le_0_eq not_gr_zero)
qed auto

section \<open>What every decoded value satisfies\<close>

text \<open>A decoder that keeps a property when the strings of the tree are valid UTF-8, as after parsing.\<close>

definition keeps :: "('a \<Rightarrow> bool) \<Rightarrow> 'a decoder \<Rightarrow> bool" where
  "keeps P dec \<longleftrightarrow> (\<forall>v old. utf8_tree v \<longrightarrow> P old \<longrightarrow> P (fst (dec v old)))"

lemma ParseInt_range: "ParseInt l = Some n \<Longrightarrow> in_int64 n"
  by (auto simp: ParseInt_def in_int64_def split: list.splits if_splits option.splits)

lemma keeps_string: "keeps valid_utf8 dec_string"
  by (auto simp: keeps_def dec_string_def split: json.splits)

lemma keeps_int: "keeps in_int64 dec_int"
  by (auto simp: keeps_def dec_num_def split: json.splits option.splits dest: ParseInt_range)

lemma keeps_elems:
  assumes "keeps P dec" and "P zero"
  shows "\<forall>v \<in> set vs. utf8_tree v \<Longrightarrow> list_all P old \<Longrightarrow> list_all P (fst (dec_elems dec zero vs old))"
proof (induction vs arbitrary: old)
  case (Cons v vs)
  have "P (case old of [] \<Rightarrow> zero | y # ys \<Rightarrow> y)" "list_all P (tl old)"
    using Cons.prems(2) assms(2) by (cases old; simp)+
  with Cons assms(1) show ?case by (auto simp: keeps_def case_prod_unfold Let_def)
qed simp

lemma keeps_slice: "keeps P dec \<Longrightarrow> P zero \<Longrightarrow> keeps (list_all P) (dec_slice dec zero)"
  by (auto simp: keeps_def dec_slice_def keeps_elems split: json.splits)

lemma keeps_members:
  assumes "\<And>n. n \<in> set names \<Longrightarrow> keeps P (dec n)"
  shows "\<forall>m \<in> set ms. utf8_tree (snd m) \<Longrightarrow> P x \<Longrightarrow> P (fst (dec_members names dec ms x))"
proof (induction ms arbitrary: x)
  case (Cons m ms)
  obtain k v where m: "m = (k, v)" by (cases m)
  have "P (fst (dec n v x))" if "field names k = Some n" for n
  proof -
    from that have "n \<in> set names" by (auto simp: field_def find_Some_iff split: if_splits)
    with assms [of n] Cons.prems show ?thesis by (simp add: keeps_def m)
  qed
  with Cons show ?case by (auto simp: m case_prod_unfold Let_def split: option.splits)
qed simp

lemma keeps_struct: "(\<And>n. n \<in> set names \<Longrightarrow> keeps P (dec n)) \<Longrightarrow> keeps P (dec_struct names dec)"
  by (auto simp: keeps_def dec_struct_def keeps_members [unfolded keeps_def] split: json.splits)

lemma keeps_into:
  assumes "keeps Q dec" and "\<And>x. P x \<Longrightarrow> Q (get x)" and "\<And>x y. P x \<Longrightarrow> Q y \<Longrightarrow> P (upd x y)"
  shows "keeps P (\<lambda>v x. into dec (get x) (upd x) v)"
  using assms by (auto simp: keeps_def into_def case_prod_unfold Let_def)

lemma keeps_if: "keeps P a \<Longrightarrow> keeps P b \<Longrightarrow> keeps P (\<lambda>v x. if c then a v x else b v x)"
  by (simp add: keeps_def)

lemmas keeps_field = keeps_into [OF keeps_string] keeps_into [OF keeps_int]

lemma Unmarshal_keeps: "keeps P dec \<Longrightarrow> P old \<Longrightarrow> P (fst (Unmarshal dec data old))"
  by (auto simp: Unmarshal_def keeps_def split: option.splits dest: parse_json_utf8)

end
