(* ===== verification/Raft_Transport.thy ===== *)
theory Raft_Transport
  imports Raft_Replication
begin

text \<open>
  The TCP transport of package \<^verbatim>\<open>raft\<close>: \<^verbatim>\<open>transport.go\<close>.

  A TCP connection is, seen from one end, the bytes that can still be read before the peer closes
  or the deadline passes, the bytes written so far, and whether writing succeeds. The
  parameter \<open>codec\<close> writes and reads messages; \<^verbatim>\<open>Wire_Raft\<close> has the one of \<^verbatim>\<open>encoding/json\<close>. The Raft node behind \<^verbatim>\<open>rpcCh\<close> is the parameter
  \<open>serve\<close>: it answers an RPC, or does not within the ten seconds the transport waits.
\<close>

section \<open>Wire format (transport.go)\<close>

definition msgAppendEntriesReq :: nat where "msgAppendEntriesReq = 0"
definition msgAppendEntriesResp :: nat where "msgAppendEntriesResp = 1"
definition msgRequestVoteReq :: nat where "msgRequestVoteReq = 2"
definition msgRequestVoteResp :: nat where "msgRequestVoteResp = 3"

text \<open>\<^verbatim>\<open>10*1024*1024\<close>\<close>

definition max_payload :: nat where
  "max_payload = 10485760"

record Conn =
  rx :: string
  tx :: string
  write_ok :: bool

record Codec =
  enc_AppendEntries :: "AppendEntriesRequest \<Rightarrow> string option"
  dec_AppendEntries :: "string \<Rightarrow> AppendEntriesRequest option"
  enc_RequestVote :: "RequestVoteRequest \<Rightarrow> string option"
  dec_RequestVote :: "string \<Rightarrow> RequestVoteRequest option"
  enc_Response :: "RPCResponse \<Rightarrow> string option"
  dec_AppendEntriesResponse :: "string \<Rightarrow> AppendEntriesResponse option"
  dec_RequestVoteResponse :: "string \<Rightarrow> RequestVoteResponse option"

datatype transport_error =
    DialFailed
  | MarshalFailed
  | WriteFailed
  | ReadHeaderFailed
  | UnexpectedType nat nat
  | PayloadTooLarge nat
  | ReadPayloadFailed
  | UnmarshalFailed

text \<open>\<^verbatim>\<open>io.ReadFull\<close>: the bytes, or an error once what there is has been read.\<close>

definition read_full :: "nat \<Rightarrow> Conn \<Rightarrow> Conn \<times> string option" where
  "read_full n conn =
     (if n \<le> length (rx conn) then (conn\<lparr>rx := drop n (rx conn)\<rparr>, Some (take n (rx conn)))
      else (conn\<lparr>rx := []\<rparr>, None))"

text \<open>\<^verbatim>\<open>sendMessage\<close>; \<open>body\<close> is what \<^verbatim>\<open>json.Marshal\<close> returns for the payload.\<close>

definition frame :: "nat \<Rightarrow> string \<Rightarrow> string" where
  "frame msgType body = char_of msgType # be_bytes 4 (length body mod 2 ^ 32) @ body"

definition sendMessage :: "Conn \<Rightarrow> nat \<Rightarrow> string option \<Rightarrow> Conn \<times> transport_error option" where
  "sendMessage conn msgType marshalled =
     (case marshalled of
        None \<Rightarrow> (conn, Some MarshalFailed)
      | Some body \<Rightarrow>
          if write_ok conn then (conn\<lparr>tx := tx conn @ frame msgType body\<rparr>, None)
          else (conn, Some WriteFailed))"

definition readMessage ::
    "Conn \<Rightarrow> nat \<Rightarrow> (string \<Rightarrow> 'm option) \<Rightarrow> Conn \<times> (transport_error + 'm)" where
  "readMessage conn expectedType unmarshal =
     (case read_full 5 conn of
        (conn1, None) \<Rightarrow> (conn1, Inl ReadHeaderFailed)
      | (conn1, Some header) \<Rightarrow>
          let msgType = of_char (header ! 0);
              payloadLen = be_value (take 4 (drop 1 header))
          in if msgType \<noteq> expectedType then (conn1, Inl (UnexpectedType expectedType msgType))
             else if payloadLen > max_payload then (conn1, Inl (PayloadTooLarge payloadLen))
             else (case read_full payloadLen conn1 of
                     (conn2, None) \<Rightarrow> (conn2, Inl ReadPayloadFailed)
                   | (conn2, Some payload) \<Rightarrow>
                       (case unmarshal payload of
                          None \<Rightarrow> (conn2, Inl UnmarshalFailed)
                        | Some m \<Rightarrow> (conn2, Inr m))))"

section \<open>Incoming connections\<close>

text \<open>One RPC that was read: it is handed to the node and the answer is written back.\<close>

definition answer_rpc ::
    "Codec \<Rightarrow> ('n \<Rightarrow> RPC \<Rightarrow> 'n \<times> RPCResponse option) \<Rightarrow> Conn \<Rightarrow> 'n \<Rightarrow> nat \<Rightarrow> RPC \<Rightarrow> Conn \<times> 'n \<times> bool" where
  "answer_rpc codec serve conn node respType rpc =
     (case serve node rpc of
        (node', None) \<Rightarrow> (conn, node', False)
      | (node', Some resp) \<Rightarrow>
          (case sendMessage conn respType (enc_Response codec resp) of
             (conn', Some err) \<Rightarrow> (conn', node', False)
           | (conn', None) \<Rightarrow> (conn', node', True)))"

text \<open>
  One iteration of the loop of \<^verbatim>\<open>handleConnection\<close>: the connection, the node, and whether the
  loop goes on.
\<close>

definition handle_frame ::
    "Codec \<Rightarrow> ('n \<Rightarrow> RPC \<Rightarrow> 'n \<times> RPCResponse option) \<Rightarrow> Conn \<Rightarrow> 'n \<Rightarrow> Conn \<times> 'n \<times> bool" where
  "handle_frame codec serve conn node =
     (case read_full 5 conn of
        (conn1, None) \<Rightarrow> (conn1, node, False)
      | (conn1, Some header) \<Rightarrow>
          let msgType = of_char (header ! 0);
              payloadLen = be_value (take 4 (drop 1 header))
          in if payloadLen > max_payload then (conn1, node, False)
             else (case read_full payloadLen conn1 of
                     (conn2, None) \<Rightarrow> (conn2, node, False)
                   | (conn2, Some payload) \<Rightarrow>
                       if msgType = msgAppendEntriesReq then
                         (case dec_AppendEntries codec payload of
                            None \<Rightarrow> (conn2, node, False)
                          | Some req \<Rightarrow>
                              answer_rpc codec serve conn2 node msgAppendEntriesResp (AppendEntriesRPC req))
                       else if msgType = msgRequestVoteReq then
                         (case dec_RequestVote codec payload of
                            None \<Rightarrow> (conn2, node, False)
                          | Some req \<Rightarrow>
                              answer_rpc codec serve conn2 node msgRequestVoteResp (RequestVoteRPC req))
                       else (conn2, node, False)))"

lemma rx_answer_rpc: "answer_rpc codec serve conn node ty rpc = (conn', node', go) \<Longrightarrow> rx conn' = rx conn"
  by (auto simp: answer_rpc_def sendMessage_def split: prod.splits option.splits if_splits)

lemma handle_frame_shrinks:
  assumes "handle_frame codec serve conn node = (conn', node', True)"
  shows "length (rx conn') < length (rx conn)"
  using assms
  by (auto simp: handle_frame_def read_full_def Let_def dest!: rx_answer_rpc split: prod.splits option.splits if_splits)

function handleConnection ::
    "Codec \<Rightarrow> ('n \<Rightarrow> RPC \<Rightarrow> 'n \<times> RPCResponse option) \<Rightarrow> Conn \<Rightarrow> 'n \<Rightarrow> Conn \<times> 'n" where
  "handleConnection codec serve conn node =
     (let (conn', node', go) = handle_frame codec serve conn node
      in if go then handleConnection codec serve conn' node' else (conn', node'))"
  by pat_completeness auto
termination
  by (relation "measure (\<lambda>(codec, serve, conn, node). length (rx conn))") (auto dest: handle_frame_shrinks [OF sym])

declare handleConnection.simps [simp del]

section \<open>Outgoing RPCs\<close>

text \<open>
  A fresh connection for every call: \<open>dial\<close> tells whether it is established and writable,
  \<open>reply\<close> is what comes back for the bytes that were sent.
\<close>

datatype dial_result = Refused | Connected bool

definition call ::
    "dial_result \<Rightarrow> (string \<Rightarrow> string) \<Rightarrow> nat \<Rightarrow> string option \<Rightarrow> nat \<Rightarrow> (string \<Rightarrow> 'm option) \<Rightarrow> transport_error + 'm" where
  "call dial reply reqType marshalled respType unmarshal =
     (case dial of
        Refused \<Rightarrow> Inl DialFailed
      | Connected w \<Rightarrow>
          (case sendMessage \<lparr>rx = [], tx = [], write_ok = w\<rparr> reqType marshalled of
             (conn, Some err) \<Rightarrow> Inl err
           | (conn, None) \<Rightarrow> snd (readMessage (conn\<lparr>rx := reply (tx conn)\<rparr>) respType unmarshal)))"

definition SendAppendEntries ::
    "Codec \<Rightarrow> dial_result \<Rightarrow> (string \<Rightarrow> string) \<Rightarrow> AppendEntriesRequest \<Rightarrow> transport_error + AppendEntriesResponse" where
  "SendAppendEntries codec dial reply req =
     call dial reply msgAppendEntriesReq (enc_AppendEntries codec req) msgAppendEntriesResp
       (dec_AppendEntriesResponse codec)"

definition SendRequestVote ::
    "Codec \<Rightarrow> dial_result \<Rightarrow> (string \<Rightarrow> string) \<Rightarrow> RequestVoteRequest \<Rightarrow> transport_error + RequestVoteResponse" where
  "SendRequestVote codec dial reply req =
     call dial reply msgRequestVoteReq (enc_RequestVote codec req) msgRequestVoteResp
       (dec_RequestVoteResponse codec)"

text \<open>The bytes a listening transport sends back on a connection on which it receives \<open>bytes\<close>.\<close>

definition served ::
    "Codec \<Rightarrow> ('n \<Rightarrow> RPC \<Rightarrow> 'n \<times> RPCResponse option) \<Rightarrow> 'n \<Rightarrow> string \<Rightarrow> string" where
  "served codec serve node bytes =
     tx (fst (handleConnection codec serve \<lparr>rx = bytes, tx = [], write_ok = True\<rparr> node))"

text \<open>The node of \<^verbatim>\<open>Raft_Node\<close> behind the transport.\<close>

definition node_serve ::
    "'l LogStore \<Rightarrow> 's StableStore \<Rightarrow> ('l, 's, 'f, 'r) RaftNode \<Rightarrow> RPC \<Rightarrow>
     ('l, 's, 'f, 'r) RaftNode \<times> RPCResponse option" where
  "node_serve lops sops r rpc =
     (case handleRPC lops sops r rpc of
        None \<Rightarrow> (r, None)
      | Some (r', resp, reset) \<Rightarrow> (r', Some resp))"

text \<open>
  The whole \<^verbatim>\<open>replicateOnce\<close>, when nothing else happens on the leader while the RPC is under way;
  \<open>send\<close> is the transport.
\<close>

definition replicateOnce ::
    "'l LogStore \<Rightarrow> 's StableStore \<Rightarrow> (AppendEntriesRequest \<Rightarrow> transport_error + AppendEntriesResponse) \<Rightarrow>
     ('l, 's, 'f, 'r) RaftNode \<times> peerState \<Rightarrow> ('l, 's, 'f, 'r) RaftNode \<times> peerState" where
  "replicateOnce lops sops send rp =
     (case rp of (r, peer) \<Rightarrow>
        (case replicate_request lops r peer of
           None \<Rightarrow> (r, peer)
         | Some req \<Rightarrow>
             (case send req of
                Inl err \<Rightarrow> (r, peer)
              | Inr resp \<Rightarrow> replicate_response lops sops r True peer (ae_Entries req) resp)))"

section \<open>Shutdown\<close>

record TCPTransport =
  tcp_localAddr :: string
  listening :: bool
  shutdown_flag :: bool
  shutdown_closed :: bool

definition NewTCPTransport :: "string \<Rightarrow> bool \<Rightarrow> TCPTransport option" where
  "NewTCPTransport bindAddr listen_ok =
     (if listen_ok
      then Some \<lparr>tcp_localAddr = bindAddr, listening = True, shutdown_flag = False, shutdown_closed = False\<rparr>
      else None)"

text \<open>Closing a closed channel would panic (\<open>None\<close>); the flag prevents it.\<close>

definition tcp_Shutdown :: "TCPTransport \<Rightarrow> TCPTransport option" where
  "tcp_Shutdown t =
     (if shutdown_flag t then Some t
      else if shutdown_closed t then None
      else Some (t\<lparr>shutdown_flag := True, shutdown_closed := True, listening := False\<rparr>))"

text \<open>
  \<^verbatim>\<open>acceptLoop\<close>: the outcomes of \<^verbatim>\<open>Accept\<close>, each a connection or an error, and whether \<^verbatim>\<open>shutdownCh\<close>
  is closed by then. The result has the connections for which \<^verbatim>\<open>handleConnection\<close> is started, and
  whether the loop has returned.
\<close>

fun acceptLoop :: "('c option \<times> bool) list \<Rightarrow> 'c list \<times> bool" where
  "acceptLoop [] = ([], False)"
| "acceptLoop ((Some conn, closed) # os) = (let (conns, returned) = acceptLoop os in (conn # conns, returned))"
| "acceptLoop ((None, closed) # os) = (if closed then ([], True) else acceptLoop os)"

section \<open>Lemmas\<close>

lemma acceptLoop_returns:
  "snd (acceptLoop os) \<longleftrightarrow> (None, True) \<in> set os"
  "(None, True) \<notin> set os \<Longrightarrow> fst (acceptLoop os) = List.map_filter fst os"
  by (induction os rule: acceptLoop.induct) (auto simp: List.map_filter_simps case_prod_unfold Let_def)


lemma frame_header:
  "take 5 (frame ty body @ rest) = char_of ty # be_bytes 4 (length body mod 2 ^ 32)"
  "drop 5 (frame ty body @ rest) = body @ rest"
  "5 \<le> length (frame ty body @ rest)"
  by (simp_all add: frame_def)

lemma be_value_length: "n < 2 ^ 32 \<Longrightarrow> be_value (be_bytes 4 n) = n"
  by (simp add: be_value_be_bytes)

lemma small_payload: "length body \<le> max_payload \<Longrightarrow> length body mod 2 ^ 32 = length body"
  by (simp add: max_payload_def)

lemma read_frame_header:
  "rx conn = frame ty body @ rest \<Longrightarrow>
     read_full 5 conn = (conn\<lparr>rx := body @ rest\<rparr>, Some (char_of ty # be_bytes 4 (length body mod 2 ^ 32)))"
  using frame_header [of ty body rest] by (simp add: read_full_def)

lemma header_fields:
  assumes "ty < (256 :: nat)"
  shows "of_char ((char_of ty # be_bytes 4 n) ! 0) = ty" "take 4 (drop 1 (char_of ty # be_bytes 4 n)) = be_bytes 4 n"
  using assms by (simp_all add: length_be_bytes [of 4 n, THEN eq_refl, THEN take_all])

lemma be_value_small: "length body \<le> max_payload \<Longrightarrow> be_value (be_bytes 4 (length body mod 2 ^ 32)) = length body"
  using small_payload [of body] be_value_length [of "length body"] by (simp add: max_payload_def)

lemma read_full_exact: "rx conn = body @ rest \<Longrightarrow> read_full (length body) conn = (conn\<lparr>rx := rest\<rparr>, Some body)"
  by (simp add: read_full_def)

text \<open>What a well-formed frame leads to, on either end.\<close>

lemma readMessage_frame:
  assumes "rx conn = frame ty body @ rest" and "ty < 256" and "length body \<le> max_payload"
  shows "readMessage conn ty unmarshal =
    (conn\<lparr>rx := rest\<rparr>, case unmarshal body of None \<Rightarrow> Inl UnmarshalFailed | Some m \<Rightarrow> Inr m)"
proof -
  have "read_full (length body) (conn\<lparr>rx := body @ rest\<rparr>) = (conn\<lparr>rx := rest\<rparr>, Some body)"
    by (subst read_full_exact) simp_all
  with assms(3) show ?thesis
    unfolding readMessage_def read_frame_header [OF assms(1)]
    by (simp only: prod.case option.case Let_def header_fields [OF assms(2)] be_value_small [OF assms(3)])
      (auto split: option.splits)
qed

lemma handle_frame_read:
  assumes "rx conn = frame ty body @ rest" and "ty < 256" and "length body \<le> max_payload"
  shows "handle_frame codec serve conn node =
    (if ty = msgAppendEntriesReq then
       (case dec_AppendEntries codec body of
          None \<Rightarrow> (conn\<lparr>rx := rest\<rparr>, node, False)
        | Some req \<Rightarrow> answer_rpc codec serve (conn\<lparr>rx := rest\<rparr>) node msgAppendEntriesResp (AppendEntriesRPC req))
     else if ty = msgRequestVoteReq then
       (case dec_RequestVote codec body of
          None \<Rightarrow> (conn\<lparr>rx := rest\<rparr>, node, False)
        | Some req \<Rightarrow> answer_rpc codec serve (conn\<lparr>rx := rest\<rparr>) node msgRequestVoteResp (RequestVoteRPC req))
     else (conn\<lparr>rx := rest\<rparr>, node, False))"
proof -
  have "read_full (length body) (conn\<lparr>rx := body @ rest\<rparr>) = (conn\<lparr>rx := rest\<rparr>, Some body)"
    by (subst read_full_exact) simp_all
  with assms(3) show ?thesis
    unfolding handle_frame_def read_frame_header [OF assms(1)]
    by (simp only: prod.case option.case Let_def header_fields [OF assms(2)] be_value_small [OF assms(3)]) simp
qed

lemma handle_frame_oversized:
  assumes "rx conn = frame ty body @ rest" and "max_payload < length body" and "length body < 2 ^ 32"
  shows "handle_frame codec serve conn node = (conn\<lparr>rx := body @ rest\<rparr>, node, False)"
proof -
  have "take 4 (drop 1 (char_of ty # be_bytes 4 (length body mod 2 ^ 32))) = be_bytes 4 (length body)"
    using assms(3) by simp
  with assms(2,3) show ?thesis
    unfolding handle_frame_def read_frame_header [OF assms(1)]
    by (simp only: prod.case option.case Let_def be_value_length [OF assms(3)]) simp
qed

lemma handleConnection_end: "rx conn = [] \<Longrightarrow> handleConnection codec serve conn node = (conn, node)"
  by (subst handleConnection.simps) (simp add: handle_frame_def read_full_def)

text \<open>A request of either kind on a connection of its own.\<close>

lemma handleConnection_append:
  assumes "dec_AppendEntries codec body = Some req" and "length body \<le> max_payload"
    and "serve node (AppendEntriesRPC req) = (node', Some resp)" and "enc_Response codec resp = Some rbody"
  shows "handleConnection codec serve \<lparr>rx = frame msgAppendEntriesReq body, tx = [], write_ok = True\<rparr> node =
    (\<lparr>rx = [], tx = frame msgAppendEntriesResp rbody, write_ok = True\<rparr>, node')"
proof -
  let ?c = "\<lparr>rx = frame msgAppendEntriesReq body, tx = [], write_ok = True\<rparr>"
  have "handle_frame codec serve ?c node = (\<lparr>rx = [], tx = frame msgAppendEntriesResp rbody, write_ok = True\<rparr>, node', True)"
    using handle_frame_read [of ?c msgAppendEntriesReq body "[]" codec serve node] assms
    by (simp add: answer_rpc_def sendMessage_def msgAppendEntriesReq_def)
  then show ?thesis by (subst handleConnection.simps) (simp add: handleConnection_end)
qed

lemma handleConnection_vote:
  assumes "dec_RequestVote codec body = Some req" and "length body \<le> max_payload"
    and "serve node (RequestVoteRPC req) = (node', Some resp)" and "enc_Response codec resp = Some rbody"
  shows "handleConnection codec serve \<lparr>rx = frame msgRequestVoteReq body, tx = [], write_ok = True\<rparr> node =
    (\<lparr>rx = [], tx = frame msgRequestVoteResp rbody, write_ok = True\<rparr>, node')"
proof -
  let ?c = "\<lparr>rx = frame msgRequestVoteReq body, tx = [], write_ok = True\<rparr>"
  have "handle_frame codec serve ?c node = (\<lparr>rx = [], tx = frame msgRequestVoteResp rbody, write_ok = True\<rparr>, node', True)"
    using handle_frame_read [of ?c msgRequestVoteReq body "[]" codec serve node] assms
    by (simp add: answer_rpc_def sendMessage_def msgRequestVoteReq_def msgAppendEntriesReq_def)
  then show ?thesis by (subst handleConnection.simps) (simp add: handleConnection_end)
qed

lemma call_reply:
  assumes "reply (frame reqType body) = frame respType rbody" and "respType < 256"
    and "length rbody \<le> max_payload" and "unmarshal rbody = Some m"
  shows "call (Connected True) reply reqType (Some body) respType unmarshal = Inr m"
  using readMessage_frame [of "\<lparr>rx = frame respType rbody, tx = frame reqType body, write_ok = True\<rparr>" respType rbody "[]" unmarshal] assms
  by (simp add: call_def sendMessage_def)

lemma handleConnection_oversized:
  assumes "max_payload < length body" and "length body < 2 ^ 32"
  shows "handleConnection codec serve \<lparr>rx = frame ty body, tx = [], write_ok = True\<rparr> node =
    (\<lparr>rx = body, tx = [], write_ok = True\<rparr>, node)"
  using handle_frame_oversized [of "\<lparr>rx = frame ty body, tx = [], write_ok = True\<rparr>" ty body "[]" codec serve node] assms
  by (subst handleConnection.simps) simp

text \<open>A call to a node that is reached, with what is used of the codec as hypotheses.\<close>

lemma SendAppendEntries_call:
  assumes "enc_AppendEntries codec req = Some body" and "dec_AppendEntries codec body = Some req"
    and "enc_Response codec (AppendEntriesReply resp) = Some rbody" and "dec_AppendEntriesResponse codec rbody = Some resp"
    and "length body \<le> max_payload" and "length rbody \<le> max_payload"
    and "handleAppendEntries lops sops r req = Some (r', resp, reset)"
  shows "SendAppendEntries codec (Connected True) (served codec (node_serve lops sops) r) req = Inr resp \<and>
    snd (handleConnection codec (node_serve lops sops)
      \<lparr>rx = frame msgAppendEntriesReq body, tx = [], write_ok = True\<rparr> r) = r'"
proof -
  have "node_serve lops sops r (AppendEntriesRPC req) = (r', Some (AppendEntriesReply resp))"
    using assms(7) by (simp add: node_serve_def handleRPC_def)
  note h = handleConnection_append [where serve = "node_serve lops sops", OF assms(2,5) this assms(3)]
  then have "served codec (node_serve lops sops) r (frame msgAppendEntriesReq body) = frame msgAppendEntriesResp rbody"
    by (simp add: served_def)
  from call_reply [where reply = "served codec (node_serve lops sops) r" and unmarshal = "dec_AppendEntriesResponse codec", OF this _ assms(6,4)] have "SendAppendEntries codec (Connected True)
      (served codec (node_serve lops sops) r) req = Inr resp"
    by (simp add: SendAppendEntries_def assms(1) msgAppendEntriesResp_def)
  with h show ?thesis by simp
qed

lemma SendRequestVote_call:
  assumes "enc_RequestVote codec req = Some body" and "dec_RequestVote codec body = Some req"
    and "enc_Response codec (RequestVoteReply resp) = Some rbody" and "dec_RequestVoteResponse codec rbody = Some resp"
    and "length body \<le> max_payload" and "length rbody \<le> max_payload"
    and "handleRequestVote lops sops r req = (r', resp, reset)"
  shows "SendRequestVote codec (Connected True) (served codec (node_serve lops sops) r) req = Inr resp \<and>
    snd (handleConnection codec (node_serve lops sops)
      \<lparr>rx = frame msgRequestVoteReq body, tx = [], write_ok = True\<rparr> r) = r'"
proof -
  have "node_serve lops sops r (RequestVoteRPC req) = (r', Some (RequestVoteReply resp))"
    using assms(7) by (simp add: node_serve_def handleRPC_def)
  note h = handleConnection_vote [where serve = "node_serve lops sops", OF assms(2,5) this assms(3)]
  then have "served codec (node_serve lops sops) r (frame msgRequestVoteReq body) = frame msgRequestVoteResp rbody"
    by (simp add: served_def)
  from call_reply [where reply = "served codec (node_serve lops sops) r" and unmarshal = "dec_RequestVoteResponse codec",
      OF this _ assms(6,4)]
  have "SendRequestVote codec (Connected True) (served codec (node_serve lops sops) r) req = Inr resp"
    by (simp add: SendRequestVote_def assms(1) msgRequestVoteResp_def)
  with h show ?thesis by simp
qed

section \<open>Examples\<close>

definition ex_append :: AppendEntriesRequest where
  "ex_append = \<lparr>ae_Term = 3, ae_LeaderID = ''a'', ae_PrevLogIndex = 0, ae_PrevLogTerm = 0, ae_Entries = [],
     ae_LeaderCommit = 0\<rparr>"

definition ex_append_ok :: AppendEntriesResponse where
  "ex_append_ok = \<lparr>aer_Term = 3, aer_Success = True, aer_ConflictTerm = 0, aer_ConflictIndex = 0\<rparr>"

text \<open>A codec for these two messages only, every body being the given one.\<close>

definition ex_codec :: "string \<Rightarrow> Codec" where
  "ex_codec body = \<lparr>enc_AppendEntries = (\<lambda>_. Some body), dec_AppendEntries = (\<lambda>_. Some ex_append),
     enc_RequestVote = (\<lambda>_. None), dec_RequestVote = (\<lambda>_. None), enc_Response = (\<lambda>_. Some body),
     dec_AppendEntriesResponse = (\<lambda>_. Some ex_append_ok), dec_RequestVoteResponse = (\<lambda>_. None)\<rparr>"

section \<open>Properties\<close>

text \<open>
  What \<^verbatim>\<open>sendMessage\<close> writes, \<^verbatim>\<open>readMessage\<close> reads back: for a body of at most 10 MiB the
  reader gets the same bytes and leaves exactly the bytes that follow, whatever they are; a
  different expected type is reported as such.
\<close>

theorem frame_roundtrip:
  assumes "length body \<le> max_payload" and "ty < 256" and "write_ok sender"
    and "sendMessage sender ty (Some body) = (sender', err)" and "tx sender' = tx sender @ sent"
    and "rx receiver = sent @ rest"
  shows "err = None \<and> readMessage receiver ty Some = (receiver\<lparr>rx := rest\<rparr>, Inr body) \<and>
    (expected \<noteq> ty \<longrightarrow> snd (readMessage receiver expected Some) = Inl (UnexpectedType expected ty))"
proof -
  have s: "sent = frame ty body" "err = None" using assms(3-5) by (auto simp: sendMessage_def)
  with assms(6) have r: "rx receiver = frame ty body @ rest" by simp
  have "snd (readMessage receiver expected Some) = Inl (UnexpectedType expected ty)" if "expected \<noteq> ty"
    unfolding readMessage_def read_frame_header [OF r]
    by (simp only: prod.case option.case Let_def header_fields [OF assms(2)]) (use that in simp)
  with readMessage_frame [OF r assms(2,1), of Some] s show ?thesis by simp
qed

theorem frame_roundtrip_witness:
  "snd (readMessage \<lparr>rx = frame 1 ''{}'' @ ''tail'', tx = [], write_ok = True\<rparr> 1 Some) = Inr ''{}''"
  using frame_roundtrip [of "''{}''" 1 "\<lparr>rx = [], tx = [], write_ok = True\<rparr>"
      "\<lparr>rx = [], tx = frame 1 ''{}'', write_ok = True\<rparr>" None "frame 1 ''{}''"
      "\<lparr>rx = frame 1 ''{}'' @ ''tail'', tx = [], write_ok = True\<rparr>" "''tail''" 2]
  by (simp add: sendMessage_def max_payload_def)

text \<open>
  C35. A follower that lacks too much is never brought up to date. \<^verbatim>\<open>replicateOnce\<close> sends all
  entries from \<^verbatim>\<open>nextIndex\<close> on in one message, and the receiving transport closes the connection
  on a message of more than 10 MiB: the call fails, nothing is delivered, and however often it is
  repeated, the leader keeps the same state and builds the same request.
\<close>

theorem oversized_append_never_delivered:
  assumes "replicate_request lops r peer = Some req" and "enc_AppendEntries codec req = Some body"
    and "max_payload < length body" and "length body < 2 ^ 32"
  shows "(replicateOnce lops sops (SendAppendEntries codec (Connected True) (served codec serve node)) ^^ n) (r, peer) =
      (r, peer) \<and>
    snd (handleConnection codec serve \<lparr>rx = frame msgAppendEntriesReq body, tx = [], write_ok = True\<rparr> node) = node"
proof -
  let ?send = "SendAppendEntries codec (Connected True) (served codec serve node)"
  note h = handleConnection_oversized [OF assms(3,4), of codec serve msgAppendEntriesReq node]
  then have "?send req = Inl ReadHeaderFailed"
    by (simp add: SendAppendEntries_def call_def assms(2) sendMessage_def served_def readMessage_def read_full_def)
  then have "replicateOnce lops sops ?send (r, peer) = (r, peer)"
    by (simp add: replicateOnce_def assms(1))
  then have "(replicateOnce lops sops ?send ^^ n) (r, peer) = (r, peer)" by (induction n) simp_all
  with h show ?thesis by simp
qed

theorem oversized_append_never_delivered_witness:
  "(replicateOnce inmem_log inmem_stable
      (SendAppendEntries (ex_codec (replicate 10485761 CHR ''x'')) (Connected True)
        (served (ex_codec (replicate 10485761 CHR ''x'')) (node_serve inmem_log inmem_stable) (ex_node ''b'' [] 3 Follower))) ^^ 100)
     (ex_node ''a'' [] 3 Leader, ex_peer ''b'' 1 0) = (ex_node ''a'' [] 3 Leader, ex_peer ''b'' 1 0)"
proof -
  obtain req where "replicate_request inmem_log (ex_node ''a'' [] 3 Leader) (ex_peer ''b'' 1 0) = Some req"
    by (simp add: replicate_request_def ex_node_def Let_def)
  moreover have "enc_AppendEntries (ex_codec (replicate 10485761 CHR ''x'')) req = Some (replicate 10485761 CHR ''x'')"
    by (simp add: ex_codec_def)
  moreover have "max_payload < length (replicate 10485761 CHR ''x'')" "length (replicate 10485761 CHR ''x'') < 2 ^ 32"
    by (simp_all add: max_payload_def)
  ultimately show ?thesis by (rule oversized_append_never_delivered [THEN conjunct1])
qed

end
