(* ===== verification/Bolt_Store.thy ===== *)
theory Bolt_Store
  imports Raft_Store
begin

text \<open>
  \<^verbatim>\<open>internal/store/boltstore.go\<close>: the log and the stable state in two buckets of a bbolt database.
  The package \<^verbatim>\<open>go.etcd.io/bbolt\<close> is the parameter \<open>bolt\<close>, a record of the operations the code
  calls inside a transaction, and the JSON of an entry the parameters \<open>marshal\<close> and
  \<open>unmarshal\<close>, for which \<^verbatim>\<open>Wire_Raft\<close> gives the functions. What the code relies on is stated by \<open>bolt_ok\<close> (a bucket is a finite map whose
  cursor follows the byte order of the keys) and \<open>json_ok\<close>. A transaction whose function fails, or
  that cannot be committed, leaves the database as it was.
\<close>

section \<open>The database\<close>

record 'd Bolt =
  db_open :: "'d \<Rightarrow> bool"
  db_close :: "'d \<Rightarrow> 'd"
  b_create :: "'d \<Rightarrow> string \<Rightarrow> 'd option"
  b_get :: "'d \<Rightarrow> string \<Rightarrow> string \<Rightarrow> string option"
  b_put :: "'d \<Rightarrow> string \<Rightarrow> string \<Rightarrow> string \<Rightarrow> 'd option"
  b_delete :: "'d \<Rightarrow> string \<Rightarrow> string \<Rightarrow> 'd option"
  c_first :: "'d \<Rightarrow> string \<Rightarrow> string option"
  c_last :: "'d \<Rightarrow> string \<Rightarrow> string option"
  c_seek :: "'d \<Rightarrow> string \<Rightarrow> string \<Rightarrow> string option"
  c_next :: "'d \<Rightarrow> string \<Rightarrow> string \<Rightarrow> string option"
  commit_ok :: "'d \<Rightarrow> bool"

definition bucketLog :: string where
  "bucketLog = ''raft-log''"

definition bucketStable :: string where
  "bucketStable = ''raft-stable''"

text \<open>\<^verbatim>\<open>db.Update\<close> and \<^verbatim>\<open>db.View\<close>.\<close>

definition db_Update :: "'d Bolt \<Rightarrow> ('d \<Rightarrow> 'd option) \<Rightarrow> 'd \<Rightarrow> 'd \<times> store_error option" where
  "db_Update bolt f d =
     (if db_open bolt d then
        (case f d of
           None \<Rightarrow> (d, Some (ErrStoreFailed ''update''))
         | Some d' \<Rightarrow> if commit_ok bolt d' then (d', None) else (d, Some (ErrStoreFailed ''commit'')))
      else (d, Some (ErrStoreFailed ''database not open'')))"

text \<open>
  \<^verbatim>\<open>NewBoltStore\<close>: \<open>opened\<close> is what \<^verbatim>\<open>bolt.Open\<close> returns. When the buckets cannot be created the
  database is closed again (second component).
\<close>

definition NewBoltStore :: "'d Bolt \<Rightarrow> 'd option \<Rightarrow> (store_error \<times> 'd option) + 'd" where
  "NewBoltStore bolt opened =
     (case opened of
        None \<Rightarrow> Inl (ErrStoreFailed ''open'', None)
      | Some d \<Rightarrow>
          (case db_Update bolt (\<lambda>d. Option.bind (b_create bolt d bucketLog) (\<lambda>d1. b_create bolt d1 bucketStable)) d of
             (d1, None) \<Rightarrow> Inr d1
           | (d1, Some e) \<Rightarrow> Inl (e, Some (db_close bolt d1))))"

definition bolt_Close :: "'d Bolt \<Rightarrow> 'd \<Rightarrow> 'd" where
  "bolt_Close bolt d = db_close bolt d"

section \<open>raft.LogStore implementation\<close>

text \<open>
  Only \<^verbatim>\<open>StoreLogs\<close> writes keys into the log bucket, all of 8 bytes; on a shorter key
  \<^verbatim>\<open>bytesToUint64\<close> would panic, which the interface type cannot express and which is an error here.
\<close>

definition bolt_FirstIndex :: "'d Bolt \<Rightarrow> 'd \<Rightarrow> nat \<times> store_error option" where
  "bolt_FirstIndex bolt d =
     (if \<not> db_open bolt d then (0, Some (ErrStoreFailed ''database not open''))
      else case c_first bolt d bucketLog of
             None \<Rightarrow> (0, None)
           | Some k \<Rightarrow> (case bytesToUint64 k of None \<Rightarrow> (0, Some (ErrStoreFailed ''panic'')) | Some idx \<Rightarrow> (idx, None)))"

definition bolt_LastIndex :: "'d Bolt \<Rightarrow> 'd \<Rightarrow> nat \<times> store_error option" where
  "bolt_LastIndex bolt d =
     (if \<not> db_open bolt d then (0, Some (ErrStoreFailed ''database not open''))
      else case c_last bolt d bucketLog of
             None \<Rightarrow> (0, None)
           | Some k \<Rightarrow> (case bytesToUint64 k of None \<Rightarrow> (0, Some (ErrStoreFailed ''panic'')) | Some idx \<Rightarrow> (idx, None)))"

text \<open>
  \<^verbatim>\<open>GetLog\<close> returns a pointer to a local variable in every case, so the entry beside an error is
  the zero entry or what \<^verbatim>\<open>json.Unmarshal\<close> left in it.
\<close>

definition zeroEntry :: LogEntry where
  "zeroEntry = \<lparr>Index = 0, Term = 0, Data = []\<rparr>"

definition bolt_GetLog ::
    "'d Bolt \<Rightarrow> (string \<Rightarrow> LogEntry \<times> store_error option) \<Rightarrow> 'd \<Rightarrow> nat \<Rightarrow> LogEntry option \<times> store_error option" where
  "bolt_GetLog bolt unmarshal d index =
     (if \<not> db_open bolt d then (Some zeroEntry, Some (ErrStoreFailed ''database not open''))
      else case b_get bolt d bucketLog (uint64ToBytes index) of
             None \<Rightarrow> (Some zeroEntry, Some (ErrLogNotFound index))
           | Some v \<Rightarrow> (case unmarshal v of (out, err) \<Rightarrow> (Some out, err)))"

fun put_logs :: "'d Bolt \<Rightarrow> (LogEntry \<Rightarrow> string option) \<Rightarrow> LogEntry list \<Rightarrow> 'd \<Rightarrow> 'd option" where
  "put_logs bolt marshal [] d = Some d"
| "put_logs bolt marshal (l # logs) d =
     (case marshal l of
        None \<Rightarrow> None
      | Some data \<Rightarrow> Option.bind (b_put bolt d bucketLog (uint64ToBytes (Index l)) data) (put_logs bolt marshal logs))"

definition bolt_StoreLogs ::
    "'d Bolt \<Rightarrow> (LogEntry \<Rightarrow> string option) \<Rightarrow> 'd \<Rightarrow> LogEntry list \<Rightarrow> 'd \<times> store_error option" where
  "bolt_StoreLogs bolt marshal d logs = db_Update bolt (put_logs bolt marshal logs) d"

definition bolt_StoreLog ::
    "'d Bolt \<Rightarrow> (LogEntry \<Rightarrow> string option) \<Rightarrow> 'd \<Rightarrow> LogEntry \<Rightarrow> 'd \<times> store_error option" where
  "bolt_StoreLog bolt marshal d log = bolt_StoreLogs bolt marshal d [log]"

text \<open>
  The cursor loop of \<^verbatim>\<open>DeleteRange\<close>, at the key \<open>pos\<close> (\<open>None\<close> at the end): the database, or
  \<open>None\<close> inside for a failed delete; the outer \<open>None\<close> when the loop does not end (or panics on a
  short key).
\<close>

partial_function (option) delete_loop :: "'d Bolt \<Rightarrow> nat \<Rightarrow> 'd \<Rightarrow> string option \<Rightarrow> 'd option option" where
  "delete_loop bolt hi d pos =
     (case pos of
        None \<Rightarrow> Some (Some d)
      | Some k \<Rightarrow>
          (case bytesToUint64 k of
             None \<Rightarrow> None
           | Some idx \<Rightarrow>
               if idx > hi then Some (Some d)
               else (case b_delete bolt d bucketLog k of
                       None \<Rightarrow> Some None
                     | Some d' \<Rightarrow> delete_loop bolt hi d' (c_next bolt d' bucketLog k))))"

definition bolt_DeleteRange ::
    "'d Bolt \<Rightarrow> 'd \<Rightarrow> nat \<Rightarrow> nat \<Rightarrow> ('d \<times> store_error option) option" where
  "bolt_DeleteRange bolt d lo hi =
     (if \<not> db_open bolt d then Some (d, Some (ErrStoreFailed ''database not open''))
      else case delete_loop bolt hi d (c_seek bolt d bucketLog (uint64ToBytes lo)) of
             None \<Rightarrow> None
           | Some None \<Rightarrow> Some (d, Some (ErrStoreFailed ''delete''))
           | Some (Some d') \<Rightarrow> if commit_ok bolt d' then Some (d', None) else Some (d, Some (ErrStoreFailed ''commit'')))"

section \<open>raft.StableStore implementation\<close>

definition bolt_Set :: "'d Bolt \<Rightarrow> 'd \<Rightarrow> string \<Rightarrow> string \<Rightarrow> 'd \<times> store_error option" where
  "bolt_Set bolt d key val = db_Update bolt (\<lambda>d. b_put bolt d bucketStable key val) d"

definition bolt_Get :: "'d Bolt \<Rightarrow> 'd \<Rightarrow> string \<Rightarrow> string \<times> store_error option" where
  "bolt_Get bolt d key =
     (if \<not> db_open bolt d then ([], Some (ErrStoreFailed ''database not open''))
      else case b_get bolt d bucketStable key of None \<Rightarrow> ([], None) | Some v \<Rightarrow> (v, None))"

definition bolt_SetUint64 :: "'d Bolt \<Rightarrow> 'd \<Rightarrow> string \<Rightarrow> nat \<Rightarrow> 'd \<times> store_error option" where
  "bolt_SetUint64 bolt d key val = bolt_Set bolt d key (uint64ToBytes val)"

definition bolt_GetUint64 :: "'d Bolt \<Rightarrow> 'd \<Rightarrow> string \<Rightarrow> (store_error, nat) go_result" where
  "bolt_GetUint64 bolt d key =
     (case bolt_Get bolt d key of
        (val, Some err) \<Rightarrow> Err err
      | (val, None) \<Rightarrow>
          if length val = 0 then Ok 0
          else if length val \<noteq> 8 then Err (ErrStoreFailed ''invalid uint64 value in stable store'')
          else (case bytesToUint64 val of None \<Rightarrow> Panic | Some n \<Rightarrow> Ok n))"

text \<open>
  The two interfaces. Indices and terms are \<^verbatim>\<open>uint64\<close>: \<open>typed\<close> is a log store as the Go types
  restrict its use, answering arguments outside the type, which no caller can pass, with an error.
\<close>

definition bolt_log ::
    "'d Bolt \<Rightarrow> (LogEntry \<Rightarrow> string option) \<Rightarrow> (string \<Rightarrow> LogEntry \<times> store_error option) \<Rightarrow> 'd LogStore" where
  "bolt_log bolt marshal unmarshal =
     \<lparr>FirstIndex = bolt_FirstIndex bolt, LastIndex = bolt_LastIndex bolt, GetLog = bolt_GetLog bolt unmarshal,
      StoreLog = bolt_StoreLog bolt marshal, StoreLogs = bolt_StoreLogs bolt marshal,
      DeleteRange = bolt_DeleteRange bolt\<rparr>"

definition bolt_stable :: "'d Bolt \<Rightarrow> 'd StableStore" where
  "bolt_stable bolt = \<lparr>Set = bolt_Set bolt, Get = bolt_Get bolt, SetUint64 = bolt_SetUint64 bolt,
     GetUint64 = bolt_GetUint64 bolt\<rparr>"

definition entry_fits :: "LogEntry \<Rightarrow> bool" where
  "entry_fits e \<longleftrightarrow> Index e < 2 ^ 64 \<and> Term e < 2 ^ 64"

definition typed :: "'l LogStore \<Rightarrow> 'l LogStore" where
  "typed lops =
     (let store = (\<lambda>s es. if list_all entry_fits es then StoreLogs lops s es else (s, Some (ErrStoreFailed ''type'')))
      in lops\<lparr>GetLog := (\<lambda>s i. if i < 2 ^ 64 then GetLog lops s i else (None, Some (ErrLogNotFound i))),
           StoreLogs := store,
           StoreLog := (\<lambda>s e. store s [e]),
           DeleteRange := (\<lambda>s lo hi. if lo < 2 ^ 64 then DeleteRange lops s lo hi else Some (s, None))\<rparr>)"

section \<open>What is relied on\<close>

text \<open>The least key of \<open>K\<close> with the property \<open>P\<close>; the greatest key of \<open>K\<close>.\<close>

definition least_key :: "(string \<Rightarrow> bool) \<Rightarrow> string set \<Rightarrow> string option \<Rightarrow> bool" where
  "least_key P K pos \<longleftrightarrow>
     (case pos of
        None \<Rightarrow> \<forall>x \<in> K. \<not> P x
      | Some k \<Rightarrow> k \<in> K \<and> P k \<and> (\<forall>x \<in> K. P x \<longrightarrow> k \<le> x))"

definition greatest_key :: "string set \<Rightarrow> string option \<Rightarrow> bool" where
  "greatest_key K pos \<longleftrightarrow> (case pos of None \<Rightarrow> K = {} | Some k \<Rightarrow> k \<in> K \<and> (\<forall>x \<in> K. x \<le> k))"

text \<open>
  The documented behaviour of bbolt; \<open>bmap d bucket\<close> is the content of a bucket. \<^verbatim>\<open>Put\<close>,
  \<^verbatim>\<open>Delete\<close> and commits may fail. After \<^verbatim>\<open>Delete\<close> at the cursor, \<^verbatim>\<open>Next\<close> is the next larger key.
\<close>

definition bolt_ok :: "'d Bolt \<Rightarrow> ('d \<Rightarrow> string \<Rightarrow> string \<rightharpoonup> string) \<Rightarrow> bool" where
  "bolt_ok bolt bmap \<longleftrightarrow> (\<forall>d bk. db_open bolt d \<longrightarrow>
     finite (dom (bmap d bk)) \<and> b_get bolt d bk = bmap d bk \<and>
     (\<forall>k v d'. b_put bolt d bk k v = Some d' \<longrightarrow> db_open bolt d' \<and> bmap d' = (bmap d)(bk := (bmap d bk)(k \<mapsto> v))) \<and>
     (\<forall>k d'. b_delete bolt d bk k = Some d' \<longrightarrow> db_open bolt d' \<and> bmap d' = (bmap d)(bk := (bmap d bk)(k := None))) \<and>
     least_key (\<lambda>_. True) (dom (bmap d bk)) (c_first bolt d bk) \<and>
     greatest_key (dom (bmap d bk)) (c_last bolt d bk) \<and>
     (\<forall>k. least_key (\<lambda>x. k \<le> x) (dom (bmap d bk)) (c_seek bolt d bk k)) \<and>
     (\<forall>k. least_key (\<lambda>x. k < x) (dom (bmap d bk)) (c_next bolt d bk k)))"

text \<open>Decoding inverts encoding on the values of the Go struct.\<close>

definition json_ok :: "(LogEntry \<Rightarrow> string option) \<Rightarrow> (string \<Rightarrow> LogEntry \<times> store_error option) \<Rightarrow> bool" where
  "json_ok marshal unmarshal \<longleftrightarrow>
     (\<forall>e b. entry_fits e \<longrightarrow> marshal e = Some b \<longrightarrow> unmarshal b = (e, None))"

text \<open>The log in a database, and when the log bucket is well-formed.\<close>

definition bolt_abs ::
    "('d \<Rightarrow> string \<Rightarrow> string \<rightharpoonup> string) \<Rightarrow> (string \<Rightarrow> LogEntry \<times> store_error option) \<Rightarrow> 'd \<Rightarrow> nat \<rightharpoonup> LogEntry" where
  "bolt_abs bmap unmarshal d i =
     (if i < 2 ^ 64 then map_option (fst \<circ> unmarshal) (bmap d bucketLog (uint64ToBytes i)) else None)"

definition bolt_inv ::
    "'d Bolt \<Rightarrow> ('d \<Rightarrow> string \<Rightarrow> string \<rightharpoonup> string) \<Rightarrow> (string \<Rightarrow> LogEntry \<times> store_error option) \<Rightarrow> 'd \<Rightarrow> bool" where
  "bolt_inv bolt bmap unmarshal d \<longleftrightarrow> db_open bolt d \<and>
     (\<forall>k v. bmap d bucketLog k = Some v \<longrightarrow>
        (\<exists>i. 0 < i \<and> i < 2 ^ 64 \<and> k = uint64ToBytes i) \<and> snd (unmarshal v) = None)"

section \<open>Lemmas\<close>

lemma least_key_cong: "(\<And>x. x \<in> K \<Longrightarrow> P x \<longleftrightarrow> Q x) \<Longrightarrow> least_key P K pos \<longleftrightarrow> least_key Q K pos"
  by (cases pos) (auto simp: least_key_def)

lemma bolt_okD:
  assumes "bolt_ok bolt bmap" and "db_open bolt d"
  shows "finite (dom (bmap d bk))" and "b_get bolt d bk = bmap d bk"
    and "b_put bolt d bk k v = Some d' \<Longrightarrow> db_open bolt d' \<and> bmap d' = (bmap d)(bk := (bmap d bk)(k \<mapsto> v))"
    and "b_delete bolt d bk k = Some d' \<Longrightarrow> db_open bolt d' \<and> bmap d' = (bmap d)(bk := (bmap d bk)(k := None))"
    and "least_key (\<lambda>_. True) (dom (bmap d bk)) (c_first bolt d bk)"
    and "greatest_key (dom (bmap d bk)) (c_last bolt d bk)"
    and "least_key (\<lambda>x. k \<le> x) (dom (bmap d bk)) (c_seek bolt d bk k)"
    and "least_key (\<lambda>x. k < x) (dom (bmap d bk)) (c_next bolt d bk k)"
  using assms unfolding bolt_ok_def by blast+

lemma key_eq_iff: "i < 2 ^ 64 \<Longrightarrow> j < 2 ^ 64 \<Longrightarrow> uint64ToBytes i = uint64ToBytes j \<longleftrightarrow> i = j"
  using bytesToUint64_uint64ToBytes by (metis option.inject)

lemma key_le_iff: "i < 2 ^ 64 \<Longrightarrow> j < 2 ^ 64 \<Longrightarrow> uint64ToBytes i \<le> uint64ToBytes j \<longleftrightarrow> i \<le> j"
  using uint64ToBytes_less_iff [of j i] by (simp add: linorder_not_less [symmetric])

lemma bolt_key:
  assumes "bolt_inv bolt bmap unmarshal d" and "k \<in> dom (bmap d bucketLog)"
  obtains i where "0 < i" "i < 2 ^ 64" "k = uint64ToBytes i" "i \<in> dom (bolt_abs bmap unmarshal d)" "bytesToUint64 k = Some i"
proof -
  from assms(2) obtain v where v: "bmap d bucketLog k = Some v" by blast
  with assms(1) obtain i where i: "0 < i" "i < 2 ^ 64" "k = uint64ToBytes i" unfolding bolt_inv_def by blast
  moreover have "bolt_abs bmap unmarshal d i = Some (fst (unmarshal v))" using i v by (simp add: bolt_abs_def)
  moreover have "bytesToUint64 k = Some i" using i bytesToUint64_uint64ToBytes by simp
  ultimately show thesis using that by blast
qed

lemma bolt_dom:
  assumes "bolt_inv bolt bmap unmarshal d" and "i \<in> dom (bolt_abs bmap unmarshal d)"
  shows "0 < i \<and> i < 2 ^ 64 \<and> uint64ToBytes i \<in> dom (bmap d bucketLog)"
proof -
  from assms(2) have i: "i < 2 ^ 64" "uint64ToBytes i \<in> dom (bmap d bucketLog)"
    by (auto simp: bolt_abs_def split: if_splits)
  with assms(1) obtain j where "0 < j" "j < 2 ^ 64" "uint64ToBytes i = uint64ToBytes j" by (auto simp: bolt_inv_def)
  with i key_eq_iff show ?thesis by metis
qed

lemma bolt_finite:
  assumes "bolt_ok bolt bmap" and "bolt_inv bolt bmap unmarshal d"
  shows "finite (dom (bolt_abs bmap unmarshal d))"
proof (rule finite_subset)
  show "dom (bolt_abs bmap unmarshal d) \<subseteq> (the \<circ> bytesToUint64) ` dom (bmap d bucketLog)"
    using bolt_dom [OF assms(2)] bytesToUint64_uint64ToBytes by (force simp: image_iff)
  show "finite ((the \<circ> bytesToUint64) ` dom (bmap d bucketLog))"
    by (intro finite_imageI bolt_okD(1) [OF assms(1)]) (use assms(2) in \<open>simp add: bolt_inv_def\<close>)
qed

lemma bolt_last:
  assumes "bolt_ok bolt bmap" and "bolt_inv bolt bmap unmarshal d"
  shows "bolt_LastIndex bolt d = (Max (insert 0 (dom (bolt_abs bmap unmarshal d))), None)"
proof -
  let ?D = "dom (bolt_abs bmap unmarshal d)"
  have op: "db_open bolt d" using assms(2) by (simp add: bolt_inv_def)
  note last = bolt_okD(6) [OF assms(1) op, of bucketLog]
  show ?thesis
  proof (cases "c_last bolt d bucketLog")
    case None
    with last have "?D = {}" using bolt_dom [OF assms(2)] by (auto simp: greatest_key_def)
    with None op show ?thesis by (simp add: bolt_LastIndex_def)
  next
    case (Some k)
    with last have k: "k \<in> dom (bmap d bucketLog)" "\<And>x. x \<in> dom (bmap d bucketLog) \<Longrightarrow> x \<le> k"
      by (auto simp: greatest_key_def)
    from bolt_key [OF assms(2) k(1)] obtain i where i: "0 < i" "i < 2 ^ 64" "k = uint64ToBytes i" "i \<in> ?D"
      "bytesToUint64 k = Some i" .
    have "j \<le> i" if "j \<in> ?D" for j
      using bolt_dom [OF assms(2) that] k(2) [of "uint64ToBytes j"] i(2,3) key_le_iff [of j i] by simp
    then have "Max (insert 0 ?D) = i"
      using i(4) bolt_finite [OF assms] by (intro Max_eqI) auto
    with Some i op show ?thesis by (simp add: bolt_LastIndex_def)
  qed
qed

lemma bolt_put:
  assumes "bolt_ok bolt bmap" and "json_ok marshal unmarshal" and "bolt_inv bolt bmap unmarshal d"
    and "entry_fits e" and "0 < Index e" and "marshal e = Some b"
    and "b_put bolt d bucketLog (uint64ToBytes (Index e)) b = Some d'"
  shows "bolt_inv bolt bmap unmarshal d' \<and> bolt_abs bmap unmarshal d' = (bolt_abs bmap unmarshal d)(Index e \<mapsto> e)"
proof -
  have op: "db_open bolt d" using assms(3) by (simp add: bolt_inv_def)
  from bolt_okD(3) [OF assms(1) op assms(7)] have d': "db_open bolt d'"
    "bmap d' bucketLog = (bmap d bucketLog)(uint64ToBytes (Index e) \<mapsto> b)" by auto
  have u: "unmarshal b = (e, None)" using assms(2,4,6) by (simp add: json_ok_def)
  have idx: "Index e < 2 ^ 64" using assms(4) by (simp add: entry_fits_def)
  have "bolt_inv bolt bmap unmarshal d'"
    using assms(3,5) d' u idx by (auto simp: bolt_inv_def)
  moreover have "bolt_abs bmap unmarshal d' i = ((bolt_abs bmap unmarshal d)(Index e \<mapsto> e)) i" for i
    using key_eq_iff [of i "Index e"] idx d'(2) u by (simp add: bolt_abs_def)
  ultimately show ?thesis by blast
qed

lemma store_map_Cons: "store_map (e # es) = [Index e \<mapsto> e] ++ store_map es"
  by (simp add: store_map_def map_add_def fun_eq_iff split: option.splits)

lemma bolt_put_logs:
  assumes "bolt_ok bolt bmap" and "json_ok marshal unmarshal"
  shows "bolt_inv bolt bmap unmarshal d \<Longrightarrow> \<forall>e \<in> set es. 0 < Index e \<Longrightarrow> list_all entry_fits es \<Longrightarrow>
    put_logs bolt marshal es d = Some d' \<Longrightarrow>
    bolt_inv bolt bmap unmarshal d' \<and> bolt_abs bmap unmarshal d' = bolt_abs bmap unmarshal d ++ store_map es"
proof (induction es arbitrary: d)
  case (Cons e es)
  then obtain b d1 where b: "marshal e = Some b" "b_put bolt d bucketLog (uint64ToBytes (Index e)) b = Some d1"
    "put_logs bolt marshal es d1 = Some d'"
    by (auto simp: bind_eq_Some_conv split: option.splits)
  have "entry_fits e" "0 < Index e" using Cons.prems by simp_all
  from bolt_put [OF assms Cons.prems(1) this b(1,2)]
  have d1: "bolt_inv bolt bmap unmarshal d1" "bolt_abs bmap unmarshal d1 = (bolt_abs bmap unmarshal d)(Index e \<mapsto> e)" by auto
  have "bolt_inv bolt bmap unmarshal d' \<and> bolt_abs bmap unmarshal d' = bolt_abs bmap unmarshal d1 ++ store_map es"
    using Cons.IH [OF d1(1)] Cons.prems(2,3) b(3) by simp
  then show ?case unfolding d1(2) store_map_Cons by simp
qed (simp add: store_map_def)

lemma bolt_delete:
  assumes "bolt_ok bolt bmap" and "bolt_inv bolt bmap unmarshal d" and "i < 2 ^ 64"
    and "b_delete bolt d bucketLog (uint64ToBytes i) = Some d'"
  shows "bolt_inv bolt bmap unmarshal d' \<and> bolt_abs bmap unmarshal d' = (bolt_abs bmap unmarshal d)(i := None) \<and>
    dom (bmap d' bucketLog) = dom (bmap d bucketLog) - {uint64ToBytes i}"
proof -
  have op: "db_open bolt d" using assms(2) by (simp add: bolt_inv_def)
  from bolt_okD(4) [OF assms(1) op assms(4)] have d': "db_open bolt d'"
    "bmap d' bucketLog = (bmap d bucketLog)(uint64ToBytes i := None)" by auto
  then have "bolt_inv bolt bmap unmarshal d'" using assms(2) by (auto simp: bolt_inv_def split: if_splits)
  moreover have "bolt_abs bmap unmarshal d' j = ((bolt_abs bmap unmarshal d)(i := None)) j" for j
    using key_eq_iff [of j i] assms(3) d'(2) by (simp add: bolt_abs_def)
  ultimately show ?thesis using d'(2) by auto
qed

text \<open>The cursor loop: it ends, and it removes exactly the indices of the range.\<close>

lemma bolt_delete_loop:
  assumes "bolt_ok bolt bmap" and "lo < 2 ^ 64" and "hi < 2 ^ 64"
  shows "bolt_inv bolt bmap unmarshal d \<Longrightarrow> least_key (\<lambda>x. uint64ToBytes lo \<le> x) (dom (bmap d bucketLog)) pos \<Longrightarrow>
    \<exists>r. delete_loop bolt hi d pos = Some r \<and> (\<forall>d'. r = Some d' \<longrightarrow>
      bolt_inv bolt bmap unmarshal d' \<and> bolt_abs bmap unmarshal d' = bolt_abs bmap unmarshal d |` (- {lo..hi}))"
proof (induction "card (dom (bmap d bucketLog))" arbitrary: d pos rule: less_induct)
  case less
  let ?A = "bolt_abs bmap unmarshal d" and ?K = "dom (bmap d bucketLog)"
  have op: "db_open bolt d" using less.prems(1) by (simp add: bolt_inv_def)
  have unchanged: ?case if "\<And>i. i \<in> dom ?A \<Longrightarrow> lo \<le> i \<Longrightarrow> hi < i" "delete_loop bolt hi d pos = Some (Some d)"
  proof -
    have "(?A |` (- {lo..hi})) i = ?A i" for i
      using that(1) [of i] by (cases "?A i") (auto simp: restrict_map_def domI)
    then have "?A |` (- {lo..hi}) = ?A" by blast
    with that(2) less.prems(1) show ?thesis by simp
  qed
  show ?case
  proof (cases pos)
    case None
    show ?thesis
    proof (rule unchanged)
      fix i assume "i \<in> dom ?A" "lo \<le> i"
      with bolt_dom [OF less.prems(1)] less.prems(2) None key_le_iff [OF assms(2)] show "hi < i"
        by (auto simp: least_key_def)
    qed (simp add: delete_loop.simps None)
  next
    case (Some k)
    with less.prems(2) have k: "k \<in> ?K" "uint64ToBytes lo \<le> k" "\<And>x. x \<in> ?K \<Longrightarrow> uint64ToBytes lo \<le> x \<Longrightarrow> k \<le> x"
      by (auto simp: least_key_def)
    obtain i where i: "i < 2 ^ 64" "k = uint64ToBytes i" "bytesToUint64 k = Some i"
      using bolt_key [OF less.prems(1) k(1)] by metis
    have lo: "lo \<le> i" using k(2) key_le_iff [OF assms(2) i(1)] i(2) by simp
    show ?thesis
    proof (cases "hi < i")
      case True
      show ?thesis
      proof (rule unchanged)
        fix j assume j: "j \<in> dom ?A" "lo \<le> j"
        note jd = bolt_dom [OF less.prems(1) j(1)]
        with j(2) k(3) [of "uint64ToBytes j"] key_le_iff [OF assms(2), of j] key_le_iff [OF i(1), of j] i(2) True
        show "hi < j" by auto
      qed (simp add: delete_loop.simps Some i(3) True)
    next
      case False
      show ?thesis
      proof (cases "b_delete bolt d bucketLog k")
        case None
        with Some i(3) False show ?thesis by (simp add: delete_loop.simps)
      next
        case (Some d1)
        note d1 = bolt_delete [OF assms(1) less.prems(1) i(1), of d1, folded i(2), OF Some]
        have smaller: "card (dom (bmap d1 bucketLog)) < card ?K"
          using d1 card_Diff1_less [OF bolt_okD(1) [OF assms(1) op] k(1)] by metis
        have pos': "least_key (\<lambda>x. uint64ToBytes lo \<le> x) (dom (bmap d1 bucketLog)) (c_next bolt d1 bucketLog k)"
        proof -
          have eq: "k < x \<longleftrightarrow> uint64ToBytes lo \<le> x" if "x \<in> dom (bmap d1 bucketLog)" for x
          proof
            show "uint64ToBytes lo \<le> x" if "k < x" using k(2) that by simp
            show "k < x" if "uint64ToBytes lo \<le> x"
              using k(3) [OF _ that] \<open>x \<in> dom (bmap d1 bucketLog)\<close> d1 by (simp add: order_less_le) blast
          qed
          have "db_open bolt d1" using d1 by (simp add: bolt_inv_def)
          note nx = bolt_okD(8) [OF assms(1) this, of k bucketLog]
          show ?thesis by (rule least_key_cong [THEN iffD1, OF _ nx]) (rule eq)
        qed
        from less.hyps [OF smaller d1 [THEN conjunct1] pos'] obtain r where r: "delete_loop bolt hi d1 (c_next bolt d1 bucketLog k) = Some r"
          "\<forall>d'. r = Some d' \<longrightarrow> bolt_inv bolt bmap unmarshal d' \<and>
             bolt_abs bmap unmarshal d' = bolt_abs bmap unmarshal d1 |` (- {lo..hi})"
          by blast
        have "bolt_abs bmap unmarshal d1 |` (- {lo..hi}) = ?A |` (- {lo..hi})"
          using d1 lo False by (auto simp: restrict_map_def fun_eq_iff)
        moreover have "delete_loop bolt hi d pos = Some r"
          using \<open>pos = Some k\<close> i(3) False Some r(1) by (simp add: delete_loop.simps [of bolt hi d])
        ultimately show ?thesis using r(2) by auto
      qed
    qed
  qed
qed

section \<open>A concrete database\<close>

text \<open>Buckets as association lists, the cursor on the sorted keys; nothing fails.\<close>

type_synonym list_db = "string \<Rightarrow> (string \<times> string) list"

definition sorted_keys :: "list_db \<Rightarrow> string \<Rightarrow> string list" where
  "sorted_keys d bk = sort (map fst (d bk))"

definition list_bolt :: "list_db Bolt" where
  "list_bolt = \<lparr>db_open = (\<lambda>d. True), db_close = (\<lambda>d. d), b_create = (\<lambda>d bk. Some d), b_get = (\<lambda>d bk. map_of (d bk)),
     b_put = (\<lambda>d bk k v. Some (d(bk := AList.update k v (d bk)))),
     b_delete = (\<lambda>d bk k. Some (d(bk := AList.delete k (d bk)))),
     c_first = (\<lambda>d bk. find (\<lambda>x. True) (sorted_keys d bk)),
     c_last = (\<lambda>d bk. find (\<lambda>x. True) (rev (sorted_keys d bk))),
     c_seek = (\<lambda>d bk k. find (\<lambda>x. k \<le> x) (sorted_keys d bk)),
     c_next = (\<lambda>d bk k. find (\<lambda>x. k < x) (sorted_keys d bk)),
     commit_ok = (\<lambda>d. True)\<rparr>"

definition list_bmap :: "list_db \<Rightarrow> string \<Rightarrow> string \<rightharpoonup> string" where
  "list_bmap d bk = map_of (d bk)"

lemma find_sorted: "sorted ks \<Longrightarrow> set ks = K \<Longrightarrow> least_key P K (find P ks)"
proof (induction ks arbitrary: K)
  case (Cons k ks)
  then have "least_key P (set ks) (find P ks)" by simp
  with Cons.prems show ?case by (auto simp: least_key_def split: option.splits)
qed (simp add: least_key_def)

lemma find_rev_sorted: "sorted ks \<Longrightarrow> greatest_key (set ks) (find (\<lambda>x. True) (rev ks))"
  by (cases ks rule: rev_cases) (auto simp: greatest_key_def sorted_append)

lemma set_sorted_keys: "set (sorted_keys d bk) = dom (list_bmap d bk)" "sorted (sorted_keys d bk)"
  by (simp_all add: sorted_keys_def list_bmap_def dom_map_of_conv_image_fst)

lemma list_bolt_ok: "bolt_ok list_bolt list_bmap"
proof -
  have "greatest_key (dom (list_bmap d bk)) (find (\<lambda>x. True) (rev (sorted_keys d bk)))" for d bk
    using find_rev_sorted [OF set_sorted_keys(2), of d bk] by (simp add: set_sorted_keys(1))
  then show ?thesis
    using find_sorted [OF set_sorted_keys(2,1)]
    by (simp add: bolt_ok_def list_bolt_def)
      (simp add: list_bmap_def fun_eq_iff finite_dom_map_of update_conv' delete_conv')
qed

section \<open>BoltStore implements the interface\<close>

lemma bolt_log_store:
  assumes "bolt_ok bolt bmap" and "json_ok marshal unmarshal"
  shows "log_store (typed (bolt_log bolt marshal unmarshal)) (bolt_inv bolt bmap unmarshal) (bolt_abs bmap unmarshal)"
proof (unfold_locales, goal_cases)
  case (1 s)
  with bolt_finite [OF assms(1)] show ?case .
next
  case (2 s)
  then have "0 \<notin> dom (bolt_abs bmap unmarshal s)" using bolt_dom [of bolt bmap unmarshal s 0] by auto
  then show ?case by blast
next
  case (3 s)
  with bolt_last [OF assms(1)] show ?case by (simp add: typed_def bolt_log_def Let_def)
next
  case (4 s i e)
  then have op: "db_open bolt s" and i: "i < 2 ^ 64" and v: "map_option (fst \<circ> unmarshal) (bmap s bucketLog (uint64ToBytes i)) = Some e"
    by (auto simp: bolt_inv_def bolt_abs_def split: if_splits)
  then obtain v where v: "bmap s bucketLog (uint64ToBytes i) = Some v" "fst (unmarshal v) = e" by auto
  with 4(1) have "snd (unmarshal v) = None" by (simp add: bolt_inv_def)
  with op i v bolt_okD(2) [OF assms(1) op] show ?case
    by (auto simp: typed_def bolt_log_def Let_def bolt_GetLog_def split: prod.splits)
next
  case (5 s i)
  then have op: "db_open bolt s" by (simp add: bolt_inv_def)
  from 5(2) bolt_okD(2) [OF assms(1) op] op show ?case
    by (simp add: typed_def bolt_log_def Let_def bolt_GetLog_def bolt_abs_def split: if_splits)
next
  case (6 s e)
  show ?case by (simp add: typed_def Let_def)
next
  case (7 s es s' err)
  show ?case
  proof (cases "list_all entry_fits es \<and> err = None")
    case True
    with 7(3) have "put_logs bolt marshal es s = Some s'"
      by (auto simp: typed_def bolt_log_def Let_def bolt_StoreLogs_def db_Update_def split: if_splits option.splits)
    with bolt_put_logs [OF assms 7(1,2)] True show ?thesis by simp
  next
    case False
    with 7(3) have "s' = s \<and> err \<noteq> None"
      by (auto simp: typed_def bolt_log_def Let_def bolt_StoreLogs_def db_Update_def split: if_splits option.splits)
    with 7(1) show ?thesis by auto
  qed
next
  case (8 s hi lo)
  show ?case
  proof (cases "lo < 2 ^ 64")
    case True
    have op: "db_open bolt s" using 8(1) by (simp add: bolt_inv_def)
    have "hi < 2 ^ 64" using 8(2) by simp
    from bolt_delete_loop [OF assms(1) True this 8(1) bolt_okD(7) [OF assms(1) op]]
    obtain r where "delete_loop bolt hi s (c_seek bolt s bucketLog (uint64ToBytes lo)) = Some r"
      "\<And>d'. r = Some d' \<Longrightarrow> bolt_inv bolt bmap unmarshal d' \<and> bolt_abs bmap unmarshal d' = bolt_abs bmap unmarshal s |` (- {lo..hi})"
      by blast
    with op True 8(1) show ?thesis
      by (cases r) (auto simp: typed_def bolt_log_def Let_def bolt_DeleteRange_def)
  next
    case False
    have "bolt_abs bmap unmarshal s |` (- {lo..hi}) = bolt_abs bmap unmarshal s"
      using False 8(2) by (auto simp: restrict_map_def fun_eq_iff)
    with False 8(1) show ?thesis by (simp add: typed_def Let_def)
  qed
qed

text \<open>The database holds the log \<open>L\<close>, without gaps.\<close>

definition bolt_holds ::
    "'d Bolt \<Rightarrow> ('d \<Rightarrow> string \<Rightarrow> string \<rightharpoonup> string) \<Rightarrow> (string \<Rightarrow> LogEntry \<times> store_error option) \<Rightarrow> 'd \<Rightarrow> LogEntry list \<Rightarrow> bool" where
  "bolt_holds bolt bmap unmarshal d L \<longleftrightarrow>
     bolt_inv bolt bmap unmarshal d \<and> represents (bolt_abs bmap unmarshal d) L"

lemma bolt_holds_eq:
  assumes "bolt_ok bolt bmap" and "json_ok marshal unmarshal"
  shows "log_store.holds (bolt_inv bolt bmap unmarshal) (bolt_abs bmap unmarshal) d L = bolt_holds bolt bmap unmarshal d L"
  using log_store.holds_def [OF bolt_log_store [OF assms]] by (simp add: bolt_holds_def)

section \<open>Properties\<close>

text \<open>
  The stable store of BoltStore gives back what was stored: after a \<^verbatim>\<open>SetUint64\<close> that reports
  success, \<^verbatim>\<open>GetUint64\<close> returns the number and every other key and the whole log are as before; one
  that reports an error has changed nothing.
\<close>

theorem bolt_SetUint64_roundtrip:
  assumes "bolt_ok bolt bmap" and "db_open bolt d" and "v < 2 ^ 64" and "bolt_SetUint64 bolt d key v = (d', err)"
  shows "if err = None
    then bolt_GetUint64 bolt d' key = Ok v \<and> (\<forall>other. other \<noteq> key \<longrightarrow> bolt_Get bolt d' other = bolt_Get bolt d other) \<and>
      bolt_abs bmap unmarshal d' = bolt_abs bmap unmarshal d
    else d' = d"
proof (cases "err = None")
  case True
  with assms(4) have "b_put bolt d bucketStable key (uint64ToBytes v) = Some d'"
    by (auto simp: bolt_SetUint64_def bolt_Set_def db_Update_def split: if_splits option.splits)
  from bolt_okD(3) [OF assms(1,2) this] have d': "db_open bolt d'"
    "bmap d' = (bmap d)(bucketStable := (bmap d bucketStable)(key \<mapsto> uint64ToBytes v))" by auto
  have get: "b_get bolt d' bucketStable = (bmap d bucketStable)(key \<mapsto> uint64ToBytes v)"
    using bolt_okD(2) [OF assms(1) d'(1)] d'(2) by simp
  have "bolt_GetUint64 bolt d' key = Ok v"
    using get d'(1) bytesToUint64_uint64ToBytes [OF assms(3)]
    by (simp add: bolt_GetUint64_def bolt_Get_def)
  moreover have "bolt_Get bolt d' other = bolt_Get bolt d other" if "other \<noteq> key" for other
    using get d'(1) assms(2) bolt_okD(2) [OF assms(1,2)] that by (simp add: bolt_Get_def)
  moreover have "bmap d' bucketLog = bmap d bucketLog" using d'(2) by (simp add: bucketLog_def bucketStable_def)
  then have "bolt_abs bmap unmarshal d' = bolt_abs bmap unmarshal d" by (simp add: bolt_abs_def fun_eq_iff)
  ultimately show ?thesis using True by simp
next
  case False
  with assms(4) show ?thesis
    by (auto simp: bolt_SetUint64_def bolt_Set_def db_Update_def split: if_splits option.splits)
qed

theorem bolt_SetUint64_roundtrip_witness:
  "bolt_GetUint64 list_bolt (fst (bolt_SetUint64 list_bolt (\<lambda>_. []) KeyCurrentTerm 7)) KeyCurrentTerm = Ok 7"
proof -
  have ok: "snd (bolt_SetUint64 list_bolt (\<lambda>_. []) KeyCurrentTerm 7) = None"
    by (simp add: bolt_SetUint64_def bolt_Set_def db_Update_def list_bolt_def)
  have "db_open list_bolt (\<lambda>_. [])" by (simp add: list_bolt_def)
  from bolt_SetUint64_roundtrip [OF list_bolt_ok this, of 7 KeyCurrentTerm _ _ undefined, OF _ surjective_pairing] ok
  show ?thesis by simp
qed

text \<open>
  While the database is open and its writes succeed, BoltStore is also the stable store that Raft
  relies on. A write that fails is only logged (\<^verbatim>\<open>persistState\<close>), and a vote that was not stored can be
  given again after a restart.
\<close>

definition bolt_reliable :: "'d Bolt \<Rightarrow> bool" where
  "bolt_reliable bolt \<longleftrightarrow>
     (\<forall>d. db_open bolt d \<and> commit_ok bolt d \<and> (\<forall>k v. b_put bolt d bucketStable k v \<noteq> None))"

lemma bolt_stable_store:
  assumes "bolt_ok bolt bmap" and "bolt_reliable bolt"
  shows "stable_store (bolt_stable bolt)"
proof -
  have opn: "db_open bolt d" for d using assms(2) by (simp add: bolt_reliable_def)
  have put: "\<exists>d'. b_put bolt d bucketStable k v = Some d' \<and> bolt_Set bolt d k v = (d', None) \<and>
      b_get bolt d' bucketStable = (b_get bolt d bucketStable)(k \<mapsto> v)" for d k v
  proof -
    obtain d' where d': "b_put bolt d bucketStable k v = Some d'"
      using assms(2) unfolding bolt_reliable_def by blast
    from bolt_okD(3) [OF assms(1) opn d'] have "b_get bolt d' bucketStable = (b_get bolt d bucketStable)(k \<mapsto> v)"
      using bolt_okD(2) [OF assms(1) opn] by simp
    with d' assms(2) show ?thesis by (simp add: bolt_Set_def db_Update_def bolt_reliable_def)
  qed
  have set: "snd (bolt_Set bolt d k v) = None" "bolt_Get bolt (fst (bolt_Set bolt d k v)) k = (v, None)"
    "k' \<noteq> k \<Longrightarrow> bolt_Get bolt (fst (bolt_Set bolt d k v)) k' = bolt_Get bolt d k'" for d k k' v
    using put [of d k v] opn by (auto simp: bolt_Get_def)
  show ?thesis
  proof
    fix s k k' v and n :: nat
    show "snd (Set (bolt_stable bolt) s k v) = None" "snd (SetUint64 (bolt_stable bolt) s k n) = None"
      "Get (bolt_stable bolt) (fst (Set (bolt_stable bolt) s k v)) k = (v, None)"
      by (simp_all add: bolt_stable_def bolt_SetUint64_def set)
    show "k' \<noteq> k \<Longrightarrow> GetUint64 (bolt_stable bolt) (fst (Set (bolt_stable bolt) s k v)) k' = GetUint64 (bolt_stable bolt) s k'"
      by (simp add: bolt_stable_def bolt_GetUint64_def set)
    show "n < 2 ^ 64 \<Longrightarrow> GetUint64 (bolt_stable bolt) (fst (SetUint64 (bolt_stable bolt) s k n)) k = Ok n"
      by (simp add: bolt_stable_def bolt_GetUint64_def bolt_SetUint64_def set bytesToUint64_uint64ToBytes)
  qed
qed

lemma list_bolt_reliable: "bolt_reliable list_bolt"
  by (simp add: bolt_reliable_def list_bolt_def)

interpretation list_kv: stable_store "bolt_stable list_bolt"
  by (rule bolt_stable_store [OF list_bolt_ok list_bolt_reliable])

end
