(* ===== verification/Wire_Raft.thy ===== *)
theory Wire_Raft
  imports Go_Decode Raft_Transport Bolt_Store
begin

text \<open>
  The JSON form of Raft's messages and log entries: the struct tags of \<^verbatim>\<open>raft/types.go\<close>, the codec
  behind \<^verbatim>\<open>raft/transport.go\<close> and the one behind \<^verbatim>\<open>store/boltstore.go\<close>. With them an RPC over
  TCP is a call of the handler, and a BoltStore database holds the log, without an assumption
  about \<^verbatim>\<open>encoding/json\<close>.
\<close>

section \<open>Log entries\<close>

text \<open>The fields have no tags; a nil \<^verbatim>\<open>[]byte\<close>, the no-op, is written as \<^verbatim>\<open>null\<close>.\<close>

definition enc_LogEntry :: "LogEntry \<Rightarrow> json" where
  "enc_LogEntry e =
     JObj [(''Index'', JNum (show_nat (Index e))), (''Term'', JNum (show_nat (Term e))),
           (''Data'', if Data e = [] then JNull else JStr (b64_encode (Data e)))]"

definition dec_LogEntry :: "LogEntry decoder" where
  "dec_LogEntry = dec_struct [''Index'', ''Term'', ''Data'']
     (\<lambda>k v e.
        if k = ''Index'' then into dec_uint (Index e) (\<lambda>n. e\<lparr>Index := n\<rparr>) v
        else if k = ''Term'' then into dec_uint (Term e) (\<lambda>n. e\<lparr>Term := n\<rparr>) v
        else into dec_bytes (Data e) (\<lambda>d. e\<lparr>Data := d\<rparr>) v)"

definition marshal_LogEntry :: "LogEntry \<Rightarrow> string option" where
  "marshal_LogEntry e = Some (print (enc_LogEntry e))"

definition unmarshal_LogEntry :: "string \<Rightarrow> LogEntry \<times> store_error option" where
  "unmarshal_LogEntry b =
     (let (out, ok) = Unmarshal dec_LogEntry b zeroEntry
      in (out, if ok then None else Some (ErrStoreFailed ''json'')))"

section \<open>RPCs\<close>

definition enc_AppendEntriesRequest :: "AppendEntriesRequest \<Rightarrow> json" where
  "enc_AppendEntriesRequest r =
     JObj [(''term'', JNum (show_nat (ae_Term r))), (''leader_id'', JStr (ae_LeaderID r)),
           (''prev_log_index'', JNum (show_nat (ae_PrevLogIndex r))),
           (''prev_log_term'', JNum (show_nat (ae_PrevLogTerm r))),
           (''entries'', if ae_Entries r = [] then JNull else JArr (map enc_LogEntry (ae_Entries r))),
           (''leader_commit'', JNum (show_nat (ae_LeaderCommit r)))]"

definition zero_AppendEntriesRequest :: AppendEntriesRequest where
  "zero_AppendEntriesRequest = \<lparr>ae_Term = 0, ae_LeaderID = [], ae_PrevLogIndex = 0, ae_PrevLogTerm = 0,
     ae_Entries = [], ae_LeaderCommit = 0\<rparr>"

definition dec_AppendEntriesRequest :: "AppendEntriesRequest decoder" where
  "dec_AppendEntriesRequest =
     dec_struct [''term'', ''leader_id'', ''prev_log_index'', ''prev_log_term'', ''entries'', ''leader_commit'']
     (\<lambda>k v r.
        if k = ''term'' then into dec_uint (ae_Term r) (\<lambda>n. r\<lparr>ae_Term := n\<rparr>) v
        else if k = ''leader_id'' then into dec_string (ae_LeaderID r) (\<lambda>s. r\<lparr>ae_LeaderID := s\<rparr>) v
        else if k = ''prev_log_index'' then into dec_uint (ae_PrevLogIndex r) (\<lambda>n. r\<lparr>ae_PrevLogIndex := n\<rparr>) v
        else if k = ''prev_log_term'' then into dec_uint (ae_PrevLogTerm r) (\<lambda>n. r\<lparr>ae_PrevLogTerm := n\<rparr>) v
        else if k = ''entries'' then into (dec_slice dec_LogEntry zeroEntry) (ae_Entries r) (\<lambda>es. r\<lparr>ae_Entries := es\<rparr>) v
        else into dec_uint (ae_LeaderCommit r) (\<lambda>n. r\<lparr>ae_LeaderCommit := n\<rparr>) v)"

definition enc_AppendEntriesResponse :: "AppendEntriesResponse \<Rightarrow> json" where
  "enc_AppendEntriesResponse r =
     JObj [(''term'', JNum (show_nat (aer_Term r))), (''success'', JBool (aer_Success r)),
           (''conflict_term'', JNum (show_nat (aer_ConflictTerm r))),
           (''conflict_index'', JNum (show_nat (aer_ConflictIndex r)))]"

definition zero_AppendEntriesResponse :: AppendEntriesResponse where
  "zero_AppendEntriesResponse = \<lparr>aer_Term = 0, aer_Success = False, aer_ConflictTerm = 0, aer_ConflictIndex = 0\<rparr>"

definition dec_AppendEntriesReply :: "AppendEntriesResponse decoder" where
  "dec_AppendEntriesReply = dec_struct [''term'', ''success'', ''conflict_term'', ''conflict_index'']
     (\<lambda>k v r.
        if k = ''term'' then into dec_uint (aer_Term r) (\<lambda>n. r\<lparr>aer_Term := n\<rparr>) v
        else if k = ''success'' then into dec_bool (aer_Success r) (\<lambda>b. r\<lparr>aer_Success := b\<rparr>) v
        else if k = ''conflict_term'' then into dec_uint (aer_ConflictTerm r) (\<lambda>n. r\<lparr>aer_ConflictTerm := n\<rparr>) v
        else into dec_uint (aer_ConflictIndex r) (\<lambda>n. r\<lparr>aer_ConflictIndex := n\<rparr>) v)"

definition enc_RequestVoteRequest :: "RequestVoteRequest \<Rightarrow> json" where
  "enc_RequestVoteRequest r =
     JObj [(''term'', JNum (show_nat (rv_Term r))), (''candidate_id'', JStr (rv_CandidateID r)),
           (''last_log_index'', JNum (show_nat (rv_LastLogIndex r))),
           (''last_log_term'', JNum (show_nat (rv_LastLogTerm r)))]"

definition zero_RequestVoteRequest :: RequestVoteRequest where
  "zero_RequestVoteRequest = \<lparr>rv_Term = 0, rv_CandidateID = [], rv_LastLogIndex = 0, rv_LastLogTerm = 0\<rparr>"

definition dec_RequestVoteRequest :: "RequestVoteRequest decoder" where
  "dec_RequestVoteRequest = dec_struct [''term'', ''candidate_id'', ''last_log_index'', ''last_log_term'']
     (\<lambda>k v r.
        if k = ''term'' then into dec_uint (rv_Term r) (\<lambda>n. r\<lparr>rv_Term := n\<rparr>) v
        else if k = ''candidate_id'' then into dec_string (rv_CandidateID r) (\<lambda>s. r\<lparr>rv_CandidateID := s\<rparr>) v
        else if k = ''last_log_index'' then into dec_uint (rv_LastLogIndex r) (\<lambda>n. r\<lparr>rv_LastLogIndex := n\<rparr>) v
        else into dec_uint (rv_LastLogTerm r) (\<lambda>n. r\<lparr>rv_LastLogTerm := n\<rparr>) v)"

definition enc_RequestVoteResponse :: "RequestVoteResponse \<Rightarrow> json" where
  "enc_RequestVoteResponse r =
     JObj [(''term'', JNum (show_nat (rvr_Term r))), (''vote_granted'', JBool (rvr_VoteGranted r))]"

definition zero_RequestVoteResponse :: RequestVoteResponse where
  "zero_RequestVoteResponse = \<lparr>rvr_Term = 0, rvr_VoteGranted = False\<rparr>"

definition dec_RequestVoteReply :: "RequestVoteResponse decoder" where
  "dec_RequestVoteReply = dec_struct [''term'', ''vote_granted'']
     (\<lambda>k v r.
        if k = ''term'' then into dec_uint (rvr_Term r) (\<lambda>n. r\<lparr>rvr_Term := n\<rparr>) v
        else into dec_bool (rvr_VoteGranted r) (\<lambda>b. r\<lparr>rvr_VoteGranted := b\<rparr>) v)"

text \<open>The transport writes \<^verbatim>\<open>rpcResp.Response\<close>, which is nil beside an error.\<close>

fun enc_RPCResponse :: "RPCResponse \<Rightarrow> json" where
  "enc_RPCResponse (AppendEntriesReply r) = enc_AppendEntriesResponse r"
| "enc_RPCResponse (RequestVoteReply r) = enc_RequestVoteResponse r"
| "enc_RPCResponse UnknownRPCType = JNull"

definition go_codec :: Codec where
  "go_codec = \<lparr>enc_AppendEntries = (\<lambda>r. Some (print (enc_AppendEntriesRequest r))),
     dec_AppendEntries = (\<lambda>b. decoded (Unmarshal dec_AppendEntriesRequest b zero_AppendEntriesRequest)),
     enc_RequestVote = (\<lambda>r. Some (print (enc_RequestVoteRequest r))),
     dec_RequestVote = (\<lambda>b. decoded (Unmarshal dec_RequestVoteRequest b zero_RequestVoteRequest)),
     enc_Response = (\<lambda>r. Some (print (enc_RPCResponse r))),
     dec_AppendEntriesResponse = (\<lambda>b. decoded (Unmarshal dec_AppendEntriesReply b zero_AppendEntriesResponse)),
     dec_RequestVoteResponse = (\<lambda>b. decoded (Unmarshal dec_RequestVoteReply b zero_RequestVoteResponse))\<rparr>"

section \<open>Values of the Go types\<close>

definition append_fits :: "AppendEntriesRequest \<Rightarrow> bool" where
  "append_fits r \<longleftrightarrow> ae_Term r < 2 ^ 64 \<and> valid_utf8 (ae_LeaderID r) \<and> ae_PrevLogIndex r < 2 ^ 64 \<and>
     ae_PrevLogTerm r < 2 ^ 64 \<and> list_all entry_fits (ae_Entries r) \<and> ae_LeaderCommit r < 2 ^ 64"

definition append_reply_fits :: "AppendEntriesResponse \<Rightarrow> bool" where
  "append_reply_fits r \<longleftrightarrow> aer_Term r < 2 ^ 64 \<and> aer_ConflictTerm r < 2 ^ 64 \<and> aer_ConflictIndex r < 2 ^ 64"

definition vote_fits :: "RequestVoteRequest \<Rightarrow> bool" where
  "vote_fits r \<longleftrightarrow> rv_Term r < 2 ^ 64 \<and> valid_utf8 (rv_CandidateID r) \<and> rv_LastLogIndex r < 2 ^ 64 \<and>
     rv_LastLogTerm r < 2 ^ 64"

section \<open>Round trips\<close>

lemma valid_utf8_raft_keys [simp]:
  "valid_utf8 ''Index''" "valid_utf8 ''Term''" "valid_utf8 ''Data''" "valid_utf8 ''term''" "valid_utf8 ''leader_id''"
  "valid_utf8 ''prev_log_index''" "valid_utf8 ''prev_log_term''" "valid_utf8 ''entries''" "valid_utf8 ''leader_commit''"
  "valid_utf8 ''success''" "valid_utf8 ''conflict_term''" "valid_utf8 ''conflict_index''" "valid_utf8 ''candidate_id''"
  "valid_utf8 ''last_log_index''" "valid_utf8 ''last_log_term''" "valid_utf8 ''vote_granted''"
  by (rule ascii_valid_utf8, simp)+

lemmas raft_struct_simps = dec_struct_def into_def field_exact dec_basic Let_def

lemma coerce_LogEntry [simp]: "coerce (enc_LogEntry e) = enc_LogEntry e"
  by (simp add: enc_LogEntry_def b64_valid_utf8)

lemma dec_enc_LogEntry: "entry_fits e \<Longrightarrow> dec_LogEntry (enc_LogEntry e) zeroEntry = (e, True)"
  by (cases e) (simp add: dec_LogEntry_def enc_LogEntry_def zeroEntry_def entry_fits_def raft_struct_simps)

lemma fits_LogEntry: "fits 1 (enc_LogEntry e)"
  by (simp add: enc_LogEntry_def show_nat_literal)

lemma Unmarshal_enc:
  assumes "fits m v" and "m \<le> 10000" and "coerce v = v" and "dec v zero = (x, True)"
  shows "Unmarshal dec (print v) zero = (x, True)"
  using Unmarshal_print [OF fits_mono [OF assms(1,2)], of dec zero] assms(3,4) by simp

lemma log_json_ok: "json_ok marshal_LogEntry unmarshal_LogEntry"
proof -
  have "Unmarshal dec_LogEntry (print (enc_LogEntry e)) zeroEntry = (e, True)" if "entry_fits e" for e
    by (rule Unmarshal_enc [where m = 1]) (use that in \<open>simp_all add: fits_LogEntry [simplified] dec_enc_LogEntry\<close>)
  then show ?thesis by (auto simp: json_ok_def marshal_LogEntry_def unmarshal_LogEntry_def)
qed

lemma append_roundtrip:
  assumes "append_fits r"
  shows "dec_AppendEntries go_codec (print (enc_AppendEntriesRequest r)) = Some r"
proof -
  have es: "dec_slice dec_LogEntry zeroEntry (JArr (map enc_LogEntry (ae_Entries r))) [] = (ae_Entries r, True)"
    using assms by (intro dec_slice_map) (auto simp: append_fits_def list_all_iff dec_enc_LogEntry)
  have null: "dec_slice dec_LogEntry zeroEntry JNull [] = ([], True)" by (simp add: dec_slice_def)
  have "dec_AppendEntriesRequest (enc_AppendEntriesRequest r) zero_AppendEntriesRequest = (r, True)"
    using assms es null
    by (cases r) (simp add: dec_AppendEntriesRequest_def enc_AppendEntriesRequest_def zero_AppendEntriesRequest_def
        append_fits_def raft_struct_simps)
  moreover have "fits 3 (enc_AppendEntriesRequest r)"
    using fits_LogEntry by (simp add: enc_AppendEntriesRequest_def show_nat_literal)
  moreover have "coerce (enc_AppendEntriesRequest r) = enc_AppendEntriesRequest r"
    using assms by (simp add: enc_AppendEntriesRequest_def append_fits_def)
  ultimately show ?thesis by (simp add: go_codec_def decoded_def Unmarshal_enc)
qed

lemma append_reply_roundtrip:
  assumes "append_reply_fits r"
  shows "dec_AppendEntriesResponse go_codec (print (enc_RPCResponse (AppendEntriesReply r))) = Some r"
proof -
  have "dec_AppendEntriesReply (enc_AppendEntriesResponse r) zero_AppendEntriesResponse = (r, True)"
    using assms by (cases r) (simp add: dec_AppendEntriesReply_def enc_AppendEntriesResponse_def
        zero_AppendEntriesResponse_def append_reply_fits_def raft_struct_simps)
  moreover have "fits 1 (enc_AppendEntriesResponse r)" "coerce (enc_AppendEntriesResponse r) = enc_AppendEntriesResponse r"
    by (simp_all add: enc_AppendEntriesResponse_def show_nat_literal)
  ultimately show ?thesis by (simp add: go_codec_def decoded_def Unmarshal_enc)
qed

lemma vote_roundtrip:
  assumes "vote_fits r"
  shows "dec_RequestVote go_codec (print (enc_RequestVoteRequest r)) = Some r"
proof -
  have "dec_RequestVoteRequest (enc_RequestVoteRequest r) zero_RequestVoteRequest = (r, True)"
    using assms by (cases r) (simp add: dec_RequestVoteRequest_def enc_RequestVoteRequest_def
        zero_RequestVoteRequest_def vote_fits_def raft_struct_simps)
  moreover have "fits 1 (enc_RequestVoteRequest r)" "coerce (enc_RequestVoteRequest r) = enc_RequestVoteRequest r"
    using assms by (simp_all add: enc_RequestVoteRequest_def show_nat_literal vote_fits_def)
  ultimately show ?thesis by (simp add: go_codec_def decoded_def Unmarshal_enc)
qed

lemma vote_reply_roundtrip:
  assumes "rvr_Term r < 2 ^ 64"
  shows "dec_RequestVoteResponse go_codec (print (enc_RPCResponse (RequestVoteReply r))) = Some r"
proof -
  have "dec_RequestVoteReply (enc_RequestVoteResponse r) zero_RequestVoteResponse = (r, True)"
    using assms by (cases r) (simp add: dec_RequestVoteReply_def enc_RequestVoteResponse_def
        zero_RequestVoteResponse_def raft_struct_simps)
  moreover have "fits 1 (enc_RequestVoteResponse r)" "coerce (enc_RequestVoteResponse r) = enc_RequestVoteResponse r"
    by (simp_all add: enc_RequestVoteResponse_def show_nat_literal)
  ultimately show ?thesis by (simp add: go_codec_def decoded_def Unmarshal_enc)
qed

section \<open>The size of an answer\<close>

lemma append_reply_short:
  assumes "append_reply_fits r"
  shows "length (print (enc_RPCResponse (AppendEntriesReply r))) \<le> max_payload"
proof -
  have "length (show_nat (aer_Term r)) \<le> 20" "length (show_nat (aer_ConflictTerm r)) \<le> 20"
    "length (show_nat (aer_ConflictIndex r)) \<le> 20"
    using assms by (auto simp: append_reply_fits_def intro!: length_show_uint)
  then show ?thesis by (simp add: enc_AppendEntriesResponse_def quote_plain plain_def max_payload_def)
qed

lemma vote_reply_short:
  assumes "rvr_Term r < 2 ^ 64"
  shows "length (print (enc_RPCResponse (RequestVoteReply r))) \<le> max_payload"
  using length_show_uint [OF assms] by (simp add: enc_RequestVoteResponse_def quote_plain plain_def max_payload_def)

section \<open>Properties\<close>

text \<open>
  C23. An RPC over TCP is a call of the handler. The request goes through \<^verbatim>\<open>json.Marshal\<close>, the frame,
  the connection loop of the other node and \<^verbatim>\<open>json.Unmarshal\<close>, the answer the same way back:
  \<^verbatim>\<open>SendAppendEntries\<close> and \<^verbatim>\<open>SendRequestVote\<close> return exactly what \<^verbatim>\<open>handleAppendEntries\<close> and
  \<^verbatim>\<open>handleRequestVote\<close> of that node returned, and the handler has run once, on exactly the
  request. The terms and indices are 64-bit numbers, the ids are valid UTF-8 and the requests at most
  10 MiB long.
\<close>

theorem tcp_rpc_is_handler_call:
  assumes "append_fits req" and "length (print (enc_AppendEntriesRequest req)) \<le> max_payload"
    and "handleAppendEntries lops sops r req = Some (r1, resp, reset)" and "append_reply_fits resp"
    and "vote_fits vreq" and "length (print (enc_RequestVoteRequest vreq)) \<le> max_payload"
    and "handleRequestVote lops sops r vreq = (r2, vresp, vreset)" and "rvr_Term vresp < 2 ^ 64"
  shows "SendAppendEntries go_codec (Connected True) (served go_codec (node_serve lops sops) r) req = Inr resp \<and>
    snd (handleConnection go_codec (node_serve lops sops)
      \<lparr>rx = frame msgAppendEntriesReq (print (enc_AppendEntriesRequest req)), tx = [], write_ok = True\<rparr> r) = r1 \<and>
    SendRequestVote go_codec (Connected True) (served go_codec (node_serve lops sops) r) vreq = Inr vresp \<and>
    snd (handleConnection go_codec (node_serve lops sops)
      \<lparr>rx = frame msgRequestVoteReq (print (enc_RequestVoteRequest vreq)), tx = [], write_ok = True\<rparr> r) = r2"
proof -
  have c: "enc_AppendEntries go_codec req = Some (print (enc_AppendEntriesRequest req))"
    "enc_RequestVote go_codec vreq = Some (print (enc_RequestVoteRequest vreq))"
    "enc_Response go_codec rep = Some (print (enc_RPCResponse rep))" for rep
    by (simp_all add: go_codec_def)
  note append = SendAppendEntries_call [OF c(1) append_roundtrip [OF assms(1)] c(3) append_reply_roundtrip [OF assms(4)]
      assms(2) append_reply_short [OF assms(4)] assms(3)]
  note vote = SendRequestVote_call [OF c(2) vote_roundtrip [OF assms(5)] c(3) vote_reply_roundtrip [OF assms(8)]
      assms(6) vote_reply_short [OF assms(8)] assms(7)]
  from append vote
  show ?thesis by simp
qed

theorem tcp_rpc_is_handler_call_witness:
  "SendAppendEntries go_codec (Connected True)
     (served go_codec (node_serve inmem_log inmem_stable) (ex_node ''b'' [] 3 Follower)) ex_append = Inr ex_append_ok"
proof -
  let ?r = "ex_node ''b'' [] 3 Follower"
  have "\<exists>r'. handleAppendEntries inmem_log inmem_stable ?r ex_append = Some (r', ex_append_ok, True)"
    by (simp add: handleAppendEntries_def ex_append_def ex_append_ok_def ex_node_def prev_conflict_def accept_leader_def
        follower_commit_def)
  then obtain r1 where h: "handleAppendEntries inmem_log inmem_stable ?r ex_append = Some (r1, ex_append_ok, True)" ..
  let ?v = "\<lparr>rv_Term = 2, rv_CandidateID = ''c'', rv_LastLogIndex = 0, rv_LastLogTerm = 0\<rparr>"
  have v: "handleRequestVote inmem_log inmem_stable ?r ?v = (?r, \<lparr>rvr_Term = 3, rvr_VoteGranted = False\<rparr>, False)"
    by (simp add: handleRequestVote_def ex_node_def)
  have ascii: "valid_utf8 ''a''" "valid_utf8 ''c''" by (rule ascii_valid_utf8, simp)+
  have "append_fits ex_append" "append_reply_fits ex_append_ok" "vote_fits ?v"
    by (simp_all add: append_fits_def append_reply_fits_def vote_fits_def ex_append_def ex_append_ok_def ascii)
  moreover have "length (print (enc_AppendEntriesRequest ex_append)) \<le> max_payload"
    "length (print (enc_RequestVoteRequest ?v)) \<le> max_payload"
    by (simp_all add: enc_AppendEntriesRequest_def enc_RequestVoteRequest_def ex_append_def quote_plain plain_def
        show_nat.simps max_payload_def)
  ultimately show ?thesis
    using tcp_rpc_is_handler_call [of ex_append inmem_log inmem_stable ?r r1 ex_append_ok True ?v _ _ False] h v by simp
qed



interpretation json_log: log_store "typed (bolt_log list_bolt marshal_LogEntry unmarshal_LogEntry)"
    "bolt_inv list_bolt list_bmap unmarshal_LogEntry" "bolt_abs list_bmap unmarshal_LogEntry"
  by (rule bolt_log_store [OF list_bolt_ok log_json_ok])

end
