(* ===== verification/OT_Compose.thy ===== *)
theory OT_Compose
  imports OT_Cursor
begin

text \<open>
  \<^verbatim>\<open>Compose\<close> of \<^verbatim>\<open>internal/ot/compose.go\<close>: the cursor loop as it is written, a
  reference definition on lists of edits, the refinement between the two, and the
  correctness of composition.
\<close>

section \<open>The program\<close>

definition has_type :: "Op option \<Rightarrow> OpType \<Rightarrow> bool" where
  "has_type p t = (case p of None \<Rightarrow> False | Some op \<Rightarrow> op_Type op = t)"

text \<open>
  The final \<^verbatim>\<open>switch\<close> of the loop body. \<open>None\<close> is the panic of the slice expression
  \<^verbatim>\<open>aOp.Chars[:n]\<close> on a negative \<^verbatim>\<open>n\<close>.
\<close>

definition compose_emit :: "Op list \<Rightarrow> Op \<Rightarrow> Op \<Rightarrow> int \<Rightarrow> Op list option" where
  "compose_emit res aOp bOp n =
     (if op_Type aOp = OpRetain \<and> op_Type bOp = OpRetain then Some (addOp res (retainOp n))
      else if op_Type aOp = OpRetain \<and> op_Type bOp = OpDelete then Some (addOp res (deleteOp n))
      else if op_Type aOp = OpInsert \<and> op_Type bOp = OpRetain then
        map_option (\<lambda>s. addOp res (insertOp s)) (go_slice (op_Chars aOp) 0 n)
      else Some res)"

text \<open>
  The \<^verbatim>\<open>for\<close> loop. It need not end (an empty insert or a length of 0 makes no
  progress), so its result is an \<open>option\<close>.
\<close>

partial_function (option) compose_loop ::
    "Op list \<Rightarrow> opSlice \<Rightarrow> opSlice \<Rightarrow> (unit, Op list) go_result option" where
  "compose_loop res aSlice bSlice =
     (let bOp = peek bSlice; aOp = peek aSlice in
      if bOp = None \<and> aOp = None then Some (Ok res)
      else if has_type bOp OpInsert then
        compose_loop (addOp res (insertOp (op_Chars (the bOp)))) aSlice
          (consume bSlice (go_len (op_Chars (the bOp))))
      else if has_type aOp OpDelete then
        compose_loop (addOp res (deleteOp (op_Len (the aOp))))
          (consume aSlice (op_Len (the aOp))) bSlice
      else if aOp = None \<or> bOp = None then Some (Ok res)
      else
        let aLen = (if op_Type (the aOp) = OpInsert then go_len (op_Chars (the aOp))
                    else op_Len (the aOp));
            bLen = op_Len (the bOp);
            n = (if bLen < aLen then bLen else aLen)
        in case compose_emit res (the aOp) (the bOp) n of
             None \<Rightarrow> Some Panic
           | Some res' \<Rightarrow> compose_loop res' (consume aSlice n) (consume bSlice n))"

text \<open>\<^verbatim>\<open>Compose\<close> never returns a non-nil error.\<close>

definition Compose :: "Changeset \<Rightarrow> Changeset \<Rightarrow> (unit, Changeset) go_result option" where
  "Compose A B =
     map_option
       (\<lambda>r. case r of
          Ok ops \<Rightarrow> Ok \<lparr>OldLen = OldLen A, NewLen = NewLen B, Ops = ops\<rparr>
        | Err e \<Rightarrow> Err e
        | Panic \<Rightarrow> Panic)
       (compose_loop [] (newSlice (Ops A)) (newSlice (Ops B)))"

section \<open>Reference definition\<close>

function (sequential) compose_ref :: "edit list \<Rightarrow> edit list \<Rightarrow> edit list" where
  "compose_ref as (Ins s # bs) = Ins s # compose_ref as bs"
| "compose_ref (Del n # as) bs = Del n # compose_ref as bs"
| "compose_ref (Keep m # as) (Keep n # bs) =
     Keep (min m n) #
       compose_ref (eat (min m n) (Keep m # as)) (eat (min m n) (Keep n # bs))"
| "compose_ref (Keep m # as) (Del n # bs) =
     Del (min m n) #
       compose_ref (eat (min m n) (Keep m # as)) (eat (min m n) (Del n # bs))"
| "compose_ref (Ins s # as) (Keep n # bs) =
     Ins (take (min (length s) n) s) #
       compose_ref (eat (min (length s) n) (Ins s # as)) (eat (min (length s) n) (Keep n # bs))"
| "compose_ref (Ins s # as) (Del n # bs) =
     compose_ref (eat (min (length s) n) (Ins s # as)) (eat (min (length s) n) (Del n # bs))"
| "compose_ref _ _ = []"
  by pat_completeness auto
termination
  by (relation "measure (\<lambda>(as, bs). length as + length bs)")
    (auto simp: eat_Cons min_def)

section \<open>Correctness of the reference\<close>

lemma compose_ref_proper:
  "list_all proper as \<Longrightarrow> list_all proper bs \<Longrightarrow> list_all proper (compose_ref as bs)"
  by (induction as bs rule: compose_ref.induct) (auto simp: eat_Cons min_def)

lemma apply_compose_ref:
  "list_all proper as \<Longrightarrow> list_all proper bs \<Longrightarrow>
   dst_len as = src_len bs \<Longrightarrow> length doc = src_len as \<Longrightarrow>
   apply_edits (compose_ref as bs) doc = Option.bind (apply_edits as doc) (apply_edits bs)"
proof (induction as bs arbitrary: doc rule: compose_ref.induct)
  case (1 as s bs)
  then show ?case by (cases "apply_edits as doc") auto
next
  case (3 m as n bs)
  let ?k = "min m n"
  have IH: "apply_edits (compose_ref (eat ?k (Keep m # as)) (eat ?k (Keep n # bs))) (drop ?k doc) =
      Option.bind (apply_edits (eat ?k (Keep m # as)) (drop ?k doc)) (apply_edits (eat ?k (Keep n # bs)))"
    by (rule "3.IH") (use "3.prems" in \<open>auto simp: eat_facts\<close>)
  from "3.prems" have k: "?k \<le> length doc" by simp
  show ?case
    using IH k peel_Keep_append [of "take ?k doc" ?k n bs]
    by (cases "apply_edits (eat ?k (Keep m # as)) (drop ?k doc)")
      (auto simp: peel_Keep [OF min.cobounded1 k] peel_Keep [OF order.refl k]
         eat_Cons [of ?k "Keep ?k"] simp del: apply_edits.simps)
next
  case (4 m as n bs)
  let ?k = "min m n"
  have IH: "apply_edits (compose_ref (eat ?k (Keep m # as)) (eat ?k (Del n # bs))) (drop ?k doc) =
      Option.bind (apply_edits (eat ?k (Keep m # as)) (drop ?k doc)) (apply_edits (eat ?k (Del n # bs)))"
    by (rule "4.IH") (use "4.prems" in \<open>auto simp: eat_facts\<close>)
  from "4.prems" have k: "?k \<le> length doc" by simp
  show ?case
    using IH k peel_Del_append [of "take ?k doc" ?k n bs]
    by (cases "apply_edits (eat ?k (Keep m # as)) (drop ?k doc)")
      (auto simp: peel_Keep [OF min.cobounded1 k] peel_Del [OF order.refl k]
         eat_Cons [of ?k "Del ?k"] simp del: apply_edits.simps)
next
  case (5 s as n bs)
  let ?k = "min (length s) n"
  have IH: "apply_edits (compose_ref (eat ?k (Ins s # as)) (eat ?k (Keep n # bs))) doc =
      Option.bind (apply_edits (eat ?k (Ins s # as)) doc) (apply_edits (eat ?k (Keep n # bs)))"
    by (rule "5.IH") (use "5.prems" in \<open>auto simp: eat_facts\<close>)
  have ins: "apply_edits (Ins t # es) doc = map_option ((@) t) (apply_edits es doc)" for t es
    by simp
  show ?case
    using IH peel_Keep_append [of "take ?k s" ?k n bs] peel_Ins [of ?k s as doc]
    by (cases "apply_edits (eat ?k (Ins s # as)) doc")
      (auto simp: ins [of "take ?k s"] simp del: apply_edits.simps)
next
  case (6 s as n bs)
  let ?k = "min (length s) n"
  have IH: "apply_edits (compose_ref (eat ?k (Ins s # as)) (eat ?k (Del n # bs))) doc =
      Option.bind (apply_edits (eat ?k (Ins s # as)) doc) (apply_edits (eat ?k (Del n # bs)))"
    by (rule "6.IH") (use "6.prems" in \<open>auto simp: eat_facts\<close>)
  show ?case
    using IH peel_Del_append [of "take ?k s" ?k n bs] peel_Ins [of ?k s as doc]
    by (cases "apply_edits (eat ?k (Ins s # as)) doc") (auto simp del: apply_edits.simps)
qed auto

lemma compose_ref_lengths:
  assumes "list_all proper as" and "list_all proper bs" and "dst_len as = src_len bs"
  shows "src_len (compose_ref as bs) = src_len as \<and> dst_len (compose_ref as bs) = dst_len bs"
proof -
  let ?doc = "replicate (src_len as) (CHR ''x'')"
  obtain mid where mid: "apply_edits as ?doc = Some mid" "length mid = dst_len as"
    using apply_edits_total [of ?doc as] apply_edits_length by fastforce
  obtain out where out: "apply_edits bs mid = Some out" "length out = dst_len bs"
    using apply_edits_total [of mid bs] apply_edits_length mid(2) assms(3) by fastforce
  from apply_compose_ref [OF assms, of ?doc] mid out
  have "apply_edits (compose_ref as bs) ?doc = Some out" by simp
  from apply_edits_length [OF this] out show ?thesis by simp
qed

section \<open>The loop refines the reference\<close>

lemma has_type_simps [simp]:
  "has_type None t = False" "has_type (Some op) t = (op_Type op = t)"
  by (simp_all add: has_type_def)

lemma go_slice_prefix: "n \<le> length s \<Longrightarrow> go_slice s 0 (int n) = Some (take n s)"
  by (simp add: go_slice_def go_len_def)

lemma compose_loop_Nil:
  "pending a = [] \<Longrightarrow> pending b = [] \<Longrightarrow> compose_loop res a b = Some (Ok res)"
  by (simp add: compose_loop.simps [of res a b] peek_Nil)

lemma compose_loop_Ins:
  assumes "slice_ok b" and "pending b = Ins s # bs"
  shows "compose_loop res a b = compose_loop (addOp res (insertOp s)) a (consume b (int (length s)))"
  using assms by (rule peek_Ins) (simp add: compose_loop.simps [of res a b] go_len_def)

lemma compose_loop_Del:
  assumes "slice_ok a" and "slice_ok b" and "pending a = Del n # as"
    and "pending b = [] \<or> \<not> is_Ins (hd (pending b))"
  shows "compose_loop res a b = compose_loop (addOp res (deleteOp (int n))) (consume a (int n)) b"
proof -
  from assms(1,3) obtain op where op: "peek a = Some op" "op_Type op = OpDelete" "op_Len op = int n"
    by (rule peek_Del)
  have "\<not> has_type (peek b) OpInsert"
  proof (cases "pending b")
    case Nil
    then show ?thesis by (simp add: peek_Nil)
  next
    case (Cons e es)
    with assms(2,4) show ?thesis
      by (cases e) (auto elim: peek_Keep peek_Del)
  qed
  with op show ?thesis by (simp add: compose_loop.simps [of res a b])
qed

lemma int_min_if: "(if int n < int m then int n else int m) = int (min m n)"
  by simp

lemma compose_loop_KeepKeep:
  assumes "slice_ok a" "pending a = Keep m # as" and "slice_ok b" "pending b = Keep n # bs"
  shows "compose_loop res a b =
    compose_loop (addOp res (retainOp (int (min m n)))) (consume a (int (min m n))) (consume b (int (min m n)))"
  using assms(1,2)
proof (rule peek_Keep)
  fix aOp assume a: "peek a = Some aOp" "op_Type aOp = OpRetain" "op_Len aOp = int m"
  from assms(3,4) obtain bOp where "peek b = Some bOp" "op_Type bOp = OpRetain" "op_Len bOp = int n"
    by (rule peek_Keep)
  with a show ?thesis by (simp add: compose_loop.simps [of res a b] compose_emit_def int_min_if Let_def)
qed

lemma compose_loop_KeepDel:
  assumes "slice_ok a" "pending a = Keep m # as" and "slice_ok b" "pending b = Del n # bs"
  shows "compose_loop res a b =
    compose_loop (addOp res (deleteOp (int (min m n)))) (consume a (int (min m n))) (consume b (int (min m n)))"
  using assms(1,2)
proof (rule peek_Keep)
  fix aOp assume a: "peek a = Some aOp" "op_Type aOp = OpRetain" "op_Len aOp = int m"
  from assms(3,4) obtain bOp where "peek b = Some bOp" "op_Type bOp = OpDelete" "op_Len bOp = int n"
    by (rule peek_Del)
  with a show ?thesis by (simp add: compose_loop.simps [of res a b] compose_emit_def int_min_if Let_def)
qed

lemma compose_loop_InsKeep:
  assumes "slice_ok a" "pending a = Ins s # as" and "slice_ok b" "pending b = Keep n # bs"
  shows "compose_loop res a b =
    (let k = min (length s) n in
     compose_loop (addOp res (insertOp (take k s))) (consume a (int k)) (consume b (int k)))"
  using assms(1,2)
proof (rule peek_Ins)
  fix aOp assume a: "peek a = Some aOp" "op_Type aOp = OpInsert" "op_Chars aOp = s"
  from assms(3,4) obtain bOp where b: "peek b = Some bOp" "op_Type bOp = OpRetain" "op_Len bOp = int n"
    by (rule peek_Keep)
  with a show ?thesis
    by (simp add: compose_loop.simps [of res a b] compose_emit_def go_len_def int_min_if Let_def
        go_slice_prefix)
qed

lemma compose_loop_InsDel:
  assumes "slice_ok a" "pending a = Ins s # as" and "slice_ok b" "pending b = Del n # bs"
  shows "compose_loop res a b =
    (let k = min (length s) n in compose_loop res (consume a (int k)) (consume b (int k)))"
  using assms(1,2)
proof (rule peek_Ins)
  fix aOp assume a: "peek a = Some aOp" "op_Type aOp = OpInsert" "op_Chars aOp = s"
  from assms(3,4) obtain bOp where b: "peek b = Some bOp" "op_Type bOp = OpDelete" "op_Len bOp = int n"
    by (rule peek_Del)
  with a show ?thesis
    by (simp add: compose_loop.simps [of res a b] compose_emit_def go_len_def int_min_if Let_def)
qed

lemma compose_loop_stop:
  assumes "slice_ok a" and "slice_ok b"
    and "pending a = [] \<and> pending b = e # es \<and> \<not> is_Ins e \<or>
         pending b = [] \<and> pending a = e # es \<and> (\<forall>n. e \<noteq> Del n)"
  shows "compose_loop res a b = Some (Ok res)"
  using assms
  by (cases e) (auto simp: compose_loop.simps [of res a b] peek_Nil elim: peek_Keep peek_Ins peek_Del)

text \<open>
  The loop ends on cursors over positive operations, and what it has appended is what the
  reference computes.
\<close>

lemma compose_loop_refines:
  assumes "slice_ok a" and "slice_ok b" and "pending a = as" and "pending b = bs"
  shows "compose_loop res a b = Some (Ok (addOps res (compose_ref as bs)))"
  using assms
proof (induction as bs arbitrary: a b res rule: compose_ref.induct [case_names B_ins A_del1 A_del2 A_del3 keep_keep keep_del ins_keep ins_del])
  case (B_ins as s bs)
  note c = consume_all [OF B_ins.prems(2,4)]
  from B_ins.IH [OF B_ins.prems(1) _ B_ins.prems(3), of "consume b (int (length s))"] c
  show ?case by (simp add: compose_loop_Ins [OF B_ins.prems(2,4)])
next
  case (A_del1 n as)
  note c = consume_all [OF A_del1.prems(1,3)]
  from A_del1.IH [OF _ A_del1.prems(2) _ A_del1.prems(4), of "consume a (int n)"] c A_del1.prems(4)
  show ?case by (simp add: compose_loop_Del [OF A_del1.prems(1,2,3)])
next
  case (A_del2 n as vb va)
  note c = consume_all [OF A_del2.prems(1,3)]
  from A_del2.IH [OF _ A_del2.prems(2) _ A_del2.prems(4), of "consume a (int n)"] c A_del2.prems(4)
  show ?case by (simp add: compose_loop_Del [OF A_del2.prems(1,2,3)])
next
  case (A_del3 n as vb va)
  note c = consume_all [OF A_del3.prems(1,3)]
  from A_del3.IH [OF _ A_del3.prems(2) _ A_del3.prems(4), of "consume a (int n)"] c A_del3.prems(4)
  show ?case by (simp add: compose_loop_Del [OF A_del3.prems(1,2,3)])
next
  case (keep_keep m as n bs)
  then have pos: "0 < min m n" by (auto elim: peek_Keep)
  note ca = consume_eat [OF keep_keep.prems(1,3) pos] and cb = consume_eat [OF keep_keep.prems(2,4) pos]
  show ?case
    using keep_keep.IH [OF ca(1) cb(1) ca(2) cb(2)]
    by (simp add: compose_loop_KeepKeep [OF keep_keep.prems(1,3,2,4)])
next
  case (keep_del m as n bs)
  then have pos: "0 < min m n" by (auto elim: peek_Keep peek_Del)
  note ca = consume_eat [OF keep_del.prems(1,3) pos] and cb = consume_eat [OF keep_del.prems(2,4) pos]
  show ?case
    using keep_del.IH [OF ca(1) cb(1) ca(2) cb(2)]
    by (simp add: compose_loop_KeepDel [OF keep_del.prems(1,3,2,4)])
next
  case (ins_keep s as n bs)
  then have pos: "0 < min (length s) n" by (auto elim: peek_Keep peek_Ins)
  note ca = consume_eat [OF ins_keep.prems(1,3) pos] and cb = consume_eat [OF ins_keep.prems(2,4) pos]
  show ?case
    using ins_keep.IH [OF ca(1) cb(1) ca(2) cb(2)]
    by (simp add: compose_loop_InsKeep [OF ins_keep.prems(1,3,2,4)] Let_def)
next
  case (ins_del s as n bs)
  then have pos: "0 < min (length s) n" by (auto elim: peek_Del peek_Ins)
  note ca = consume_eat [OF ins_del.prems(1,3) pos] and cb = consume_eat [OF ins_del.prems(2,4) pos]
  show ?case
    using ins_del.IH [OF ca(1) cb(1) ca(2) cb(2)]
    by (simp add: compose_loop_InsDel [OF ins_del.prems(1,3,2,4)] Let_def)
qed (auto simp: compose_loop_Nil intro: compose_loop_stop)

section \<open>Compose on changesets\<close>

lemma Compose_edits:
  assumes "wf_changeset A" and "wf_changeset B" and "NewLen A = OldLen B"
  obtains C where "Compose A B = Some (Ok C)" "wf_changeset C" "canonical C"
    "OldLen C = OldLen A" "NewLen C = NewLen B"
    "\<And>doc. apply_edits (edits (Ops C)) doc =
       apply_edits (compose_ref (edits (Ops A)) (edits (Ops B))) doc"
proof -
  let ?as = "edits (Ops A)" and ?bs = "edits (Ops B)"
  let ?cs = "compose_ref ?as ?bs"
  let ?C = "\<lparr>OldLen = OldLen A, NewLen = NewLen B, Ops = addOps [] ?cs\<rparr>"
  note pr = wf_proper [OF assms(1)] wf_proper [OF assms(2)]
  from assms have link: "dst_len ?as = src_len ?bs" by (simp add: wf_changeset_def)
  note len = compose_ref_lengths [OF pr link]
  have b: "src_len (edits []) + src_len ?cs < 2 ^ 63"
    using len assms(1) by (simp add: wf_changeset_def)
  note ops = addOps_edits [OF _ compose_ref_proper [OF pr] b]
  have "Compose A B = Some (Ok ?C)"
    using compose_loop_refines [OF wf_slice_ok [OF assms(1)] wf_slice_ok [OF assms(2)]]
    by (simp add: Compose_def)
  moreover have "wf_changeset ?C"
    using ops len assms(1,2) by (simp add: wf_changeset_def)
  moreover have "canonical ?C"
    using ops normal_pushes [of "[]" ?cs] by (simp add: canonical_def normal_no_adjacent_ins)
  moreover have "apply_edits (edits (Ops ?C)) doc = apply_edits ?cs doc" for doc
    using ops apply_edits_pushes [of "[]"] by simp
  ultimately show thesis using that [of ?C] by simp
qed

text \<open>The loop makes no progress on an empty insert, so it does not return.\<close>

lemma consume_0 [simp]: "consume s 0 = s"
  by (simp add: consume.simps [of s 0])

lemma compose_loop_stuck:
  assumes "compose_loop res a b = Some r"
  shows "\<not> (\<exists>op. peek b = Some op \<and> op_Type op = OpInsert \<and> op_Chars op = [])"
proof (rule compose_loop.raw_induct [where P = "\<lambda>res a b r.
    \<not> (\<exists>op. peek b = Some op \<and> op_Type op = OpInsert \<and> op_Chars op = [])", OF _ assms], rule notI, elim exE conjE)
  fix f res a b r op
  assume IH: "\<And>res a b r. f res a b = Some r \<Longrightarrow>
      \<not> (\<exists>op. peek b = Some op \<and> op_Type op = OpInsert \<and> op_Chars op = [])"
    and op: "peek b = Some op" "op_Type op = OpInsert" "op_Chars op = []"
    and eq: "(let bOp = peek b; aOp = peek a in
      if bOp = None \<and> aOp = None then Some (Ok res)
      else if has_type bOp OpInsert then
        f (addOp res (insertOp (op_Chars (the bOp)))) a (consume b (go_len (op_Chars (the bOp))))
      else if has_type aOp OpDelete then
        f (addOp res (deleteOp (op_Len (the aOp)))) (consume a (op_Len (the aOp))) b
      else if aOp = None \<or> bOp = None then Some (Ok res)
      else
        let aLen = (if op_Type (the aOp) = OpInsert then go_len (op_Chars (the aOp))
                    else op_Len (the aOp));
            bLen = op_Len (the bOp);
            n = (if bLen < aLen then bLen else aLen)
        in case compose_emit res (the aOp) (the bOp) n of
             None \<Rightarrow> Some Panic
           | Some res' \<Rightarrow> f res' (consume a n) (consume b n)) = Some r"
  from eq op have "f (addOp res (insertOp [])) a b = Some r" by simp
  from IH [OF this] op show False by auto
qed

section \<open>Properties\<close>

text \<open>
  C9. Composition is sequential application. For two consecutive well-formed changesets
  (\<open>A.NewLen = B.OldLen\<close>) and every text \<open>A\<close> applies to, \<^verbatim>\<open>Compose\<close> terminates and
  returns a well-formed changeset in canonical form that runs from \<open>A.OldLen\<close> to
  \<open>B.NewLen\<close>, and applying it gives what applying \<open>A\<close> and then \<open>B\<close> gives; none of
  the three applications fails.
\<close>

theorem Compose_correct:
  assumes "wf_changeset A" and "wf_changeset B" and "NewLen A = OldLen B"
    and "OldLen A = go_len doc"
  shows "\<exists>C mid out. Compose A B = Some (Ok C) \<and> wf_changeset C \<and> canonical C \<and>
           OldLen C = OldLen A \<and> NewLen C = NewLen B \<and>
           ApplyChangeset doc A = Ok mid \<and> ApplyChangeset mid B = Ok out \<and>
           ApplyChangeset doc C = Ok out"
proof -
  let ?as = "edits (Ops A)" and ?bs = "edits (Ops B)"
  obtain mid where mid: "ApplyChangeset doc A = Ok mid" "go_len mid = NewLen A"
    "apply_edits ?as doc = Some mid"
    using ApplyChangeset_wf_Ok [OF assms(1,4)] .
  with assms(3) have "OldLen B = go_len mid" by simp
  then obtain out where out: "ApplyChangeset mid B = Ok out" "apply_edits ?bs mid = Some out"
    using ApplyChangeset_wf_Ok [OF assms(2)] by metis
  obtain C where C: "Compose A B = Some (Ok C)" "wf_changeset C" "canonical C"
    "OldLen C = OldLen A" "NewLen C = NewLen B"
    "apply_edits (edits (Ops C)) doc = apply_edits (compose_ref ?as ?bs) doc"
    using Compose_edits [OF assms(1-3)] by metis
  from assms have "dst_len ?as = src_len ?bs" "length doc = src_len ?as"
    by (simp_all add: wf_changeset_def go_len_def)
  from apply_compose_ref [OF wf_proper [OF assms(1)] wf_proper [OF assms(2)] this] mid out C(6)
  have "apply_edits (edits (Ops C)) doc = Some out" by simp
  then have "ApplyChangeset doc C = Ok out"
    using ApplyChangeset_edits [OF C(2)] C(4) assms(4) by simp
  with C mid out show ?thesis by blast
qed

theorem Compose_correct_witness:
  "\<exists>C mid out. Compose (MakeInsert 5 5 '' world'') (MakeDelete 11 2 6) = Some (Ok C) \<and>
     wf_changeset C \<and> canonical C \<and> OldLen C = 5 \<and> NewLen C = 5 \<and>
     ApplyChangeset ''hello'' (MakeInsert 5 5 '' world'') = Ok mid \<and>
     ApplyChangeset mid (MakeDelete 11 2 6) = Ok out \<and> ApplyChangeset ''hello'' C = Ok out"
proof -
  have a: "wf_changeset (MakeInsert 5 5 '' world'')"
    by (simp add: wf_changeset_def MakeInsert_def go_len_def wrap64_def)
  have b: "wf_changeset (MakeDelete 11 2 6)"
    by (simp add: wf_changeset_def MakeDelete_def wrap64_def)
  have l: "NewLen (MakeInsert 5 5 '' world'') = OldLen (MakeDelete 11 2 6)"
    and d: "OldLen (MakeInsert 5 5 '' world'') = go_len ''hello''"
    and e: "OldLen (MakeInsert 5 5 '' world'') = 5" "NewLen (MakeDelete 11 2 6) = 5"
    by (simp_all add: MakeInsert_def MakeDelete_def go_len_def wrap64_def)
  from Compose_correct [OF a b l d] show ?thesis by (simp only: e)
qed

text \<open>
  C30. An empty insert makes \<^verbatim>\<open>Compose\<close> run for ever: \<^verbatim>\<open>consume(bSlice, 0)\<close> does not
  move the cursor. (\<^verbatim>\<open>Validate\<close> rejects such changesets; \<^verbatim>\<open>Compose\<close> itself has no
  check.)
\<close>

theorem Compose_empty_insert_diverges:
  "Compose A \<lparr>OldLen = m, NewLen = n, Ops = insertOp [] # ops\<rparr> = None"
proof (rule ccontr)
  let ?b = "newSlice (insertOp [] # ops)"
  assume "Compose A \<lparr>OldLen = m, NewLen = n, Ops = insertOp [] # ops\<rparr> \<noteq> None"
  then obtain r where "compose_loop [] (newSlice (Ops A)) ?b = Some r"
    by (auto simp: Compose_def)
  from compose_loop_stuck [OF this] show False
    by (simp add: peek_def newSlice_def insertOp_def)
qed

end
