(* ===== verification/OT_Follow.thy ===== *)
theory OT_Follow
  imports OT_Compose
begin

text \<open>
  \<^verbatim>\<open>Follow\<close> of \<^verbatim>\<open>internal/ot/follow.go\<close>, the transformation at the heart of the
  editor: the cursor loop as it is written, a reference definition on lists of edits, the
  refinement between the two, and convergence.
\<close>

section \<open>The program\<close>

text \<open>
  \<^verbatim>\<open>Follow\<close>'s \<^verbatim>\<open>addOp\<close> also keeps \<^verbatim>\<open>result.NewLen\<close>; the state of the loop is the
  pair of \<^verbatim>\<open>result.Ops\<close> and \<^verbatim>\<open>result.NewLen\<close>.
\<close>

definition follow_addOp :: "Op list \<times> int \<Rightarrow> Op \<Rightarrow> Op list \<times> int" where
  "follow_addOp res op =
     (let (ops, newLen) = res in
      if ops \<noteq> [] \<and> op_Type (last ops) = op_Type op \<and> op_Type op \<in> {OpRetain, OpDelete, OpInsert} then
        (case op_Type op of
           OpRetain \<Rightarrow>
             (butlast ops @ [(last ops)\<lparr>op_Len := wrap64 (op_Len (last ops) + op_Len op)\<rparr>],
              wrap64 (newLen + op_Len op))
         | OpDelete \<Rightarrow>
             (butlast ops @ [(last ops)\<lparr>op_Len := wrap64 (op_Len (last ops) + op_Len op)\<rparr>], newLen)
         | OpInsert \<Rightarrow>
             (butlast ops @ [(last ops)\<lparr>op_Chars := op_Chars (last ops) @ op_Chars op\<rparr>],
              wrap64 (newLen + go_len (op_Chars op)))
         | OpOther _ \<Rightarrow> (ops @ [op], newLen))
      else
        (ops @ [op],
         case op_Type op of
           OpRetain \<Rightarrow> wrap64 (newLen + op_Len op)
         | OpInsert \<Rightarrow> wrap64 (newLen + go_len (op_Chars op))
         | _ \<Rightarrow> newLen))"

definition follow_emit :: "Op list \<times> int \<Rightarrow> Op \<Rightarrow> Op \<Rightarrow> int \<Rightarrow> Op list \<times> int" where
  "follow_emit res aOp bOp n =
     (if op_Type aOp = OpRetain \<and> op_Type bOp = OpRetain then follow_addOp res (retainOp n)
      else if op_Type aOp = OpRetain \<and> op_Type bOp = OpDelete then follow_addOp res (deleteOp n)
      else res)"

partial_function (option) follow_loop ::
    "Op list \<times> int \<Rightarrow> opSlice \<Rightarrow> opSlice \<Rightarrow> (Op list \<times> int) option" where
  "follow_loop res aSlice bSlice =
     (let aOp = peek aSlice; bOp = peek bSlice in
      if aOp = None \<and> bOp = None then Some res
      else if has_type aOp OpInsert \<and> has_type bOp OpInsert then
        (if op_Chars (the aOp) \<le> op_Chars (the bOp)
         then follow_loop (follow_addOp res (retainOp (go_len (op_Chars (the aOp)))))
                (consume aSlice (go_len (op_Chars (the aOp)))) bSlice
         else follow_loop (follow_addOp res (insertOp (op_Chars (the bOp)))) aSlice
                (consume bSlice (go_len (op_Chars (the bOp)))))
      else if has_type aOp OpInsert then
        follow_loop (follow_addOp res (retainOp (go_len (op_Chars (the aOp)))))
          (consume aSlice (go_len (op_Chars (the aOp)))) bSlice
      else if has_type bOp OpInsert then
        follow_loop (follow_addOp res (insertOp (op_Chars (the bOp)))) aSlice
          (consume bSlice (go_len (op_Chars (the bOp))))
      else if aOp = None \<or> bOp = None then Some res
      else
        let n = (if op_Len (the bOp) < op_Len (the aOp) then op_Len (the bOp)
                 else op_Len (the aOp))
        in follow_loop (follow_emit res (the aOp) (the bOp) n)
             (consume aSlice n) (consume bSlice n))"

text \<open>
  \<^verbatim>\<open>Follow\<close> never returns a non-nil error and never panics; \<open>None\<close> is "does not
  return".
\<close>

definition Follow :: "Changeset \<Rightarrow> Changeset \<Rightarrow> Changeset option" where
  "Follow A B =
     map_option (\<lambda>(ops, newLen). \<lparr>OldLen = NewLen A, NewLen = newLen, Ops = ops\<rparr>)
       (follow_loop ([], 0) (newSlice (Ops A)) (newSlice (Ops B)))"

section \<open>Reference definition\<close>

function (sequential) follow_ref :: "edit list \<Rightarrow> edit list \<Rightarrow> edit list" where
  "follow_ref (Ins s # as) (Ins t # bs) =
     (if s \<le> t then Keep (length s) # follow_ref as (Ins t # bs)
      else Ins t # follow_ref (Ins s # as) bs)"
| "follow_ref (Ins s # as) bs = Keep (length s) # follow_ref as bs"
| "follow_ref as (Ins t # bs) = Ins t # follow_ref as bs"
| "follow_ref (Keep m # as) (Keep n # bs) =
     Keep (min m n) #
       follow_ref (eat (min m n) (Keep m # as)) (eat (min m n) (Keep n # bs))"
| "follow_ref (Keep m # as) (Del n # bs) =
     Del (min m n) #
       follow_ref (eat (min m n) (Keep m # as)) (eat (min m n) (Del n # bs))"
| "follow_ref (Del m # as) (Keep n # bs) =
     follow_ref (eat (min m n) (Del m # as)) (eat (min m n) (Keep n # bs))"
| "follow_ref (Del m # as) (Del n # bs) =
     follow_ref (eat (min m n) (Del m # as)) (eat (min m n) (Del n # bs))"
| "follow_ref _ _ = []"
  by pat_completeness auto
termination
  by (relation "measure (\<lambda>(as, bs). length as + length bs)")
    (auto simp: eat_Cons min_def)

section \<open>Lengths and convergence of the reference\<close>

lemma follow_ref_proper:
  "list_all proper as \<Longrightarrow> list_all proper bs \<Longrightarrow> list_all proper (follow_ref as bs)"
  by (induction as bs rule: follow_ref.induct) (auto simp: eat_Cons min_def)

lemma follow_ref_src_len:
  "list_all proper as \<Longrightarrow> list_all proper bs \<Longrightarrow> src_len as = src_len bs \<Longrightarrow>
   src_len (follow_ref as bs) = dst_len as"
  by (induction as bs rule: follow_ref.induct)
    (auto simp: eat_facts simp del: sum_list_eq_0_iff)

lemma follow_ref_dst_len:
  "dst_len (follow_ref as bs) \<le> dst_len as + dst_len bs"
  by (induction as bs rule: follow_ref.induct) (auto simp: eat_Cons min_def)

lemma follow_ref_Ins_right:
  "as = [] \<or> \<not> is_Ins (hd as) \<Longrightarrow> follow_ref as (Ins t # bs) = Ins t # follow_ref as bs"
  by (cases as; cases "hd as") auto

lemma follow_ref_Ins_left:
  "bs = [] \<or> \<not> is_Ins (hd bs) \<Longrightarrow> follow_ref (Ins s # as) bs = Keep (length s) # follow_ref as bs"
  by (cases bs; cases "hd bs") auto

lemma no_adjacent_ins_Ins:
  "no_adjacent_ins (Ins s # es) \<longleftrightarrow> (es = [] \<or> \<not> is_Ins (hd es)) \<and> no_adjacent_ins es"
  by (cases es; cases "hd es") auto

lemma no_adjacent_ins_tl: "no_adjacent_ins (e # es) \<Longrightarrow> no_adjacent_ins es"
  by (cases e; cases es; cases "hd es") auto

lemma no_adjacent_ins_eat:
  assumes "no_adjacent_ins (e # es)" and "\<not> is_Ins e"
  shows "no_adjacent_ins (eat k (e # es))"
  using assms no_adjacent_ins_tl [OF assms(1)] by (cases e) (auto simp: eat_Cons)

lemma bind_apply_Keep:
  "length p = k \<Longrightarrow>
   Option.bind (map_option ((@) p) X) (apply_edits (Keep k # es)) =
     map_option ((@) p) (Option.bind X (apply_edits es))"
  by (cases X) auto

lemma bind_apply_Ins:
  "Option.bind X (apply_edits (Ins t # es)) = map_option ((@) t) (Option.bind X (apply_edits es))"
  by (cases X) auto

lemma bind_apply_Del:
  "length p = k \<Longrightarrow>
   Option.bind (map_option ((@) p) X) (apply_edits (Del k # es)) = Option.bind X (apply_edits es)"
  by (cases X) auto

lemma map_option_append_inj:
  "map_option ((@) p) X = map_option ((@) p) Y \<longleftrightarrow> X = Y"
  by (cases X; cases Y) auto

lemmas bind_apply = bind_apply_Keep bind_apply_Ins bind_apply_Del

text \<open>
  Convergence. In each branch of the loop the two runs make matching choices; where both
  insert the same text, each side puts the other's copy first, and the results coincide
  because the two texts are equal. That last step needs the next edit not to be another
  insert.
\<close>

lemma follow_ref_converges:
  assumes "list_all proper as" and "list_all proper bs"
    and "no_adjacent_ins as" and "no_adjacent_ins bs"
    and "src_len as = src_len bs" and "length doc = src_len as"
  shows "Option.bind (apply_edits as doc) (apply_edits (follow_ref as bs)) =
         Option.bind (apply_edits bs doc) (apply_edits (follow_ref bs as))"
  using assms
proof (induction as bs arbitrary: doc rule: follow_ref.induct)
  case (1 s as t bs)
  have ins: "apply_edits (Ins u # es) doc = map_option ((@) u) (apply_edits es doc)" for u es
    by simp
  note nadj = "1.prems"(3,4) [unfolded no_adjacent_ins_Ins]
  show ?case
  proof (cases "s \<le> t")
    case le: True
    have IH: "Option.bind (apply_edits as doc) (apply_edits (follow_ref as (Ins t # bs))) =
         Option.bind (apply_edits (Ins t # bs) doc) (apply_edits (follow_ref (Ins t # bs) as))"
      by (rule "1.IH"(1) [OF le]) (use "1.prems" nadj in auto)
    show ?thesis
    proof (cases "s = t")
      case True
      with IH nadj show ?thesis
        by (simp add: ins bind_apply follow_ref_Ins_left follow_ref_Ins_right
            map_option_append_inj del: apply_edits.simps)
    next
      case False
      with le have "\<not> t \<le> s" by auto
      with IH le show ?thesis by (simp add: ins bind_apply del: apply_edits.simps)
    qed
  next
    case False
    then have "t \<le> s" by simp
    have IH: "Option.bind (apply_edits (Ins s # as) doc) (apply_edits (follow_ref (Ins s # as) bs)) =
         Option.bind (apply_edits bs doc) (apply_edits (follow_ref bs (Ins s # as)))"
      by (rule "1.IH"(2) [OF False]) (use "1.prems" nadj in auto)
    with False \<open>t \<le> s\<close> show ?thesis by (simp add: ins bind_apply del: apply_edits.simps)
  qed
next
  case (4 m as n bs)
  let ?k = "min m n"
  let ?as = "eat ?k (Keep m # as)" and ?bs = "eat ?k (Keep n # bs)"
  from "4.prems" have k: "?k \<le> length doc" by simp
  have IH: "Option.bind (apply_edits ?as (drop ?k doc)) (apply_edits (follow_ref ?as ?bs)) =
      Option.bind (apply_edits ?bs (drop ?k doc)) (apply_edits (follow_ref ?bs ?as))"
    by (rule "4.IH") (use "4.prems" k in \<open>auto simp: eat_facts intro!: no_adjacent_ins_eat\<close>)
  from k IH show ?case
    by (simp add: peel_Keep [OF min.cobounded1 k] peel_Keep [OF min.cobounded2 k] bind_apply
        min.commute [of n m] del: apply_edits.simps)
next
  case (5 m as n bs)
  let ?k = "min m n"
  let ?as = "eat ?k (Keep m # as)" and ?bs = "eat ?k (Del n # bs)"
  from "5.prems" have k: "?k \<le> length doc" by simp
  have IH: "Option.bind (apply_edits ?as (drop ?k doc)) (apply_edits (follow_ref ?as ?bs)) =
      Option.bind (apply_edits ?bs (drop ?k doc)) (apply_edits (follow_ref ?bs ?as))"
    by (rule "5.IH") (use "5.prems" k in \<open>auto simp: eat_facts intro!: no_adjacent_ins_eat\<close>)
  from k IH show ?case
    by (simp add: peel_Keep [OF min.cobounded1 k] peel_Del [OF min.cobounded2 k] bind_apply
        min.commute [of n m] del: apply_edits.simps)
next
  case (6 m as n bs)
  let ?k = "min m n"
  let ?as = "eat ?k (Del m # as)" and ?bs = "eat ?k (Keep n # bs)"
  from "6.prems" have k: "?k \<le> length doc" by simp
  have IH: "Option.bind (apply_edits ?as (drop ?k doc)) (apply_edits (follow_ref ?as ?bs)) =
      Option.bind (apply_edits ?bs (drop ?k doc)) (apply_edits (follow_ref ?bs ?as))"
    by (rule "6.IH") (use "6.prems" k in \<open>auto simp: eat_facts intro!: no_adjacent_ins_eat\<close>)
  from k IH show ?case
    by (simp add: peel_Del [OF min.cobounded1 k] peel_Keep [OF min.cobounded2 k] bind_apply
        min.commute [of n m] del: apply_edits.simps)
next
  case (7 m as n bs)
  let ?k = "min m n"
  let ?as = "eat ?k (Del m # as)" and ?bs = "eat ?k (Del n # bs)"
  from "7.prems" have k: "?k \<le> length doc" by simp
  have IH: "Option.bind (apply_edits ?as (drop ?k doc)) (apply_edits (follow_ref ?as ?bs)) =
      Option.bind (apply_edits ?bs (drop ?k doc)) (apply_edits (follow_ref ?bs ?as))"
    by (rule "7.IH") (use "7.prems" k in \<open>auto simp: eat_facts intro!: no_adjacent_ins_eat\<close>)
  from k IH show ?case
    by (simp add: peel_Del [OF min.cobounded1 k] peel_Del [OF min.cobounded2 k]
        min.commute [of n m] del: apply_edits.simps)
qed (auto simp: bind_apply no_adjacent_ins_Ins simp del: apply_edits.simps(2,4))

section \<open>The loop refines the reference\<close>

abbreviation follow_adds :: "Op list \<times> int \<Rightarrow> edit list \<Rightarrow> Op list \<times> int" where
  "follow_adds res es \<equiv> foldl follow_addOp res (map edit_op es)"

lemma follow_addOp_eq:
  assumes "0 \<le> n" and "n + int (dst_span e) < 2 ^ 63"
  shows "follow_addOp (ops, n) (edit_op e) = (addOp ops (edit_op e), n + int (dst_span e))"
  using assms
  by (cases e) (auto simp: follow_addOp_def addOp_def retainOp_def insertOp_def deleteOp_def
      go_len_def wrap64_nonneg)

lemma follow_adds_eq:
  "0 \<le> n \<Longrightarrow> n + int (dst_len es) < 2 ^ 63 \<Longrightarrow>
   follow_adds (ops, n) es = (addOps ops es, n + int (dst_len es))"
proof (induction es arbitrary: ops n)
  case Nil
  then show ?case by simp
next
  case (Cons e es)
  then have "follow_addOp (ops, n) (edit_op e) = (addOp ops (edit_op e), n + int (dst_span e))"
    by (intro follow_addOp_eq) auto
  with Cons.IH [of "n + int (dst_span e)"] Cons.prems show ?case by simp
qed

lemma not_ins_peek:
  "slice_ok s \<Longrightarrow> pending s = [] \<or> \<not> is_Ins (hd (pending s)) \<Longrightarrow> \<not> has_type (peek s) OpInsert"
proof (cases "pending s")
  case Nil
  then show ?thesis by (simp add: peek_Nil)
next
  case (Cons e es)
  assume "slice_ok s" "pending s = [] \<or> \<not> is_Ins (hd (pending s))"
  with Cons show ?thesis by (cases e) (auto elim: peek_Keep peek_Del)
qed

lemma follow_loop_InsIns:
  assumes "slice_ok a" "pending a = Ins s # as" and "slice_ok b" "pending b = Ins t # bs"
  shows "follow_loop res a b =
    (if s \<le> t then follow_loop (follow_addOp res (retainOp (int (length s)))) (consume a (int (length s))) b
     else follow_loop (follow_addOp res (insertOp t)) a (consume b (int (length t))))"
  using assms(1,2)
proof (rule peek_Ins)
  fix aOp assume a: "peek a = Some aOp" "op_Type aOp = OpInsert" "op_Chars aOp = s"
  from assms(3,4) obtain bOp where "peek b = Some bOp" "op_Type bOp = OpInsert" "op_Chars bOp = t"
    by (rule peek_Ins)
  with a show ?thesis by (simp add: follow_loop.simps [of res a b] go_len_def)
qed

lemma follow_loop_Ins_left:
  assumes "slice_ok a" "pending a = Ins s # as"
    and "slice_ok b" "pending b = [] \<or> \<not> is_Ins (hd (pending b))"
  shows "follow_loop res a b =
    follow_loop (follow_addOp res (retainOp (int (length s)))) (consume a (int (length s))) b"
  by (rule peek_Ins [OF assms(1,2)])
    (use not_ins_peek [OF assms(3,4)] in \<open>simp add: follow_loop.simps [of res a b] go_len_def\<close>)

lemma follow_loop_Ins_right:
  assumes "slice_ok b" "pending b = Ins t # bs"
    and "slice_ok a" "pending a = [] \<or> \<not> is_Ins (hd (pending a))"
  shows "follow_loop res a b =
    follow_loop (follow_addOp res (insertOp t)) a (consume b (int (length t)))"
  by (rule peek_Ins [OF assms(1,2)])
    (use not_ins_peek [OF assms(3,4)] in \<open>simp add: follow_loop.simps [of res a b] go_len_def\<close>)

text \<open>Both cursors are on characters of the original text.\<close>

fun follow_both :: "edit \<Rightarrow> edit \<Rightarrow> nat \<Rightarrow> edit list" where
  "follow_both (Keep m) (Keep n) k = [Keep k]"
| "follow_both (Keep m) (Del n) k = [Del k]"
| "follow_both _ _ k = []"

lemma peek_not_Ins:
  assumes "slice_ok s" "pending s = e # es" "\<not> is_Ins e"
  obtains op where "peek s = Some op" "op_Len op = int (span e)" "0 < span e"
    "op_Type op = (case e of Keep _ \<Rightarrow> OpRetain | _ \<Rightarrow> OpDelete)"
  using assms by (cases e) (auto elim: peek_Keep peek_Del)

lemma follow_loop_both:
  assumes "slice_ok a" "pending a = e # as" "\<not> is_Ins e"
    and "slice_ok b" "pending b = f # bs" "\<not> is_Ins f"
  defines "k \<equiv> min (span e) (span f)"
  shows "follow_loop res a b =
    follow_loop (follow_adds res (follow_both e f k)) (consume a (int k)) (consume b (int k))"
  using assms(1-3)
proof (rule peek_not_Ins)
  fix aOp assume a: "peek a = Some aOp" "op_Len aOp = int (span e)"
    "op_Type aOp = (case e of Keep _ \<Rightarrow> OpRetain | _ \<Rightarrow> OpDelete)"
  from assms(4-6) obtain bOp where "peek b = Some bOp" "op_Len bOp = int (span f)"
    "op_Type bOp = (case f of Keep _ \<Rightarrow> OpRetain | _ \<Rightarrow> OpDelete)"
    by (rule peek_not_Ins)
  with a assms(3,6) show ?thesis
    by (cases e; cases f)
      (simp_all add: follow_loop.simps [of res a b] follow_emit_def k_def Let_def min_def)
qed

lemma follow_loop_stop:
  assumes "slice_ok a" and "slice_ok b"
    and "pending a = [] \<and> pending b = e # es \<and> \<not> is_Ins e \<or>
         pending b = [] \<and> pending a = e # es \<and> \<not> is_Ins e"
  shows "follow_loop res a b = Some res"
  using assms
  by (cases e) (auto simp: follow_loop.simps [of res a b] peek_Nil elim: peek_Keep peek_Del)

lemma follow_loop_Nil:
  "pending a = [] \<Longrightarrow> pending b = [] \<Longrightarrow> follow_loop res a b = Some res"
  by (simp add: follow_loop.simps [of res a b] peek_Nil)

text \<open>
  The loop ends on cursors over positive operations, and what it has appended is what the
  reference computes.
\<close>

lemma follow_loop_refines:
  assumes "slice_ok a" and "slice_ok b" and "pending a = as" and "pending b = bs"
  shows "follow_loop res a b = Some (follow_adds res (follow_ref as bs))"
  using assms
proof (induction as bs arbitrary: a b res rule: follow_ref.induct [case_names ins_ins A_ins1 A_ins2 A_ins3 B_ins1 B_ins2 B_ins3 keep_keep keep_del del_keep del_del])
  case (ins_ins s as t bs)
  note ca = consume_all [OF ins_ins.prems(1,3)] and cb = consume_all [OF ins_ins.prems(2,4)]
  from ins_ins.IH(1) [OF _ _ ins_ins.prems(2) _ ins_ins.prems(4), of "consume a (int (length s))"]
    ins_ins.IH(2) [OF _ ins_ins.prems(1) _ ins_ins.prems(3), of "consume b (int (length t))"] ca cb
  show ?case by (simp add: follow_loop_InsIns [OF ins_ins.prems(1,3,2,4)])
next
  case (A_ins1 s as)
  note ca = consume_all [OF A_ins1.prems(1,3)]
  from A_ins1.IH [OF _ A_ins1.prems(2) _ A_ins1.prems(4), of "consume a (int (length s))"] ca A_ins1.prems(4)
  show ?case by (simp add: follow_loop_Ins_left [OF A_ins1.prems(1,3,2)])
next
  case (A_ins2 s as vb va)
  note ca = consume_all [OF A_ins2.prems(1,3)]
  from A_ins2.IH [OF _ A_ins2.prems(2) _ A_ins2.prems(4), of "consume a (int (length s))"] ca A_ins2.prems(4)
  show ?case by (simp add: follow_loop_Ins_left [OF A_ins2.prems(1,3,2)])
next
  case (A_ins3 s as vb va)
  note ca = consume_all [OF A_ins3.prems(1,3)]
  from A_ins3.IH [OF _ A_ins3.prems(2) _ A_ins3.prems(4), of "consume a (int (length s))"] ca A_ins3.prems(4)
  show ?case by (simp add: follow_loop_Ins_left [OF A_ins3.prems(1,3,2)])
next
  case (B_ins1 t bs)
  note cb = consume_all [OF B_ins1.prems(2,4)]
  from B_ins1.IH [OF B_ins1.prems(1) _ B_ins1.prems(3), of "consume b (int (length t))"] cb B_ins1.prems(3)
  show ?case by (simp add: follow_loop_Ins_right [OF B_ins1.prems(2,4,1)])
next
  case (B_ins2 vb va t bs)
  note cb = consume_all [OF B_ins2.prems(2,4)]
  from B_ins2.IH [OF B_ins2.prems(1) _ B_ins2.prems(3), of "consume b (int (length t))"] cb B_ins2.prems(3)
  show ?case by (simp add: follow_loop_Ins_right [OF B_ins2.prems(2,4,1)])
next
  case (B_ins3 vb va t bs)
  note cb = consume_all [OF B_ins3.prems(2,4)]
  from B_ins3.IH [OF B_ins3.prems(1) _ B_ins3.prems(3), of "consume b (int (length t))"] cb B_ins3.prems(3)
  show ?case by (simp add: follow_loop_Ins_right [OF B_ins3.prems(2,4,1)])
next
  case (keep_keep m as n bs)
  then have pos: "0 < min m n" by (auto elim: peek_Keep)
  note ca = consume_eat [OF keep_keep.prems(1,3) pos] and cb = consume_eat [OF keep_keep.prems(2,4) pos]
  show ?case using keep_keep.IH [OF ca(1) cb(1) ca(2) cb(2)]
    by (simp add: follow_loop_both [OF keep_keep.prems(1,3) _ keep_keep.prems(2,4)])
next
  case (keep_del m as n bs)
  then have pos: "0 < min m n" by (auto elim: peek_Keep peek_Del)
  note ca = consume_eat [OF keep_del.prems(1,3) pos] and cb = consume_eat [OF keep_del.prems(2,4) pos]
  show ?case using keep_del.IH [OF ca(1) cb(1) ca(2) cb(2)]
    by (simp add: follow_loop_both [OF keep_del.prems(1,3) _ keep_del.prems(2,4)])
next
  case (del_keep m as n bs)
  then have pos: "0 < min m n" by (auto elim: peek_Keep peek_Del)
  note ca = consume_eat [OF del_keep.prems(1,3) pos] and cb = consume_eat [OF del_keep.prems(2,4) pos]
  show ?case using del_keep.IH [OF ca(1) cb(1) ca(2) cb(2)]
    by (simp add: follow_loop_both [OF del_keep.prems(1,3) _ del_keep.prems(2,4)])
next
  case (del_del m as n bs)
  then have pos: "0 < min m n" by (auto elim: peek_Del)
  note ca = consume_eat [OF del_del.prems(1,3) pos] and cb = consume_eat [OF del_del.prems(2,4) pos]
  show ?case using del_del.IH [OF ca(1) cb(1) ca(2) cb(2)]
    by (simp add: follow_loop_both [OF del_del.prems(1,3) _ del_del.prems(2,4)])
qed (auto simp: follow_loop_Nil intro: follow_loop_stop)

section \<open>Follow on changesets\<close>

lemma Follow_eq:
  assumes "wf_changeset A" and "wf_changeset B" and "NewLen A + NewLen B < 2 ^ 63"
  defines "fs \<equiv> follow_ref (edits (Ops A)) (edits (Ops B))"
  shows "Follow A B =
    Some \<lparr>OldLen = NewLen A, NewLen = int (dst_len fs), Ops = addOps [] fs\<rparr>"
proof -
  have "int (dst_len fs) \<le> NewLen A + NewLen B"
    using follow_ref_dst_len [of "edits (Ops A)" "edits (Ops B)"] assms(1,2)
    by (simp add: wf_changeset_def fs_def)
  with assms(3) show ?thesis
    using follow_loop_refines [OF wf_slice_ok [OF assms(1)] wf_slice_ok [OF assms(2)]]
      follow_adds_eq [of 0 fs "[]"]
    by (simp add: Follow_def fs_def)
qed

lemma Follow_edits:
  assumes "wf_changeset A" and "wf_changeset B" and "OldLen A = OldLen B"
    and "NewLen A + NewLen B < 2 ^ 63"
  obtains F where "Follow A B = Some F" "wf_changeset F" "canonical F" "OldLen F = NewLen A"
    "NewLen F \<le> NewLen A + NewLen B"
    "\<And>doc. apply_edits (edits (Ops F)) doc =
       apply_edits (follow_ref (edits (Ops A)) (edits (Ops B))) doc"
proof -
  let ?as = "edits (Ops A)" and ?bs = "edits (Ops B)"
  let ?fs = "follow_ref ?as ?bs"
  let ?F = "\<lparr>OldLen = NewLen A, NewLen = int (dst_len ?fs), Ops = addOps [] ?fs\<rparr>"
  note pr = wf_proper [OF assms(1)] wf_proper [OF assms(2)]
  from assms have same: "src_len ?as = src_len ?bs" by (simp add: wf_changeset_def)
  note src = follow_ref_src_len [OF pr same] and dst = follow_ref_dst_len [of ?as ?bs]
  have b: "src_len (edits []) + src_len ?fs < 2 ^ 63"
    using src assms(1) by (simp add: wf_changeset_def)
  have d: "int (dst_len ?fs) \<le> NewLen A + NewLen B"
    using dst assms(1,2) by (simp add: wf_changeset_def)
  note ops = addOps_edits [OF _ follow_ref_proper [OF pr] b]
  have "Follow A B = Some ?F"
    by (rule Follow_eq [OF assms(1,2,4)])
  moreover have "wf_changeset ?F"
    using ops src d assms by (simp add: wf_changeset_def)
  moreover have "canonical ?F"
    using ops normal_pushes [of "[]" ?fs] by (simp add: canonical_def normal_no_adjacent_ins)
  moreover have "apply_edits (edits (Ops ?F)) doc = apply_edits ?fs doc" for doc
    using ops apply_edits_pushes [of "[]"] by simp
  ultimately show thesis using that [of ?F] d by simp
qed

lemma Follow_diamond:
  assumes "wf_changeset A" and "wf_changeset B" and "canonical A" and "canonical B"
    and "OldLen A = go_len doc" and "OldLen B = go_len doc" and "NewLen A + NewLen B < 2 ^ 63"
  obtains FAB FBA da db out where
    "Follow A B = Some FAB" "wf_changeset FAB" "canonical FAB" "OldLen FAB = NewLen A"
    "Follow B A = Some FBA" "wf_changeset FBA" "canonical FBA" "OldLen FBA = NewLen B"
    "ApplyChangeset doc A = Ok da" "ApplyChangeset da FAB = Ok out"
    "ApplyChangeset doc B = Ok db" "ApplyChangeset db FBA = Ok out"
    "go_len da = NewLen A" "go_len db = NewLen B"
    "NewLen FAB = go_len out" "NewLen FBA = go_len out"
    "go_len out \<le> NewLen A + NewLen B"
proof -
  let ?as = "edits (Ops A)" and ?bs = "edits (Ops B)"
  from assms(5,6) have AB: "OldLen A = OldLen B" and BA: "OldLen B = OldLen A" by simp_all
  from assms(7) have sum: "NewLen B + NewLen A < 2 ^ 63" by (simp add: add.commute)
  obtain F where F: "Follow A B = Some F" "wf_changeset F" "canonical F" "OldLen F = NewLen A"
    "NewLen F \<le> NewLen A + NewLen B"
    "\<And>d. apply_edits (edits (Ops F)) d = apply_edits (follow_ref ?as ?bs) d"
    by (rule Follow_edits [OF assms(1,2) AB assms(7)]) blast
  obtain G where G: "Follow B A = Some G" "wf_changeset G" "canonical G" "OldLen G = NewLen B"
    "\<And>d. apply_edits (edits (Ops G)) d = apply_edits (follow_ref ?bs ?as) d"
    by (rule Follow_edits [OF assms(2,1) BA sum]) blast
  obtain da where da: "ApplyChangeset doc A = Ok da" "go_len da = NewLen A"
    "apply_edits ?as doc = Some da"
    using ApplyChangeset_wf_Ok [OF assms(1,5)] .
  obtain db where db: "ApplyChangeset doc B = Ok db" "go_len db = NewLen B"
    "apply_edits ?bs doc = Some db"
    using ApplyChangeset_wf_Ok [OF assms(2,6)] .
  from F(4) da(2) have Fda: "OldLen F = go_len da" by simp
  from G(4) db(2) have Gdb: "OldLen G = go_len db" by simp
  obtain out where out: "ApplyChangeset da F = Ok out" "go_len out = NewLen F"
    "apply_edits (edits (Ops F)) da = Some out"
    using ApplyChangeset_wf_Ok [OF F(2) Fda] .
  from assms have "src_len ?as = src_len ?bs" "length doc = src_len ?as"
    by (simp_all add: wf_changeset_def go_len_def)
  from follow_ref_converges [OF wf_proper [OF assms(1)] wf_proper [OF assms(2)]
      assms(3,4) [unfolded canonical_def] this] da(3) db(3) out(3) F(6) G(5)
  have "apply_edits (edits (Ops G)) db = Some out" by simp
  then have gout: "ApplyChangeset db G = Ok out"
    using ApplyChangeset_edits [OF G(2) Gdb] by simp
  then have Gout: "NewLen G = go_len out"
    using ApplyChangeset_wf_Ok [OF G(2) Gdb] by (metis go_result.inject(1))
  from F(5) out(2) have bound: "go_len out \<le> NewLen A + NewLen B" by simp
  show thesis
    by (rule that [OF F(1-4) G(1-4) da(1) out(1) db(1) gout da(2) db(2) out(2) [symmetric] Gout bound])
qed

section \<open>Properties\<close>

text \<open>
  C1. Convergence (the diamond property of \<^verbatim>\<open>follow.go\<close>). Two well-formed canonical
  changesets of the same text: both transformations terminate and are well-formed, every
  application succeeds, and \<open>A\<close> followed by \<open>Follow A B\<close> produces the same text as
  \<open>B\<close> followed by \<open>Follow B A\<close>.
\<close>

theorem Follow_converges:
  assumes "wf_changeset A" and "wf_changeset B" and "canonical A" and "canonical B"
    and "OldLen A = go_len doc" and "OldLen B = go_len doc" and "NewLen A + NewLen B < 2 ^ 63"
  shows "\<exists>FAB FBA da db out.
           Follow A B = Some FAB \<and> Follow B A = Some FBA \<and>
           wf_changeset FAB \<and> wf_changeset FBA \<and>
           ApplyChangeset doc A = Ok da \<and> ApplyChangeset da FAB = Ok out \<and>
           ApplyChangeset doc B = Ok db \<and> ApplyChangeset db FBA = Ok out"
  by (rule Follow_diamond [OF assms]) blast

theorem Follow_converges_witness:
  "\<exists>FAB FBA da db out.
     Follow (MakeInsert 1 0 ''b'') (MakeInsert 1 0 ''a'') = Some FAB \<and>
     Follow (MakeInsert 1 0 ''a'') (MakeInsert 1 0 ''b'') = Some FBA \<and>
     wf_changeset FAB \<and> wf_changeset FBA \<and>
     ApplyChangeset ''x'' (MakeInsert 1 0 ''b'') = Ok da \<and> ApplyChangeset da FAB = Ok out \<and>
     ApplyChangeset ''x'' (MakeInsert 1 0 ''a'') = Ok db \<and> ApplyChangeset db FBA = Ok out"
proof (rule Follow_converges)
  show "wf_changeset (MakeInsert 1 0 ''b'')" "wf_changeset (MakeInsert 1 0 ''a'')"
    by (simp_all add: wf_changeset_def MakeInsert_def go_len_def wrap64_def)
  show "canonical (MakeInsert 1 0 ''b'')" "canonical (MakeInsert 1 0 ''a'')"
    by (simp_all add: canonical_def MakeInsert_def go_len_def wrap64_def)
qed (simp_all add: MakeInsert_def go_len_def wrap64_def)

text \<open>
  C29. Convergence fails without the canonical form. \<^verbatim>\<open>Validate\<close> accepts two inserts in
  a row, and for \<open>A = [Insert "b", Insert "a"]\<close>, \<open>B = [Insert "b"]\<close> on the empty text the
  two orders of application give \<open>"bab"\<close> and \<open>"bba"\<close>.
\<close>

theorem Follow_needs_canonical:
  "\<exists>A B. Validate A = None \<and> Validate B = None \<and>
     ApplyChangeset [] A = Ok ''ba'' \<and> ApplyChangeset [] B = Ok ''b'' \<and>
     map_option (ApplyChangeset ''ba'') (Follow A B) = Some (Ok ''bab'') \<and>
     map_option (ApplyChangeset ''b'') (Follow B A) = Some (Ok ''bba'')"
proof (intro exI conjI)
  let ?A = "\<lparr>OldLen = 0, NewLen = 2, Ops = [insertOp ''b'', insertOp ''a'']\<rparr>"
  let ?B = "\<lparr>OldLen = 0, NewLen = 1, Ops = [insertOp ''b'']\<rparr>"
  have wf: "wf_changeset ?A" "wf_changeset ?B" by (simp_all add: wf_changeset_def)
  show "Validate ?A = None" "Validate ?B = None"
    by (simp_all add: Validate_def insertOp_def go_len_def wrap64_def)
  show "ApplyChangeset [] ?A = Ok ''ba''" "ApplyChangeset [] ?B = Ok ''b''"
    by (simp_all add: ApplyChangeset_def insertOp_def go_len_def)
  have "Follow ?A ?B = Some \<lparr>OldLen = 2, NewLen = 3, Ops = [retainOp 2, insertOp ''b'']\<rparr>"
    using Follow_eq [OF wf] by (simp add: addOp_def retainOp_def insertOp_def op_edit_def wrap64_def)
  then show "map_option (ApplyChangeset ''ba'') (Follow ?A ?B) = Some (Ok ''bab'')"
    by (simp add: ApplyChangeset_def retainOp_def insertOp_def go_len_def wrap64_def go_slice_def)
  have "Follow ?B ?A = Some \<lparr>OldLen = 1, NewLen = 3, Ops = [retainOp 1, insertOp ''ba'']\<rparr>"
    using Follow_eq [OF wf(2,1)] by (simp add: addOp_def retainOp_def insertOp_def op_edit_def wrap64_def)
  then show "map_option (ApplyChangeset ''b'') (Follow ?B ?A) = Some (Ok ''bba'')"
    by (simp add: ApplyChangeset_def retainOp_def insertOp_def go_len_def wrap64_def go_slice_def)
qed

text \<open>
  The precondition \<^verbatim>\<open>A.OldLen == B.OldLen\<close> is not checked: for a \<open>B\<close> made for a
  longer text, \<^verbatim>\<open>Follow\<close> returns a changeset that is well-formed and applies to \<open>A\<close>'s
  result, and the insert of \<open>B\<close> is silently lost.
\<close>

theorem Follow_drops_mismatched_tail:
  "\<exists>A B F. wf_changeset A \<and> wf_changeset B \<and> OldLen A \<noteq> OldLen B \<and>
     insertOp ''!'' \<in> set (Ops B) \<and> Follow A B = Some F \<and> wf_changeset F \<and>
     ApplyChangeset ''a'' A = Ok ''xa'' \<and> ApplyChangeset ''xa'' F = Ok ''xa''"
proof (intro exI conjI)
  let ?A = "\<lparr>OldLen = 1, NewLen = 2, Ops = [insertOp ''x'', retainOp 1]\<rparr>"
  let ?B = "\<lparr>OldLen = 5, NewLen = 6, Ops = [retainOp 5, insertOp ''!'']\<rparr>"
  let ?F = "\<lparr>OldLen = 2, NewLen = 2, Ops = [retainOp 2]\<rparr>"
  show wf: "wf_changeset ?A" "wf_changeset ?B" and "wf_changeset ?F"
    by (simp_all add: wf_changeset_def)
  show "OldLen ?A \<noteq> OldLen ?B" "insertOp ''!'' \<in> set (Ops ?B)" by simp_all
  show "Follow ?A ?B = Some ?F"
    using Follow_eq [OF wf]
    by (simp add: eat_def addOp_def retainOp_def insertOp_def op_edit_def wrap64_def)
  show "ApplyChangeset ''a'' ?A = Ok ''xa''" "ApplyChangeset ''xa'' ?F = Ok ''xa''"
    by (simp_all add: ApplyChangeset_def retainOp_def insertOp_def go_len_def wrap64_def go_slice_def)
qed

end
