(* ===== verification/Doc_FSM.thy ===== *)
theory Doc_FSM
  imports OT_Follow
begin

text \<open>
  The replicated document: \<^verbatim>\<open>internal/fsm/types.go\<close> and \<^verbatim>\<open>internal/fsm/fsm.go\<close>.
  \<^verbatim>\<open>DocumentStateMachine.Apply\<close> deduplicates a committed entry, transforms its changeset
  from the revision it was made for to the head revision, applies it and records it. The
  theory shows the three invariants the file header announces, that a valid submission is
  never rejected, and that the author of a submission and the servers end with the same
  text.

  The parameter \<open>unmarshal\<close> of \<^verbatim>\<open>Apply\<close> is the decoder \<^verbatim>\<open>UnmarshalEntry\<close>, \<open>None\<close> for a
  decoding error; \<^verbatim>\<open>Wire_Entry\<close> defines it. The logger is left out.
\<close>

section \<open>types.go\<close>

record RaftLogEntry =
  ClientID :: string
  SubmissionID :: int
  BaseRev :: int
  entry_Changeset :: Changeset

record RevisionRecord =
  RevNumber :: int
  rev_Changeset :: Changeset
  Source :: string

record ApplyResult =
  CPrime :: Changeset
  NewRev :: int
  res_ClientID :: string
  IsDuplicate :: bool

section \<open>fsm.go\<close>

record DocumentStateMachine =
  headText :: string
  headRev :: int
  revisionLog :: "RevisionRecord list"
  clientLastSubmission :: "string \<rightharpoonup> int"

definition NewDocumentStateMachine :: "string \<Rightarrow> DocumentStateMachine" where
  "NewDocumentStateMachine initialText =
     \<lparr>headText = initialText, headRev = 0, revisionLog = [], clientLastSubmission = Map.empty\<rparr>"

text \<open>The zero value of \<^verbatim>\<open>ot.Changeset\<close>, which a duplicate's result carries.\<close>

definition zeroChangeset :: Changeset where
  "zeroChangeset = \<lparr>OldLen = 0, NewLen = 0, Ops = []\<rparr>"

text \<open>
  The transformation loop. \<^verbatim>\<open>revisionLog[r]\<close> panics out of range; \<^verbatim>\<open>r++\<close> cannot
  overflow, since \<open>r < headRev\<close>.
\<close>

function transform_loop ::
    "RevisionRecord list \<Rightarrow> int \<Rightarrow> int \<Rightarrow> Changeset \<Rightarrow> (unit, Changeset) go_result option" where
  "transform_loop log head r C =
     (if r < head then
        (case go_index log r of
           None \<Rightarrow> Some Panic
         | Some rec \<Rightarrow>
             (case Follow (rev_Changeset rec) C of
                None \<Rightarrow> None
              | Some C' \<Rightarrow> transform_loop log head (r + 1) C'))
      else Some (Ok C))"
  by pat_completeness auto
termination
  by (relation "measure (\<lambda>(log, head, r, C). nat (head - r))") auto

declare transform_loop.simps [simp del]

text \<open>
  \<^verbatim>\<open>Apply\<close> after decoding: the new state and the returned \<^verbatim>\<open>*ApplyResult\<close> (\<open>None\<close> is
  \<^verbatim>\<open>nil\<close>). Exactly when a result is returned, a goroutine is started that calls
  \<^verbatim>\<open>onCommit\<close> with that same result. The outer \<open>None\<close> is "does not return".
\<close>

definition applyEntry ::
    "DocumentStateMachine \<Rightarrow> RaftLogEntry \<Rightarrow>
     (unit, DocumentStateMachine \<times> ApplyResult option) go_result option" where
  "applyEntry fsm entry =
     (let dup = (case clientLastSubmission fsm (ClientID entry) of
                   None \<Rightarrow> False
                 | Some lastSub \<Rightarrow> SubmissionID entry \<le> lastSub) in
      if dup then
        Some (Ok (fsm, Some \<lparr>CPrime = zeroChangeset, NewRev = headRev fsm,
                             res_ClientID = ClientID entry, IsDuplicate = True\<rparr>))
      else
        (case transform_loop (revisionLog fsm) (headRev fsm) (BaseRev entry)
                (entry_Changeset entry) of
           None \<Rightarrow> None
         | Some Panic \<Rightarrow> Some Panic
         | Some (Err e) \<Rightarrow> Some (Ok (fsm, None))
         | Some (Ok C) \<Rightarrow>
             (case ApplyChangeset (headText fsm) C of
                Panic \<Rightarrow> Some Panic
              | Err e \<Rightarrow> Some (Ok (fsm, None))
              | Ok newText \<Rightarrow>
                  let record = \<lparr>RevNumber = headRev fsm, rev_Changeset = C,
                                Source = ClientID entry\<rparr>;
                      fsm' = fsm\<lparr>revisionLog := revisionLog fsm @ [record],
                                 headText := newText,
                                 headRev := wrap64 (headRev fsm + 1),
                                 clientLastSubmission :=
                                   (clientLastSubmission fsm)(ClientID entry \<mapsto> SubmissionID entry)\<rparr>
                  in Some (Ok (fsm', Some \<lparr>CPrime = C, NewRev = headRev fsm',
                                           res_ClientID = ClientID entry, IsDuplicate = False\<rparr>)))))"

definition Apply ::
    "(string \<Rightarrow> RaftLogEntry option) \<Rightarrow> DocumentStateMachine \<Rightarrow> string \<Rightarrow>
     (unit, DocumentStateMachine \<times> ApplyResult option) go_result option" where
  "Apply unmarshal fsm data =
     (case unmarshal data of
        None \<Rightarrow> Some (Ok (fsm, None))
      | Some entry \<Rightarrow> applyEntry fsm entry)"

definition HeadText :: "DocumentStateMachine \<Rightarrow> string" where
  "HeadText fsm = headText fsm"

definition HeadRev :: "DocumentStateMachine \<Rightarrow> int" where
  "HeadRev fsm = headRev fsm"

text \<open>\<^verbatim>\<open>fsm.revisionLog[fromRev:]\<close> panics on a negative \<^verbatim>\<open>fromRev\<close>.\<close>

definition RevisionsSince :: "DocumentStateMachine \<Rightarrow> int \<Rightarrow> (unit, RevisionRecord list) go_result" where
  "RevisionsSince fsm fromRev =
     (if int (length (revisionLog fsm)) \<le> fromRev then Ok []
      else if fromRev < 0 then Panic
      else Ok (drop (nat fromRev) (revisionLog fsm)))"

section \<open>Specification vocabulary\<close>

text \<open>Applying a list of changesets in order; \<open>None\<close> as soon as one fails.\<close>

fun replay :: "string \<Rightarrow> Changeset list \<Rightarrow> string option" where
  "replay doc [] = Some doc"
| "replay doc (c # cs) = (case ApplyChangeset doc c of Ok doc' \<Rightarrow> replay doc' cs | _ \<Rightarrow> None)"

abbreviation history :: "DocumentStateMachine \<Rightarrow> Changeset list" where
  "history fsm \<equiv> map rev_Changeset (revisionLog fsm)"

text \<open>
  Invariant 1 of \<^verbatim>\<open>fsm.go\<close>: the head revision counts the log, the records are numbered in
  order, and the cached text is what the revision log makes of the initial text. The size
  bound (fewer than \<open>2^62\<close> revisions) keeps the revision counter from wrapping.
\<close>

definition fsm_inv :: "string \<Rightarrow> DocumentStateMachine \<Rightarrow> bool" where
  "fsm_inv init fsm \<longleftrightarrow>
     headRev fsm = int (length (revisionLog fsm)) \<and>
     map RevNumber (revisionLog fsm) = map int [0..<length (revisionLog fsm)] \<and>
     replay init (history fsm) = Some (headText fsm)"

text \<open>The transformation along a list of changesets, as a reference for the loop.\<close>

fun follow_all :: "Changeset list \<Rightarrow> Changeset \<Rightarrow> Changeset option" where
  "follow_all [] C = Some C"
| "follow_all (h # hs) C = (case Follow h C of None \<Rightarrow> None | Some C' \<Rightarrow> follow_all hs C')"

text \<open>
  What the author of \<open>C\<close> does while \<open>C\<close> is in flight (\<^verbatim>\<open>handleBroadcast\<close> of
  \<^verbatim>\<open>web/client.js\<close> with an empty \<open>Y\<close>): every broadcast revision \<open>h\<close> is transformed over
  the pending changeset and applied to the local text, and the pending changeset is
  transformed over \<open>h\<close>.
\<close>

fun author_rebase :: "Changeset list \<Rightarrow> Changeset \<Rightarrow> string \<Rightarrow> (Changeset \<times> string) option" where
  "author_rebase [] X view = Some (X, view)"
| "author_rebase (h # hs) X view =
     (case (Follow X h, Follow h X) of
        (Some D, Some X') \<Rightarrow>
          (case ApplyChangeset view D of Ok view' \<Rightarrow> author_rebase hs X' view' | _ \<Rightarrow> None)
      | _ \<Rightarrow> None)"

text \<open>Entries of a committed log applied one after the other, with the returned results.\<close>

fun applyAll ::
    "DocumentStateMachine \<Rightarrow> RaftLogEntry list \<Rightarrow>
     (DocumentStateMachine \<times> ApplyResult option list) option" where
  "applyAll fsm [] = Some (fsm, [])"
| "applyAll fsm (e # es) =
     (case applyEntry fsm e of
        Some (Ok (fsm', r)) \<Rightarrow> map_option (\<lambda>(fsm'', rs). (fsm'', r # rs)) (applyAll fsm' es)
      | _ \<Rightarrow> None)"

definition accepted :: "ApplyResult option \<Rightarrow> bool" where
  "accepted r = (case r of None \<Rightarrow> False | Some x \<Rightarrow> \<not> IsDuplicate x)"

section \<open>Lemmas on the transformation loop\<close>

lemma transform_loop_follow_all:
  assumes "0 \<le> r" and "r \<le> int (length log)"
  shows "transform_loop log (int (length log)) r C =
           map_option Ok (follow_all (drop (nat r) (map rev_Changeset log)) C)"
  using assms
proof (induction log "int (length log)" r C rule: transform_loop.induct)
  case (1 log r C)
  show ?case
  proof (cases "r < int (length log)")
    case True
    with "1.prems" have i: "go_index log r = Some (log ! nat r)" and n: "nat r < length log"
      by (auto simp: go_index_def)
    have d: "drop (nat r) (map rev_Changeset log) =
        rev_Changeset (log ! nat r) # drop (nat (r + 1)) (map rev_Changeset log)"
      using n "1.prems" by (simp add: Cons_nth_drop_Suc [symmetric] nat_add_distrib)
    show ?thesis
      using True i d "1.hyps" [OF True i] "1.prems"
      by (auto simp: transform_loop.simps [of log "int (length log)" r C] split: option.splits)
  next
    case False
    with "1.prems" show ?thesis by (subst transform_loop.simps) simp
  qed
qed

lemma transform_loop_negative:
  "r < 0 \<Longrightarrow> 0 \<le> head \<Longrightarrow> transform_loop log head r C = Some Panic"
  by (simp add: transform_loop.simps [of log head r C] go_index_None)

lemma replay_append:
  "replay doc (cs @ ds) = Option.bind (replay doc cs) (\<lambda>mid. replay mid ds)"
  by (induction cs arbitrary: doc) (auto split: go_result.splits)

lemma ApplyChangeset_Ok_OldLen: "ApplyChangeset doc c = Ok out \<Longrightarrow> OldLen c = go_len doc"
  by (auto simp: ApplyChangeset_def split: if_splits)

lemma ApplyChangeset_Ok_NewLen:
  assumes "wf_changeset c" and "ApplyChangeset doc c = Ok out"
  shows "go_len out = NewLen c"
  using ApplyChangeset_wf_Ok [OF assms(1) ApplyChangeset_Ok_OldLen [OF assms(2)]] assms(2)
  by (metis go_result.inject(1))

abbreviation total_new :: "Changeset list \<Rightarrow> int" where
  "total_new hs \<equiv> sum_list (map NewLen hs)"

lemma wf_NewLen_nonneg: "wf_changeset c \<Longrightarrow> 0 \<le> NewLen c"
  by (metis wf_changeset_def of_nat_0_le_iff)

lemma total_new_nonneg: "list_all wf_changeset hs \<Longrightarrow> 0 \<le> total_new hs"
  by (induction hs) (auto simp: wf_NewLen_nonneg)

text \<open>Along a well-formed history the transformation of a well-formed changeset succeeds.\<close>

lemma follow_all_wf:
  assumes "list_all wf_changeset hs" and "wf_changeset C" and "replay doc hs = Some head"
    and "OldLen C = go_len doc" and "NewLen C + total_new hs < 2 ^ 63"
  obtains C' where "follow_all hs C = Some C'" "wf_changeset C'" "OldLen C' = go_len head"
    "NewLen C' \<le> NewLen C + total_new hs"
  using assms
proof (induction hs arbitrary: C doc thesis)
  case Nil
  then show ?case by simp
next
  case (Cons h hs)
  from Cons.prems(4) obtain doc1 where doc1: "ApplyChangeset doc h = Ok doc1"
    and rest: "replay doc1 hs = Some head"
    by (auto split: go_result.splits)
  from Cons.prems(2) have wfh: "wf_changeset h" and wfs: "list_all wf_changeset hs" by auto
  from doc1 have old: "OldLen h = OldLen C"
    using ApplyChangeset_Ok_OldLen Cons.prems(5) by simp
  have sum: "NewLen h + NewLen C < 2 ^ 63"
    using Cons.prems(6) total_new_nonneg [OF wfs] by simp
  obtain F where F: "Follow h C = Some F" "wf_changeset F" "OldLen F = NewLen h"
    "NewLen F \<le> NewLen h + NewLen C"
    by (rule Follow_edits [OF wfh Cons.prems(3) old sum]) blast
  have "OldLen F = go_len doc1" using F(3) ApplyChangeset_Ok_NewLen [OF wfh doc1] by simp
  moreover have "NewLen F + total_new hs < 2 ^ 63" using F(4) Cons.prems(6) by simp
  ultimately obtain C' where "follow_all hs F = Some C'" "wf_changeset C'" "OldLen C' = go_len head"
    "NewLen C' \<le> NewLen F + total_new hs"
    using Cons.IH [OF _ wfs F(2) rest] by blast
  then show ?case using Cons.prems(1) [of C'] F by simp
qed

text \<open>The diamond of \<^verbatim>\<open>Follow\<close>, iterated along a history.\<close>

lemma follow_all_converges:
  assumes "list_all wf_changeset hs" and "list_all canonical hs"
    and "wf_changeset C" and "canonical C"
    and "replay doc hs = Some head" and "ApplyChangeset doc C = Ok view"
    and "NewLen C + total_new hs < 2 ^ 63"
  shows "\<exists>C' out. follow_all hs C = Some C' \<and> ApplyChangeset head C' = Ok out \<and>
           author_rebase hs C view = Some (C', out)"
  using assms
proof (induction hs arbitrary: C doc view)
  case Nil
  then show ?case by simp
next
  case (Cons h hs)
  from Cons.prems(5) obtain doc1 where doc1: "ApplyChangeset doc h = Ok doc1"
    and rest: "replay doc1 hs = Some head"
    by (auto split: go_result.splits)
  from Cons.prems(1,2) have wfh: "wf_changeset h" "canonical h"
    and wfs: "list_all wf_changeset hs" "list_all canonical hs" by auto
  note oh = ApplyChangeset_Ok_OldLen [OF doc1]
    and oc = ApplyChangeset_Ok_OldLen [OF Cons.prems(6)]
  have sum: "NewLen h + NewLen C < 2 ^ 63"
    using Cons.prems(7) total_new_nonneg [OF wfs(1)] by simp
  obtain F G da db mid where F: "Follow h C = Some F" "wf_changeset F" "canonical F"
    and G: "Follow C h = Some G"
    and a: "ApplyChangeset doc h = Ok da" "ApplyChangeset da F = Ok mid"
    and b: "ApplyChangeset doc C = Ok db" "ApplyChangeset db G = Ok mid"
    and n: "NewLen F = go_len mid" "go_len mid \<le> NewLen h + NewLen C"
    by (rule Follow_diamond [OF wfh(1) Cons.prems(3) wfh(2) Cons.prems(4) oh oc sum]) blast
  from a b doc1 Cons.prems(6) have eq: "da = doc1" "db = view" by auto
  have "NewLen F + total_new hs < 2 ^ 63" using n Cons.prems(7) by simp
  from Cons.IH [OF wfs F(2,3) rest _ this] a(2) eq obtain C' out where
    "follow_all hs F = Some C'" "ApplyChangeset head C' = Ok out"
    "author_rebase hs F mid = Some (C', out)"
    by blast
  with F G b eq show ?case by simp
qed

section \<open>One step of the state machine\<close>

lemma applyEntry_cases:
  assumes "applyEntry fsm e = Some (Ok (fsm', r))"
  obtains (duplicate) lastSub where "clientLastSubmission fsm (ClientID e) = Some lastSub"
      "SubmissionID e \<le> lastSub" "fsm' = fsm" "r = Some \<lparr>CPrime = zeroChangeset,
        NewRev = headRev fsm, res_ClientID = ClientID e, IsDuplicate = True\<rparr>"
  | (rejected) "fsm' = fsm" "r = None"
  | (applied) C newText where
      "case clientLastSubmission fsm (ClientID e) of None \<Rightarrow> True | Some l \<Rightarrow> l < SubmissionID e"
      "transform_loop (revisionLog fsm) (headRev fsm) (BaseRev e) (entry_Changeset e) = Some (Ok C)"
      "ApplyChangeset (headText fsm) C = Ok newText"
      "revisionLog fsm' = revisionLog fsm @
         [\<lparr>RevNumber = headRev fsm, rev_Changeset = C, Source = ClientID e\<rparr>]"
      "headText fsm' = newText" "headRev fsm' = wrap64 (headRev fsm + 1)"
      "clientLastSubmission fsm' = (clientLastSubmission fsm)(ClientID e \<mapsto> SubmissionID e)"
      "r = Some \<lparr>CPrime = C, NewRev = headRev fsm', res_ClientID = ClientID e, IsDuplicate = False\<rparr>"
proof (cases "case clientLastSubmission fsm (ClientID e) of
    None \<Rightarrow> False | Some lastSub \<Rightarrow> SubmissionID e \<le> lastSub")
  case True
  then obtain lastSub where l: "clientLastSubmission fsm (ClientID e) = Some lastSub"
      "SubmissionID e \<le> lastSub"
    by (auto split: option.splits)
  with assms have "fsm' = fsm" and "r = Some \<lparr>CPrime = zeroChangeset,
        NewRev = headRev fsm, res_ClientID = ClientID e, IsDuplicate = True\<rparr>"
    by (auto simp: applyEntry_def)
  with l show thesis by (rule duplicate)
next
  case False
  then have new: "case clientLastSubmission fsm (ClientID e) of None \<Rightarrow> True | Some l \<Rightarrow> l < SubmissionID e"
    by (auto split: option.splits)
  show thesis
  proof (cases "transform_loop (revisionLog fsm) (headRev fsm) (BaseRev e) (entry_Changeset e)")
    case None
    with False assms show thesis by (simp add: applyEntry_def)
  next
    case (Some res)
    show thesis
    proof (cases res)
      case (Ok C)
      note unfolded = assms [unfolded applyEntry_def Let_def] Some Ok False
      show thesis
      proof (cases "ApplyChangeset (headText fsm) C")
        case (Ok newText)
        show thesis
          by (rule applied [OF new, of C newText]) (use unfolded \<open>_ = Ok newText\<close> in auto)
      next
        case (Err x)
        show thesis by (rule rejected) (use unfolded \<open>_ = Err x\<close> in simp_all)
      next
        case Panic
        with unfolded show thesis by simp
      qed
    next
      case (Err x)
      with Some False assms rejected show thesis by (simp add: applyEntry_def)
    next
      case Panic
      with Some False assms show thesis by (simp add: applyEntry_def)
    qed
  qed
qed

lemma applyEntry_inv:
  assumes "fsm_inv init fsm" and "applyEntry fsm e = Some (Ok (fsm', r))"
    and "length (revisionLog fsm) < 2 ^ 62"
  shows "fsm_inv init fsm'"
  using assms(2)
proof (cases rule: applyEntry_cases)
  case (applied C newText)
  from assms(1,3) have "wrap64 (headRev fsm + 1) = headRev fsm + 1"
    by (intro wrap64_nonneg) (auto simp: fsm_inv_def)
  with assms(1) applied show ?thesis
    by (simp add: fsm_inv_def replay_append)
qed (use assms(1) in simp_all)

lemma applyEntry_log_length:
  assumes "applyEntry fsm e = Some (Ok (fsm', r))"
  shows "length (revisionLog fsm') \<le> Suc (length (revisionLog fsm))"
  using assms by (cases rule: applyEntry_cases) auto

lemma applyAll_ConsE:
  assumes "applyAll fsm (e # es) = Some (fsm', rs)"
  obtains fsm1 r rs' where "applyEntry fsm e = Some (Ok (fsm1, r))"
    "applyAll fsm1 es = Some (fsm', rs')" "rs = r # rs'"
proof (cases "applyEntry fsm e")
  case None
  with assms show thesis by simp
next
  case (Some res)
  show thesis
  proof (cases res)
    case (Ok p)
    obtain fsm1 r where "p = (fsm1, r)" by (cases p)
    with Some Ok assms that show thesis by auto
  qed (use Some assms in simp_all)
qed

lemma applyAll_inv:
  "fsm_inv init fsm \<Longrightarrow> applyAll fsm es = Some (fsm', rs) \<Longrightarrow>
   length (revisionLog fsm) + length es < 2 ^ 62 \<Longrightarrow> fsm_inv init fsm'"
proof (induction es arbitrary: fsm rs)
  case Nil
  then show ?case by simp
next
  case (Cons e es)
  obtain fsm1 r rs' where step: "applyEntry fsm e = Some (Ok (fsm1, r))"
    and rest: "applyAll fsm1 es = Some (fsm', rs')"
    by (rule applyAll_ConsE [OF Cons.prems(2)])
  have "fsm_inv init fsm1"
    by (rule applyEntry_inv [OF Cons.prems(1) step]) (use Cons.prems(3) in simp)
  moreover have "length (revisionLog fsm1) + length es < 2 ^ 62"
    using applyEntry_log_length [OF step] Cons.prems(3) by simp
  ultimately show ?case using Cons.IH rest by blast
qed

lemma fsm_inv_init: "fsm_inv init (NewDocumentStateMachine init)"
  by (simp add: fsm_inv_def NewDocumentStateMachine_def)

text \<open>Highest submission per client: what the idempotency guard relies on.\<close>

definition submitted_after :: "DocumentStateMachine \<Rightarrow> RaftLogEntry \<Rightarrow> bool" where
  "submitted_after fsm e =
     (case clientLastSubmission fsm (ClientID e) of None \<Rightarrow> True | Some l \<Rightarrow> l < SubmissionID e)"

lemma applyEntry_submissions:
  assumes "applyEntry fsm e = Some (Ok (fsm', r))"
  shows "accepted r \<Longrightarrow> submitted_after fsm e \<and>
           clientLastSubmission fsm' = (clientLastSubmission fsm)(ClientID e \<mapsto> SubmissionID e)"
    and "\<not> accepted r \<Longrightarrow> fsm' = fsm"
  using assms by (cases rule: applyEntry_cases; simp add: accepted_def submitted_after_def)+

fun accepted_entries :: "RaftLogEntry list \<Rightarrow> ApplyResult option list \<Rightarrow> RaftLogEntry list" where
  "accepted_entries (e # es) (r # rs) =
     (if accepted r then e # accepted_entries es rs else accepted_entries es rs)"
| "accepted_entries _ _ = []"

abbreviation later_submission :: "RaftLogEntry \<Rightarrow> RaftLogEntry \<Rightarrow> bool" where
  "later_submission a b \<equiv> (ClientID a = ClientID b \<longrightarrow> SubmissionID a < SubmissionID b)"

lemma applyAll_submissions:
  "applyAll fsm es = Some (fsm', rs) \<Longrightarrow>
   sorted_wrt later_submission (accepted_entries es rs) \<and>
   (\<forall>e \<in> set (accepted_entries es rs). submitted_after fsm e)"
proof (induction es arbitrary: fsm rs)
  case Nil
  then show ?case by simp
next
  case (Cons e es)
  obtain fsm1 r rs' where step: "applyEntry fsm e = Some (Ok (fsm1, r))"
    and rest: "applyAll fsm1 es = Some (fsm', rs')" and rs: "rs = r # rs'"
    by (rule applyAll_ConsE [OF Cons.prems])
  note IH = Cons.IH [OF rest]
  show ?case
  proof (cases "accepted r")
    case False
    with applyEntry_submissions(2) [OF step] IH rs show ?thesis by simp
  next
    case True
    note upd = applyEntry_submissions(1) [OF step True]
    have later: "later_submission e x" and aft: "submitted_after fsm x"
      if "x \<in> set (accepted_entries es rs')" for x
    proof -
      have "submitted_after fsm1 x" using IH that by blast
      with upd show "later_submission e x" "submitted_after fsm x"
        by (auto simp: submitted_after_def split: option.splits if_splits)
    qed
    from True rs have "accepted_entries (e # es) rs = e # accepted_entries es rs'" by simp
    with IH later aft upd show ?thesis by auto
  qed
qed

section \<open>Submissions that are accepted\<close>

text \<open>
  The entries the server lets through: well-formed, made for a revision of the log, and new.
  \<open>base\<close> is the text of that revision.
\<close>

definition valid_submission :: "string \<Rightarrow> DocumentStateMachine \<Rightarrow> RaftLogEntry \<Rightarrow> string \<Rightarrow> bool" where
  "valid_submission init fsm e base \<longleftrightarrow>
     submitted_after fsm e \<and> 0 \<le> BaseRev e \<and> BaseRev e \<le> headRev fsm \<and>
     wf_changeset (entry_Changeset e) \<and>
     replay init (take (nat (BaseRev e)) (history fsm)) = Some base \<and>
     OldLen (entry_Changeset e) = go_len base \<and>
     NewLen (entry_Changeset e) + total_new (drop (nat (BaseRev e)) (history fsm)) < 2 ^ 63"

definition wf_history :: "DocumentStateMachine \<Rightarrow> bool" where
  "wf_history fsm = list_all wf_changeset (history fsm)"

definition canonical_history :: "DocumentStateMachine \<Rightarrow> bool" where
  "canonical_history fsm = list_all canonical (history fsm)"

lemma list_all_drop: "list_all P xs \<Longrightarrow> list_all P (drop n xs)"
  by (auto simp: list_all_iff dest: in_set_dropD)

lemma replay_suffix:
  assumes "fsm_inv init fsm" and "replay init (take n (history fsm)) = Some base"
  shows "replay base (drop n (history fsm)) = Some (headText fsm)"
  using assms replay_append [of init "take n (history fsm)" "drop n (history fsm)"]
  by (simp add: fsm_inv_def)

lemma applyEntry_follow_all:
  assumes "fsm_inv init fsm" and "submitted_after fsm e"
    and "0 \<le> BaseRev e" and "BaseRev e \<le> headRev fsm"
    and "follow_all (drop (nat (BaseRev e)) (history fsm)) (entry_Changeset e) = Some C"
    and "ApplyChangeset (headText fsm) C = Ok out"
  shows "\<exists>fsm'. applyEntry fsm e = Some (Ok (fsm', Some \<lparr>CPrime = C,
           NewRev = wrap64 (headRev fsm + 1), res_ClientID = ClientID e, IsDuplicate = False\<rparr>)) \<and>
           headText fsm' = out \<and> history fsm' = history fsm @ [C] \<and>
           headRev fsm' = wrap64 (headRev fsm + 1)"
proof -
  from assms(1) have head: "headRev fsm = int (length (revisionLog fsm))" by (simp add: fsm_inv_def)
  have "transform_loop (revisionLog fsm) (headRev fsm) (BaseRev e) (entry_Changeset e) = Some (Ok C)"
    using transform_loop_follow_all [of "BaseRev e" "revisionLog fsm"] assms(3-5) head by simp
  moreover have "\<not> (case clientLastSubmission fsm (ClientID e) of
      None \<Rightarrow> False | Some lastSub \<Rightarrow> SubmissionID e \<le> lastSub)"
    using assms(2) by (auto simp: submitted_after_def split: option.splits)
  ultimately show ?thesis using assms(6) by (simp add: applyEntry_def Let_def)
qed

lemma headRev_step:
  "fsm_inv init fsm \<Longrightarrow> length (revisionLog fsm) < 2 ^ 62 \<Longrightarrow>
   wrap64 (headRev fsm + 1) = headRev fsm + 1"
  by (intro wrap64_nonneg) (auto simp: fsm_inv_def)

lemma valid_submission_accepted:
  assumes "fsm_inv init fsm" and "wf_history fsm" and "valid_submission init fsm e base"
  shows "\<exists>fsm' C. applyEntry fsm e = Some (Ok (fsm', Some \<lparr>CPrime = C,
           NewRev = wrap64 (headRev fsm + 1), res_ClientID = ClientID e, IsDuplicate = False\<rparr>)) \<and>
           headRev fsm' = wrap64 (headRev fsm + 1) \<and> wf_history fsm'"
proof -
  note v = assms(3) [unfolded valid_submission_def]
  let ?hs = "drop (nat (BaseRev e)) (history fsm)"
  from assms(2) have wfs: "list_all wf_changeset ?hs" by (simp only: wf_history_def list_all_drop)
  obtain C where C: "follow_all ?hs (entry_Changeset e) = Some C" "wf_changeset C"
    "OldLen C = go_len (headText fsm)"
    by (rule follow_all_wf [OF wfs, of "entry_Changeset e" base "headText fsm"])
      (use v replay_suffix [OF assms(1)] in auto)
  from ApplyChangeset_wf_Ok [OF C(2,3)] obtain out where "ApplyChangeset (headText fsm) C = Ok out" .
  with applyEntry_follow_all [OF assms(1) _ _ _ C(1)] v obtain fsm' where
    "applyEntry fsm e = Some (Ok (fsm', Some \<lparr>CPrime = C,
       NewRev = wrap64 (headRev fsm + 1), res_ClientID = ClientID e, IsDuplicate = False\<rparr>))"
    "history fsm' = history fsm @ [C]" "headRev fsm' = wrap64 (headRev fsm + 1)"
    by blast
  with assms(2) C(2) show ?thesis by (auto simp: wf_history_def)
qed

lemma valid_submission_converges:
  assumes "fsm_inv init fsm" and "wf_history fsm" and "canonical_history fsm"
    and "valid_submission init fsm e base" and "canonical (entry_Changeset e)"
    and "ApplyChangeset base (entry_Changeset e) = Ok view"
  shows "\<exists>fsm' r. applyEntry fsm e = Some (Ok (fsm', Some r)) \<and> \<not> IsDuplicate r \<and>
           author_rebase (drop (nat (BaseRev e)) (history fsm)) (entry_Changeset e) view =
             Some (CPrime r, headText fsm')"
proof -
  note v = assms(4) [unfolded valid_submission_def]
  let ?hs = "drop (nat (BaseRev e)) (history fsm)"
  from assms(2,3) have "list_all wf_changeset ?hs" "list_all canonical ?hs"
    by (simp_all only: wf_history_def canonical_history_def list_all_drop)
  then obtain C out where C: "follow_all ?hs (entry_Changeset e) = Some C"
    "ApplyChangeset (headText fsm) C = Ok out" "author_rebase ?hs (entry_Changeset e) view = Some (C, out)"
    using follow_all_converges [of ?hs "entry_Changeset e" base "headText fsm" view]
      v assms(5,6) replay_suffix [OF assms(1)] by auto
  with applyEntry_follow_all [OF assms(1) _ _ _ C(1,2)] v show ?thesis by fastforce
qed

lemma duplicate_acknowledged:
  assumes "clientLastSubmission fsm (ClientID e) = Some l" and "SubmissionID e \<le> l"
  shows "applyEntry fsm e = Some (Ok (fsm, Some \<lparr>CPrime = zeroChangeset, NewRev = headRev fsm,
           res_ClientID = ClientID e, IsDuplicate = True\<rparr>))"
  using assms by (simp add: applyEntry_def)

lemma applyEntry_last_mono:
  assumes "applyEntry fsm e = Some (Ok (fsm', r))" and "clientLastSubmission fsm c = Some l"
  shows "\<exists>l'. clientLastSubmission fsm' c = Some l' \<and> l \<le> l'"
  using assms(1)
proof (cases rule: applyEntry_cases)
  case (applied C newText)
  with assms(2) show ?thesis by (auto split: option.splits)
qed (use assms(2) in auto)

lemma applyAll_last_mono:
  "applyAll fsm es = Some (fsm', rs) \<Longrightarrow> clientLastSubmission fsm c = Some l \<Longrightarrow>
   \<exists>l'. clientLastSubmission fsm' c = Some l' \<and> l \<le> l'"
proof (induction es arbitrary: fsm rs l)
  case Nil
  then show ?case by simp
next
  case (Cons e es)
  obtain fsm1 r rs' where step: "applyEntry fsm e = Some (Ok (fsm1, r))"
    and rest: "applyAll fsm1 es = Some (fsm', rs')"
    by (rule applyAll_ConsE [OF Cons.prems(1)])
  from applyEntry_last_mono [OF step Cons.prems(2)] obtain l1
    where "clientLastSubmission fsm1 c = Some l1" "l \<le> l1" by blast
  with Cons.IH [OF rest this(1)] show ?case by force
qed

section \<open>A concrete run\<close>

text \<open>
  Document \<open>"x"\<close>; Bob's insert of \<open>"b"\<close> at its beginning is committed, then re-submitted,
  then Bob sends a changeset for a text of another length. Alice's insert of \<open>"a"\<close> was made
  for revision 0.
\<close>

definition bob_entry :: RaftLogEntry where
  "bob_entry = \<lparr>ClientID = ''bob'', SubmissionID = 7, BaseRev = 0,
                entry_Changeset = MakeInsert 1 0 ''b''\<rparr>"

definition bob_bad_entry :: RaftLogEntry where
  "bob_bad_entry = \<lparr>ClientID = ''bob'', SubmissionID = 8, BaseRev = 1,
                    entry_Changeset = MakeInsert 9 0 ''b''\<rparr>"

definition alice_entry :: RaftLogEntry where
  "alice_entry = \<lparr>ClientID = ''alice'', SubmissionID = 1, BaseRev = 0,
                  entry_Changeset = MakeInsert 1 0 ''a''\<rparr>"

definition bob_result :: ApplyResult where
  "bob_result = \<lparr>CPrime = MakeInsert 1 0 ''b'', NewRev = 1, res_ClientID = ''bob'',
                 IsDuplicate = False\<rparr>"

definition bob_dup_result :: ApplyResult where
  "bob_dup_result = \<lparr>CPrime = zeroChangeset, NewRev = 1, res_ClientID = ''bob'',
                     IsDuplicate = True\<rparr>"

definition run_fsm :: DocumentStateMachine where
  "run_fsm = \<lparr>headText = ''bx'', headRev = 1,
     revisionLog = [\<lparr>RevNumber = 0, rev_Changeset = MakeInsert 1 0 ''b'', Source = ''bob''\<rparr>],
     clientLastSubmission = [''bob'' \<mapsto> 7]\<rparr>"

lemmas run_defs = bob_entry_def bob_bad_entry_def alice_entry_def bob_result_def
  bob_dup_result_def run_fsm_def

lemma MakeInsert_example:
  "MakeInsert 1 0 [c] = \<lparr>OldLen = 1, NewLen = 2, Ops = [insertOp [c], retainOp 1]\<rparr>"
  by (simp add: MakeInsert_def go_len_def wrap64_def)

lemma ApplyChangeset_example:
  "ApplyChangeset ''x'' (MakeInsert 1 0 [c]) = Ok [c, CHR ''x'']"
  by (simp add: MakeInsert_example ApplyChangeset_def insertOp_def retainOp_def go_len_def
      wrap64_def go_slice_def)

lemma run_bob: "applyEntry (NewDocumentStateMachine ''x'') bob_entry = Some (Ok (run_fsm, Some bob_result))"
  by (simp add: applyEntry_def NewDocumentStateMachine_def run_defs transform_loop.simps
      ApplyChangeset_example wrap64_def)

lemma run_bob_again: "applyEntry run_fsm bob_entry = Some (Ok (run_fsm, Some bob_dup_result))"
  by (simp add: applyEntry_def run_defs)

lemma ApplyChangeset_OldLen_mismatch:
  "OldLen c \<noteq> go_len doc \<Longrightarrow> ApplyChangeset doc c = Err (OldLenMismatch (OldLen c) (go_len doc))"
  by (simp add: ApplyChangeset_def)

lemma run_bob_bad: "applyEntry run_fsm bob_bad_entry = Some (Ok (run_fsm, None))"
proof -
  have "OldLen (MakeInsert 9 0 ''b'') = 9" by (simp add: MakeInsert_def Let_def)
  then show ?thesis
    by (simp add: applyEntry_def run_defs transform_loop.simps ApplyChangeset_OldLen_mismatch go_len_def)
qed

lemma run_all:
  "applyAll (NewDocumentStateMachine ''x'') [bob_entry, bob_entry, bob_bad_entry] =
     Some (run_fsm, [Some bob_result, Some bob_dup_result, None])"
  by (simp add: run_bob run_bob_again run_bob_bad)

lemma MakeInsert_example_wf: "wf_changeset (MakeInsert 1 0 [c])" "canonical (MakeInsert 1 0 [c])"
  by (simp_all add: MakeInsert_example wf_changeset_def canonical_def)

lemma run_invariants: "fsm_inv ''x'' run_fsm" "wf_history run_fsm" "canonical_history run_fsm"
  by (simp_all add: fsm_inv_def wf_history_def canonical_history_def run_fsm_def
      ApplyChangeset_example MakeInsert_example_wf)

lemma run_alice_valid: "valid_submission ''x'' run_fsm alice_entry ''x''"
  by (simp add: valid_submission_def submitted_after_def run_defs MakeInsert_example_wf)
    (simp add: MakeInsert_example go_len_def)

section \<open>Properties\<close>

text \<open>
  C5. The author and the servers converge. Revision \<open>BaseRev e\<close> had the text \<open>base\<close>, and a
  client edited it with a canonical changeset to \<open>view\<close> while the revisions after it were
  committed. The state machine accepts the submission, and the client that rebases over the
  same revisions in the same order ends with exactly the server's head text, its pending
  changeset being exactly the revision the servers recorded.
\<close>

theorem author_and_server_converge:
  assumes "fsm_inv init fsm" and "wf_history fsm" and "canonical_history fsm"
    and "valid_submission init fsm e base" and "canonical (entry_Changeset e)"
    and "ApplyChangeset base (entry_Changeset e) = Ok view"
  shows "\<exists>fsm' r. applyEntry fsm e = Some (Ok (fsm', Some r)) \<and> \<not> IsDuplicate r \<and>
           author_rebase (drop (nat (BaseRev e)) (history fsm)) (entry_Changeset e) view =
             Some (CPrime r, headText fsm')"
  by (rule valid_submission_converges [OF assms])

theorem author_and_server_converge_witness:
  "\<exists>fsm' r. applyEntry run_fsm alice_entry = Some (Ok (fsm', Some r)) \<and> \<not> IsDuplicate r \<and>
     author_rebase (drop (nat (BaseRev alice_entry)) (history run_fsm))
       (entry_Changeset alice_entry) ''ax'' = Some (CPrime r, headText fsm')"
  by (rule author_and_server_converge [OF run_invariants run_alice_valid])
    (simp_all add: alice_entry_def MakeInsert_example_wf ApplyChangeset_example)

text \<open>
  C21. A valid submission is never refused, whatever was committed since its base revision:
  the transformation terminates, the result applies to the head text, the revision counter
  advances by one, and the invariant and the well-formedness of the history are kept.
\<close>

theorem valid_submission_is_applied:
  assumes "fsm_inv init fsm" and "wf_history fsm" and "valid_submission init fsm e base"
    and "length (revisionLog fsm) < 2 ^ 62"
  shows "\<exists>fsm' C. applyEntry fsm e = Some (Ok (fsm', Some \<lparr>CPrime = C,
           NewRev = headRev fsm + 1, res_ClientID = ClientID e, IsDuplicate = False\<rparr>)) \<and>
           headRev fsm' = headRev fsm + 1 \<and> wf_history fsm' \<and> fsm_inv init fsm'"
  using valid_submission_accepted [OF assms(1-3)] headRev_step [OF assms(1,4)]
    applyEntry_inv [OF assms(1) _ assms(4)]
  by (metis (no_types, lifting))

theorem valid_submission_is_applied_witness:
  "\<exists>fsm' C. applyEntry run_fsm alice_entry = Some (Ok (fsm', Some \<lparr>CPrime = C,
     NewRev = headRev run_fsm + 1, res_ClientID = ClientID alice_entry, IsDuplicate = False\<rparr>)) \<and>
     headRev fsm' = headRev run_fsm + 1 \<and> wf_history fsm' \<and> fsm_inv ''x'' fsm'"
  by (rule valid_submission_is_applied [OF run_invariants(1,2) run_alice_valid])
    (simp add: run_fsm_def)

text \<open>
  C12. The cached document is the revision log. After any committed log, whatever its
  entries (well-formed or not, duplicates included), the head revision equals the length of
  the revision log, the records are numbered consecutively, and the head text is the
  initial text with every recorded changeset applied in order.
\<close>

theorem applyAll_head_is_replay:
  assumes "applyAll (NewDocumentStateMachine init) es = Some (fsm, rs)" and "length es < 2 ^ 62"
  shows "replay init (history fsm) = Some (headText fsm) \<and>
         headRev fsm = int (length (revisionLog fsm)) \<and>
         map RevNumber (revisionLog fsm) = map int [0..<length (revisionLog fsm)]"
proof -
  have "length (revisionLog (NewDocumentStateMachine init)) + length es < 2 ^ 62"
    using assms(2) by (simp add: NewDocumentStateMachine_def)
  from applyAll_inv [OF fsm_inv_init assms(1) this] show ?thesis by (simp add: fsm_inv_def)
qed

theorem applyAll_head_is_replay_witness:
  "replay ''x'' (history run_fsm) = Some (headText run_fsm) \<and>
   headRev run_fsm = int (length (revisionLog run_fsm)) \<and>
   map RevNumber (revisionLog run_fsm) = map int [0..<length (revisionLog run_fsm)]"
  by (rule applyAll_head_is_replay [OF run_all]) simp

text \<open>
  C20. At-most-once application. Along any committed log, the entries of one client that
  are applied have strictly increasing submission ids; in particular a re-submitted entry
  is applied at most once.
\<close>

theorem applyAll_at_most_once:
  assumes "applyAll fsm es = Some (fsm', rs)"
  shows "sorted_wrt (\<lambda>a b. ClientID a = ClientID b \<longrightarrow> SubmissionID a < SubmissionID b)
           (accepted_entries es rs)"
  using applyAll_submissions [OF assms] by blast

theorem applyAll_at_most_once_witness:
  "sorted_wrt (\<lambda>a b. ClientID a = ClientID b \<longrightarrow> SubmissionID a < SubmissionID b)
     (accepted_entries [bob_entry, bob_entry, bob_bad_entry]
        [Some bob_result, Some bob_dup_result, None])"
  by (rule applyAll_at_most_once [OF run_all])

text \<open>
  A re-submission is acknowledged without effect. Once an entry was applied, applying
  it again after any further committed entries leaves the state unchanged and returns a
  duplicate result carrying the current head revision.
\<close>

theorem resubmission_is_acknowledged:
  assumes "applyEntry fsm e = Some (Ok (fsm1, r))" and "accepted r"
    and "applyAll fsm1 es = Some (fsm2, rs)"
  shows "applyEntry fsm2 e = Some (Ok (fsm2, Some \<lparr>CPrime = zeroChangeset,
           NewRev = headRev fsm2, res_ClientID = ClientID e, IsDuplicate = True\<rparr>))"
proof -
  from applyEntry_submissions(1) [OF assms(1,2)]
  have "clientLastSubmission fsm1 (ClientID e) = Some (SubmissionID e)" by simp
  from applyAll_last_mono [OF assms(3) this] show ?thesis using duplicate_acknowledged by blast
qed

theorem resubmission_is_acknowledged_witness:
  "applyEntry run_fsm bob_entry = Some (Ok (run_fsm, Some \<lparr>CPrime = zeroChangeset,
     NewRev = headRev run_fsm, res_ClientID = ClientID bob_entry, IsDuplicate = True\<rparr>))"
  by (rule resubmission_is_acknowledged [OF run_bob _, of "[bob_bad_entry]" _ "[None]"])
    (simp_all add: accepted_def bob_result_def run_bob_bad)

text \<open>
  Catch-up. For a revision number in range, \<^verbatim>\<open>RevisionsSince\<close> returns exactly the
  revisions that lead from the text of that revision to the head text; for a negative one
  (which \<^verbatim>\<open>handleConnect\<close> does not rule out) it panics.
\<close>

theorem RevisionsSince_catches_up:
  assumes "fsm_inv init fsm" and "replay init (take (nat n) (history fsm)) = Some client_text"
  shows "if n < 0 then RevisionsSince fsm n = Panic
         else \<exists>recs. RevisionsSince fsm n = Ok recs \<and>
                replay client_text (map rev_Changeset recs) = Some (headText fsm)"
  using replay_suffix [OF assms] by (auto simp: RevisionsSince_def drop_map)

theorem RevisionsSince_catches_up_witness:
  "\<exists>recs. RevisionsSince run_fsm 0 = Ok recs \<and>
      replay ''x'' (map rev_Changeset recs) = Some (headText run_fsm)"
  using RevisionsSince_catches_up [OF run_invariants(1), of 0 "''x''"] by simp

text \<open>
  C31. A negative base revision passes every check before \<^verbatim>\<open>Apply\<close> and indexes the
  revision log out of range: the committed entry panics the state machine of every node.
\<close>

theorem negative_BaseRev_panics:
  assumes "fsm_inv init fsm" and "submitted_after fsm e" and "BaseRev e < 0"
  shows "applyEntry fsm e = Some Panic"
proof -
  from assms(1) have "0 \<le> headRev fsm" by (simp add: fsm_inv_def)
  with assms(2,3) show ?thesis
    by (simp add: applyEntry_def transform_loop_negative submitted_after_def split: option.splits)
qed

theorem negative_BaseRev_panics_witness:
  "applyEntry run_fsm (alice_entry\<lparr>BaseRev := -1\<rparr>) = Some Panic"
  by (rule negative_BaseRev_panics [OF run_invariants(1)])
    (simp_all add: submitted_after_def run_defs)

text \<open>
  C32. \<^verbatim>\<open>Validate\<close> adds lengths in 64 bits: a changeset whose retains sum to \<open>2^64 + 3\<close>
  passes it as a changeset of a three-byte text, and applying it panics (slice bounds out of
  range) the state machine of every node that commits it.
\<close>

theorem Validate_overflow_panics:
  "\<exists>c. Validate c = None \<and> \<not> wf_changeset c \<and>
     applyEntry (NewDocumentStateMachine ''abc'')
       \<lparr>ClientID = ''m'', SubmissionID = 0, BaseRev = 0, entry_Changeset = c\<rparr> = Some Panic"
proof (intro exI conjI)
  let ?c = "\<lparr>OldLen = 3, NewLen = 3,
    Ops = [retainOp 2, retainOp (2 ^ 63 - 1), retainOp (2 ^ 63 - 1), retainOp 3]\<rparr>"
  show "Validate ?c = None" by (simp add: Validate_def retainOp_def wrap64_def)
  show "\<not> wf_changeset ?c" by (simp add: wf_changeset_def)
  show "applyEntry (NewDocumentStateMachine ''abc'')
       \<lparr>ClientID = ''m'', SubmissionID = 0, BaseRev = 0, entry_Changeset = ?c\<rparr> = Some Panic"
    by (simp add: applyEntry_def NewDocumentStateMachine_def transform_loop.simps
        ApplyChangeset_def retainOp_def wrap64_def go_len_def go_slice_def)
qed

end
