(* ===== verification/Wire_Entry.thy ===== *)
theory Wire_Entry
  imports Go_Decode Doc_FSM
begin

text \<open>
  The JSON form of changesets and of the commands in the Raft log: the struct tags of
  \<^verbatim>\<open>ot/changeset.go\<close> and \<^verbatim>\<open>fsm/types.go\<close>, \<^verbatim>\<open>Changeset.String\<close>, \<^verbatim>\<open>MarshalEntry\<close> and
  \<^verbatim>\<open>UnmarshalEntry\<close>. A slice without elements is written as \<^verbatim>\<open>[]\<close> here; Go writes \<^verbatim>\<open>null\<close> for a nil
  slice, which decodes to the same value of the model.
\<close>

section \<open>Changesets\<close>

fun op_name :: "OpType \<Rightarrow> string" where
  "op_name OpRetain = ''retain''"
| "op_name OpInsert = ''insert''"
| "op_name OpDelete = ''delete''"
| "op_name (OpOther t) = t"

definition op_of_name :: "string \<Rightarrow> OpType" where
  "op_of_name t =
     (if t = ''retain'' then OpRetain else if t = ''insert'' then OpInsert
      else if t = ''delete'' then OpDelete else OpOther t)"

text \<open>\<^verbatim>\<open>omitempty\<close> leaves out a zero length and an empty string.\<close>

definition enc_Op :: "Op \<Rightarrow> json" where
  "enc_Op op =
     JObj ([(''op'', JStr (op_name (op_Type op)))] @
           (if op_Len op = 0 then [] else [(''n'', JNum (show_int (op_Len op)))]) @
           (if op_Chars op = [] then [] else [(''chars'', JStr (op_Chars op))]))"

definition zeroOp :: Op where
  "zeroOp = \<lparr>op_Type = OpOther [], op_Len = 0, op_Chars = []\<rparr>"

definition dec_Op :: "Op decoder" where
  "dec_Op = dec_struct [''op'', ''n'', ''chars'']
     (\<lambda>k v op.
        if k = ''op'' then into dec_string (op_name (op_Type op)) (\<lambda>t. op\<lparr>op_Type := op_of_name t\<rparr>) v
        else if k = ''n'' then into dec_int (op_Len op) (\<lambda>n. op\<lparr>op_Len := n\<rparr>) v
        else into dec_string (op_Chars op) (\<lambda>s. op\<lparr>op_Chars := s\<rparr>) v)"

definition enc_Changeset :: "Changeset \<Rightarrow> json" where
  "enc_Changeset c =
     JObj [(''old_len'', JNum (show_int (OldLen c))), (''new_len'', JNum (show_int (NewLen c))),
           (''ops'', JArr (map enc_Op (Ops c)))]"

definition dec_Changeset :: "Changeset decoder" where
  "dec_Changeset = dec_struct [''old_len'', ''new_len'', ''ops'']
     (\<lambda>k v c.
        if k = ''old_len'' then into dec_int (OldLen c) (\<lambda>n. c\<lparr>OldLen := n\<rparr>) v
        else if k = ''new_len'' then into dec_int (NewLen c) (\<lambda>n. c\<lparr>NewLen := n\<rparr>) v
        else into (dec_slice dec_Op zeroOp) (Ops c) (\<lambda>ops. c\<lparr>Ops := ops\<rparr>) v)"

definition changeset_String :: "Changeset \<Rightarrow> string" where
  "changeset_String c = print (enc_Changeset c)"

section \<open>types.go\<close>

definition enc_RaftLogEntry :: "RaftLogEntry \<Rightarrow> json" where
  "enc_RaftLogEntry e =
     JObj [(''client_id'', JStr (ClientID e)), (''submission_id'', JNum (show_int (SubmissionID e))),
           (''base_rev'', JNum (show_int (BaseRev e))), (''changeset'', enc_Changeset (entry_Changeset e))]"

definition zeroRaftLogEntry :: RaftLogEntry where
  "zeroRaftLogEntry = \<lparr>ClientID = [], SubmissionID = 0, BaseRev = 0, entry_Changeset = zeroChangeset\<rparr>"

definition dec_RaftLogEntry :: "RaftLogEntry decoder" where
  "dec_RaftLogEntry = dec_struct [''client_id'', ''submission_id'', ''base_rev'', ''changeset'']
     (\<lambda>k v e.
        if k = ''client_id'' then into dec_string (ClientID e) (\<lambda>s. e\<lparr>ClientID := s\<rparr>) v
        else if k = ''submission_id'' then into dec_int (SubmissionID e) (\<lambda>n. e\<lparr>SubmissionID := n\<rparr>) v
        else if k = ''base_rev'' then into dec_int (BaseRev e) (\<lambda>n. e\<lparr>BaseRev := n\<rparr>) v
        else into dec_Changeset (entry_Changeset e) (\<lambda>c. e\<lparr>entry_Changeset := c\<rparr>) v)"

text \<open>\<^verbatim>\<open>json.Marshal\<close> does not fail on these types.\<close>

definition MarshalEntry :: "RaftLogEntry \<Rightarrow> string option" where
  "MarshalEntry e = Some (print (enc_RaftLogEntry e))"

definition UnmarshalEntry :: "string \<Rightarrow> RaftLogEntry option" where
  "UnmarshalEntry data = decoded (Unmarshal dec_RaftLogEntry data zeroRaftLogEntry)"

definition enc_RevisionRecord :: "RevisionRecord \<Rightarrow> json" where
  "enc_RevisionRecord r =
     JObj [(''rev_number'', JNum (show_int (RevNumber r))), (''changeset'', enc_Changeset (rev_Changeset r)),
           (''source'', JStr (Source r))]"

section \<open>Values that the Go types can hold, and what JSON makes of them\<close>

definition op_fits :: "Op \<Rightarrow> bool" where
  "op_fits op \<longleftrightarrow> in_int64 (op_Len op)"

definition changeset_fits :: "Changeset \<Rightarrow> bool" where
  "changeset_fits c \<longleftrightarrow> in_int64 (OldLen c) \<and> in_int64 (NewLen c) \<and> list_all op_fits (Ops c)"

definition command_fits :: "RaftLogEntry \<Rightarrow> bool" where
  "command_fits e \<longleftrightarrow> in_int64 (SubmissionID e) \<and> in_int64 (BaseRev e) \<and> changeset_fits (entry_Changeset e)"

text \<open>Every string becomes valid UTF-8, everything else stays.\<close>

definition sent_Op :: "Op \<Rightarrow> Op" where
  "sent_Op op = op\<lparr>op_Type := op_of_name (to_valid (op_name (op_Type op))), op_Chars := to_valid (op_Chars op)\<rparr>"

definition sent_Changeset :: "Changeset \<Rightarrow> Changeset" where
  "sent_Changeset c = c\<lparr>Ops := map sent_Op (Ops c)\<rparr>"

definition sent_command :: "RaftLogEntry \<Rightarrow> RaftLogEntry" where
  "sent_command e = e\<lparr>ClientID := to_valid (ClientID e), entry_Changeset := sent_Changeset (entry_Changeset e)\<rparr>"

section \<open>Lemmas\<close>

lemma valid_utf8_ascii_literals [simp]:
  "valid_utf8 []" "valid_utf8 ''op''" "valid_utf8 ''n''" "valid_utf8 ''chars''" "valid_utf8 ''old_len''"
  "valid_utf8 ''new_len''" "valid_utf8 ''ops''" "valid_utf8 ''client_id''" "valid_utf8 ''submission_id''"
  "valid_utf8 ''base_rev''" "valid_utf8 ''changeset''" "valid_utf8 ''rev_number''" "valid_utf8 ''source''"
  "valid_utf8 ''retain''" "valid_utf8 ''insert''" "valid_utf8 ''delete''"
  by (rule ascii_valid_utf8, simp)+

lemma op_of_name_inverse [simp]: "op_name (op_of_name t) = t"
  by (simp add: op_of_name_def)

lemmas struct_simps = dec_struct_def into_def field_exact dec_basic Let_def

lemma coerce_Op [simp]: "coerce (enc_Op op) = enc_Op (sent_Op op)"
  by (simp add: enc_Op_def sent_Op_def)

lemma coerce_Changeset [simp]: "coerce (enc_Changeset c) = enc_Changeset (sent_Changeset c)"
  by (simp add: enc_Changeset_def sent_Changeset_def)

lemma coerce_RaftLogEntry [simp]: "coerce (enc_RaftLogEntry e) = enc_RaftLogEntry (sent_command e)"
  by (simp add: enc_RaftLogEntry_def sent_command_def)

lemma dec_enc_Op: "op_fits op \<Longrightarrow> dec_Op (enc_Op (sent_Op op)) zeroOp = (sent_Op op, True)"
  by (auto simp: dec_Op_def enc_Op_def op_fits_def zeroOp_def sent_Op_def struct_simps)

lemma dec_enc_ops:
  assumes "list_all op_fits ops"
  shows "dec_slice dec_Op zeroOp (JArr (map enc_Op (map sent_Op ops))) [] = (map sent_Op ops, True)"
  using assms by (intro dec_slice_map) (auto simp: list_all_iff dec_enc_Op)

lemma dec_enc_Changeset:
  "changeset_fits c \<Longrightarrow> dec_Changeset (enc_Changeset (sent_Changeset c)) zeroChangeset = (sent_Changeset c, True)"
  using dec_enc_ops [of "Ops c"]
  by (simp add: dec_Changeset_def enc_Changeset_def changeset_fits_def zeroChangeset_def sent_Changeset_def struct_simps)

lemma dec_enc_RaftLogEntry:
  "command_fits e \<Longrightarrow> dec_RaftLogEntry (enc_RaftLogEntry (sent_command e)) zeroRaftLogEntry = (sent_command e, True)"
  using dec_enc_Changeset [of "entry_Changeset e"]
  by (simp add: dec_RaftLogEntry_def enc_RaftLogEntry_def command_fits_def zeroRaftLogEntry_def sent_command_def struct_simps)

lemma fits_Op: "fits 1 (enc_Op op)"
  by (simp add: enc_Op_def show_int_literal)

lemma fits_Changeset: "fits 3 (enc_Changeset c)"
  using fits_Op by (simp add: enc_Changeset_def show_int_literal)

lemma fits_RaftLogEntry: "fits 4 (enc_RaftLogEntry e)"
  using fits_Changeset by (simp add: enc_RaftLogEntry_def show_int_literal)

lemma UnmarshalEntry_MarshalEntry:
  assumes "command_fits e" and "MarshalEntry e = Some data"
  shows "UnmarshalEntry data = Some (sent_command e)"
proof -
  have "fits 10000 (enc_RaftLogEntry e)" by (rule fits_mono [OF fits_RaftLogEntry]) simp
  then show ?thesis
    using assms by (auto simp: UnmarshalEntry_def MarshalEntry_def Unmarshal_print dec_enc_RaftLogEntry decoded_def)
qed

section \<open>Decoded commands\<close>

text \<open>Every decoded command holds what the Go types can hold and is not changed by JSON again.\<close>

definition json_Op :: "Op \<Rightarrow> bool" where
  "json_Op op \<longleftrightarrow> op_fits op \<and> sent_Op op = op"

definition json_Changeset :: "Changeset \<Rightarrow> bool" where
  "json_Changeset c \<longleftrightarrow> changeset_fits c \<and> sent_Changeset c = c"

definition json_command :: "RaftLogEntry \<Rightarrow> bool" where
  "json_command e \<longleftrightarrow> command_fits e \<and> sent_command e = e"

lemma sent_type: "op_of_name (to_valid (op_name t)) = t \<longleftrightarrow> valid_utf8 (op_name t) \<and> op_of_name (op_name t) = t"
  by (metis op_of_name_inverse to_valid_eq)

lemma json_Op_iff:
  "json_Op op \<longleftrightarrow> in_int64 (op_Len op) \<and> valid_utf8 (op_name (op_Type op)) \<and>
     op_of_name (op_name (op_Type op)) = op_Type op \<and> valid_utf8 (op_Chars op)"
  by (cases op) (auto simp: json_Op_def op_fits_def sent_Op_def to_valid_eq sent_type)

lemma json_Changeset_iff: "json_Changeset c \<longleftrightarrow> in_int64 (OldLen c) \<and> in_int64 (NewLen c) \<and> list_all json_Op (Ops c)"
  by (cases c) (auto simp: json_Changeset_def changeset_fits_def sent_Changeset_def json_Op_def list_all_iff map_idI
      dest: map_eq_conv [where g = "\<lambda>x. x", simplified, THEN iffD1, rotated])

lemma json_command_iff:
  "json_command e \<longleftrightarrow> valid_utf8 (ClientID e) \<and> in_int64 (SubmissionID e) \<and> in_int64 (BaseRev e) \<and>
     json_Changeset (entry_Changeset e)"
  by (cases e) (auto simp: json_command_def command_fits_def sent_command_def json_Changeset_def to_valid_eq)

lemma in_int64_0 [simp]: "in_int64 0"
  by (simp add: in_int64_def)

lemma zero_json_Op: "json_Op zeroOp"
  by (simp add: json_Op_iff zeroOp_def op_of_name_def)

lemma keeps_Op: "keeps json_Op dec_Op"
  unfolding dec_Op_def by (intro keeps_struct keeps_if keeps_field) (simp_all add: json_Op_iff)

lemma keeps_Changeset: "keeps json_Changeset dec_Changeset"
  unfolding dec_Changeset_def
  by (intro keeps_struct keeps_if keeps_field keeps_into [OF keeps_slice [OF keeps_Op zero_json_Op]])
    (simp_all add: json_Changeset_iff)

lemma zero_json_Changeset: "json_Changeset zeroChangeset"
  by (simp add: json_Changeset_iff zeroChangeset_def)

lemma json_command_roundtrip:
  "json_command e \<Longrightarrow> MarshalEntry e = Some data \<Longrightarrow> UnmarshalEntry data = Some e"
  using UnmarshalEntry_MarshalEntry [of e data] by (simp add: json_command_def)

end
