(* ===== verification/Server_Node.thy ===== *)
theory Server_Node
  imports Doc_FSM Raft_Node
begin

text \<open>
  The WebSocket server: \<^verbatim>\<open>internal/server/websocket.go\<close>. A \<^verbatim>\<open>Node\<close> keeps the connected clients,
  answers CONNECT and SUBMIT messages and fans committed revisions out to the clients.

  \<^item> A \<^verbatim>\<open>*wsClient\<close> is shared between the goroutine of its connection and the map
    \<^verbatim>\<open>n.clients\<close>: the clients live in \<open>heap\<close> and both hold references.
  \<^item> A handler that reads the Raft node or the state machine several times takes the lock anew
    each time, so it has one argument per read: \<open>isLeader\<close> and \<open>leader\<close> are what
    \<^verbatim>\<open>raftNode.IsLeader()\<close> and \<^verbatim>\<open>raftNode.LeaderAddr()\<close> return, \<open>sm1\<close> to \<open>sm3\<close> the state
    machine at its three reads. A handler that blocks is split there.
  \<^item> \<open>enc\<close> (payload and envelope together) and, for the proposed entry, \<open>marshal\<close> stand for the JSON
    texts, which are in \<^verbatim>\<open>Wire_Server\<close> and \<^verbatim>\<open>Wire_Entry\<close>: the theorems here hold for any encoding. \<^verbatim>\<open>gorilla/websocket\<close> only transports the messages.
  \<^item> \<open>None\<close> is a panic: sending on or closing a closed channel, or a slice out of range.
\<close>

section \<open>Messages and state\<close>

datatype ServerMsg =
    ConnectAckMsg string int "RevisionRecord list"
  | AckMsg int
  | BroadcastMsg Changeset int
  | RedirectMsg string
  | ErrorMsg nat

record ConnectMsg =
  con_ClientID :: string
  LastKnownRev :: int

record SubmitMsg =
  sub_ClientID :: string
  sub_SubmissionID :: int
  sub_BaseRev :: int
  sub_Changeset :: Changeset

record wsClient =
  cl_id :: string
  cl_conn :: nat
  sendCh :: "string list"
  ch_closed :: bool

record Node =
  clients :: "(string \<times> nat) list"
  heap :: "nat \<Rightarrow> wsClient"
  next_client :: nat

definition NewNode :: Node where
  "NewNode = \<lparr>clients = [], heap = (\<lambda>_. \<lparr>cl_id = [], cl_conn = 0, sendCh = [], ch_closed = False\<rparr>),
     next_client = 0\<rparr>"

abbreviation put_client :: "nat \<Rightarrow> wsClient \<Rightarrow> Node \<Rightarrow> Node" where
  "put_client c x n \<equiv> n\<lparr>heap := (heap n)(c := x)\<rparr>"

section \<open>Handlers\<close>

text \<open>\<^verbatim>\<open>wsClient.send\<close>: the message is dropped when the channel of capacity 256 is full.\<close>

definition send :: "(ServerMsg \<Rightarrow> string option) \<Rightarrow> nat \<Rightarrow> ServerMsg \<Rightarrow> Node \<Rightarrow> Node option" where
  "send enc c msg n =
     (case enc msg of
        None \<Rightarrow> Some n
      | Some b \<Rightarrow>
          if ch_closed (heap n c) then None
          else if length (sendCh (heap n c)) < 256
          then Some (put_client c ((heap n c)\<lparr>sendCh := sendCh (heap n c) @ [b]\<rparr>) n)
          else Some n)"

text \<open>\<^verbatim>\<open>writePump\<close>: the next message goes to the socket; nothing while the channel is empty.\<close>

definition writePump :: "nat \<Rightarrow> Node \<Rightarrow> (string \<times> Node) option" where
  "writePump c n =
     (case sendCh (heap n c) of
        [] \<Rightarrow> None
      | b # bs \<Rightarrow> Some (b, put_client c ((heap n c)\<lparr>sendCh := bs\<rparr>) n))"

text \<open>\<^verbatim>\<open>handleConnect\<close> up to the registration, and the reply.\<close>

definition connect_register :: "nat \<Rightarrow> ConnectMsg \<Rightarrow> Node \<Rightarrow> Node \<times> nat" where
  "connect_register conn msg n =
     (let c = next_client n
      in (n\<lparr>heap := (heap n)(c := \<lparr>cl_id = con_ClientID msg, cl_conn = conn, sendCh = [], ch_closed = False\<rparr>),
            next_client := c + 1, clients := AList.update (con_ClientID msg) c (clients n)\<rparr>, c))"

definition connect_reply ::
    "(ServerMsg \<Rightarrow> string option) \<Rightarrow> bool \<Rightarrow> string \<Rightarrow>
     DocumentStateMachine \<Rightarrow> DocumentStateMachine \<Rightarrow> DocumentStateMachine \<Rightarrow>
     nat \<Rightarrow> int \<Rightarrow> Node \<Rightarrow> Node option" where
  "connect_reply enc isLeader leader sm1 sm2 sm3 c lastKnownRev n =
     (if \<not> isLeader \<and> leader \<noteq> [] then send enc c (RedirectMsg leader) n
      else case RevisionsSince sm1 lastKnownRev of
             Panic \<Rightarrow> None
           | Err e \<Rightarrow> None
           | Ok catchUp \<Rightarrow> send enc c (ConnectAckMsg (HeadText sm2) (HeadRev sm3) catchUp) n)"

definition handleConnect ::
    "(ServerMsg \<Rightarrow> string option) \<Rightarrow> ('l, 's, 'f, 'r) RaftNode \<Rightarrow> DocumentStateMachine \<Rightarrow>
     nat \<Rightarrow> ConnectMsg \<Rightarrow> Node \<Rightarrow> (Node \<times> nat) option" where
  "handleConnect enc r sm conn msg n =
     (let (n1, c) = connect_register conn msg n
      in map_option (\<lambda>n2. (n2, c)) (connect_reply enc (IsLeader r) (leaderAddr r) sm sm sm c (LastKnownRev msg) n1))"

text \<open>
  \<^verbatim>\<open>handleSubmit\<close> up to the call of \<^verbatim>\<open>Raft.Apply\<close>: either the client is answered, or the data to
  be proposed; then the reply once \<^verbatim>\<open>future.Error()\<close> has returned. A committed entry is answered
  by \<^verbatim>\<open>onCommit\<close>.
\<close>

datatype submit_step = Answered Node | Propose string

definition handleSubmit ::
    "(ServerMsg \<Rightarrow> string option) \<Rightarrow> (RaftLogEntry \<Rightarrow> string option) \<Rightarrow>
     bool \<Rightarrow> string \<Rightarrow> nat \<Rightarrow> SubmitMsg \<Rightarrow> Node \<Rightarrow> submit_step option" where
  "handleSubmit enc marshal isLeader leader c msg n =
     (if \<not> isLeader then map_option Answered (send enc c (RedirectMsg leader) n)
      else if Validate (sub_Changeset msg) \<noteq> None then map_option Answered (send enc c (ErrorMsg 400) n)
      else
        let entry = \<lparr>ClientID = sub_ClientID msg, SubmissionID = sub_SubmissionID msg,
                     BaseRev = sub_BaseRev msg, entry_Changeset = sub_Changeset msg\<rparr>
        in case marshal entry of
             None \<Rightarrow> map_option Answered (send enc c (ErrorMsg 500) n)
           | Some data \<Rightarrow> Some (Propose data))"

definition submit_result ::
    "(ServerMsg \<Rightarrow> string option) \<Rightarrow> nat \<Rightarrow> raft_error option \<Rightarrow> Node \<Rightarrow> Node option" where
  "submit_result enc c err n = (case err of None \<Rightarrow> Some n | Some e \<Rightarrow> send enc c (ErrorMsg 500) n)"

text \<open>The broadcast loop of \<^verbatim>\<open>onCommit\<close>; Go visits the map in no particular order.\<close>

fun broadcast ::
    "(ServerMsg \<Rightarrow> string option) \<Rightarrow> ApplyResult \<Rightarrow> (string \<times> nat) list \<Rightarrow> Node \<Rightarrow> Node option" where
  "broadcast enc res [] n = Some n"
| "broadcast enc res ((cid, c) # cs) n =
     (if cid = res_ClientID res then broadcast enc res cs n
      else Option.bind (send enc c (BroadcastMsg (CPrime res) (NewRev res)) n) (broadcast enc res cs))"

definition onCommit :: "(ServerMsg \<Rightarrow> string option) \<Rightarrow> ApplyResult \<Rightarrow> Node \<Rightarrow> Node option" where
  "onCommit enc res n =
     Option.bind
       (case map_of (clients n) (res_ClientID res) of
          None \<Rightarrow> Some n
        | Some c \<Rightarrow> send enc c (AckMsg (NewRev res)) n)
       (\<lambda>n1. if IsDuplicate res then Some n1 else broadcast enc res (clients n1) n1)"

definition removeClient :: "string \<Rightarrow> Node \<Rightarrow> Node" where
  "removeClient clientID n = n\<lparr>clients := AList.delete clientID (clients n)\<rparr>"

text \<open>The deferred function of \<^verbatim>\<open>readPump\<close>, for the client the connection ended with.\<close>

definition close_client :: "nat option \<Rightarrow> Node \<Rightarrow> Node option" where
  "close_client client n =
     (case client of
        None \<Rightarrow> Some n
      | Some c \<Rightarrow>
          let n1 = removeClient (cl_id (heap n c)) n
          in if ch_closed (heap n1 c) then None
             else Some (put_client c ((heap n1 c)\<lparr>ch_closed := True\<rparr>) n1))"

definition ConnectedClients :: "Node \<Rightarrow> nat" where
  "ConnectedClients n = length (clients n)"

section \<open>The server as a whole\<close>

text \<open>
  The loop of \<^verbatim>\<open>readPump\<close>, per connection: \<open>Idle\<close> at \<^verbatim>\<open>conn.ReadMessage()\<close>, \<open>Connecting\<close> inside
  \<^verbatim>\<open>handleConnect\<close>, \<open>Submitting\<close> while waiting for the future.
\<close>

datatype phase = Idle | Connecting nat int | Submitting

record conn_state =
  is_open :: bool
  client :: "nat option"
  phase :: phase

record server =
  node :: Node
  conns :: "nat \<Rightarrow> conn_state"

abbreviation set_conn :: "nat \<Rightarrow> conn_state \<Rightarrow> Node \<Rightarrow> server \<Rightarrow> server" where
  "set_conn k x n S \<equiv> S\<lparr>node := n, conns := (conns S)(k := x)\<rparr>"

inductive sstep :: "(ServerMsg \<Rightarrow> string option) \<Rightarrow> (RaftLogEntry \<Rightarrow> string option) \<Rightarrow> server \<Rightarrow> server \<Rightarrow> bool"
  for enc marshal where
  s_accept: "\<not> is_open (conns S k) \<Longrightarrow>
    sstep enc marshal S (set_conn k \<lparr>is_open = True, client = None, phase = Idle\<rparr> (node S) S)"
| s_connect: "is_open (conns S k) \<Longrightarrow> phase (conns S k) = Idle \<Longrightarrow> connect_register k msg (node S) = (n, c) \<Longrightarrow>
    sstep enc marshal S (set_conn k ((conns S k)\<lparr>phase := Connecting c (LastKnownRev msg)\<rparr>) n S)"
| s_reply: "is_open (conns S k) \<Longrightarrow> phase (conns S k) = Connecting c lastKnownRev \<Longrightarrow>
    connect_reply enc isLeader leader sm1 sm2 sm3 c lastKnownRev (node S) = Some n \<Longrightarrow>
    sstep enc marshal S (set_conn k ((conns S k)\<lparr>client := Some c, phase := Idle\<rparr>) n S)"
| s_answer: "is_open (conns S k) \<Longrightarrow> phase (conns S k) = Idle \<Longrightarrow> client (conns S k) = Some c \<Longrightarrow>
    handleSubmit enc marshal isLeader leader c msg (node S) = Some (Answered n) \<Longrightarrow>
    sstep enc marshal S (S\<lparr>node := n\<rparr>)"
| s_propose: "is_open (conns S k) \<Longrightarrow> phase (conns S k) = Idle \<Longrightarrow> client (conns S k) = Some c \<Longrightarrow>
    handleSubmit enc marshal isLeader leader c msg (node S) = Some (Propose data) \<Longrightarrow>
    sstep enc marshal S (set_conn k ((conns S k)\<lparr>phase := Submitting\<rparr>) (node S) S)"
| s_result: "is_open (conns S k) \<Longrightarrow> phase (conns S k) = Submitting \<Longrightarrow> client (conns S k) = Some c \<Longrightarrow>
    submit_result enc c err (node S) = Some n \<Longrightarrow>
    sstep enc marshal S (set_conn k ((conns S k)\<lparr>phase := Idle\<rparr>) n S)"
| s_commit: "onCommit enc res (node S) = Some n \<Longrightarrow> sstep enc marshal S (S\<lparr>node := n\<rparr>)"
| s_write: "writePump c (node S) = Some (b, n) \<Longrightarrow> sstep enc marshal S (S\<lparr>node := n\<rparr>)"
| s_close: "is_open (conns S k) \<Longrightarrow> phase (conns S k) = Idle \<Longrightarrow>
    close_client (client (conns S k)) (node S) = Some n \<Longrightarrow>
    sstep enc marshal S (set_conn k \<lparr>is_open = False, client = None, phase = Idle\<rparr> n S)"

definition server_init :: server where
  "server_init = \<lparr>node = NewNode, conns = (\<lambda>_. \<lparr>is_open = False, client = None, phase = Idle\<rparr>)\<rparr>"

section \<open>What the handlers keep\<close>

definition same_shape :: "Node \<Rightarrow> Node \<Rightarrow> bool" where
  "same_shape n n' \<longleftrightarrow> clients n' = clients n \<and> next_client n' = next_client n \<and>
     (\<forall>c. cl_id (heap n' c) = cl_id (heap n c) \<and> cl_conn (heap n' c) = cl_conn (heap n c) \<and>
          ch_closed (heap n' c) = ch_closed (heap n c))"

lemma same_shape_refl [simp]: "same_shape n n"
  by (simp add: same_shape_def)

lemma same_shape_trans: "same_shape n n1 \<Longrightarrow> same_shape n1 n2 \<Longrightarrow> same_shape n n2"
  by (simp add: same_shape_def)

lemma send_shape: "send enc c msg n = Some n' \<Longrightarrow> same_shape n n'"
  by (auto simp: send_def same_shape_def split: option.splits if_splits)

lemma send_total: "\<not> ch_closed (heap n c) \<Longrightarrow> \<exists>n'. send enc c msg n = Some n'"
  by (simp add: send_def split: option.splits)

lemma broadcast_shape: "broadcast enc res cs n = Some n' \<Longrightarrow> same_shape n n'"
proof (induction enc res cs n rule: broadcast.induct)
  case (2 enc res cid c cs n)
  then show ?case
    by (auto simp: bind_eq_Some_conv split: if_splits intro: same_shape_trans [OF send_shape])
qed simp

lemma onCommit_shape: "onCommit enc res n = Some n' \<Longrightarrow> same_shape n n'"
  by (auto simp: onCommit_def bind_eq_Some_conv split: option.splits if_splits
      intro: same_shape_trans [OF send_shape broadcast_shape] send_shape broadcast_shape)

lemma writePump_shape: "writePump c n = Some (b, n') \<Longrightarrow> same_shape n n'"
  by (auto simp: writePump_def same_shape_def split: list.splits if_splits)

lemma connect_reply_shape: "connect_reply enc isLeader leader sm1 sm2 sm3 c k n = Some n' \<Longrightarrow> same_shape n n'"
  by (auto simp: connect_reply_def split: if_splits go_result.splits intro: send_shape)

lemma handleSubmit_shape: "handleSubmit enc marshal isLeader leader c msg n = Some (Answered n') \<Longrightarrow> same_shape n n'"
  by (auto simp: handleSubmit_def Let_def split: if_splits option.splits intro: send_shape)

lemma submit_result_shape: "submit_result enc c err n = Some n' \<Longrightarrow> same_shape n n'"
  by (auto simp: submit_result_def split: option.splits intro: send_shape)

lemmas handler_shapes = send_shape onCommit_shape writePump_shape connect_reply_shape handleSubmit_shape submit_result_shape

section \<open>The invariant\<close>

text \<open>
  A registered client has an open channel and is registered under its own id; the client a
  connection works for is open and belongs to that connection.
\<close>

definition registered_ok :: "Node \<Rightarrow> bool" where
  "registered_ok n \<longleftrightarrow> distinct (map fst (clients n)) \<and>
     (\<forall>(cid, c) \<in> set (clients n). c < next_client n \<and> \<not> ch_closed (heap n c) \<and> cl_id (heap n c) = cid)"

definition owned :: "Node \<Rightarrow> nat \<Rightarrow> nat \<Rightarrow> bool" where
  "owned n k c \<longleftrightarrow> c < next_client n \<and> \<not> ch_closed (heap n c) \<and> cl_conn (heap n c) = k"

definition conn_ok :: "Node \<Rightarrow> nat \<Rightarrow> conn_state \<Rightarrow> bool" where
  "conn_ok n k x \<longleftrightarrow> (is_open x \<longrightarrow>
     (\<forall>c. client x = Some c \<longrightarrow> owned n k c) \<and> (\<forall>c l. phase x = Connecting c l \<longrightarrow> owned n k c) \<and>
     (phase x = Submitting \<longrightarrow> client x \<noteq> None))"

definition server_ok :: "server \<Rightarrow> bool" where
  "server_ok S \<longleftrightarrow> registered_ok (node S) \<and> (\<forall>k. conn_ok (node S) k (conns S k))"

lemma registered_ok_shape: "same_shape n n' \<Longrightarrow> registered_ok n \<Longrightarrow> registered_ok n'"
  by (auto simp: registered_ok_def same_shape_def)

lemma owned_shape: "same_shape n n' \<Longrightarrow> owned n' k c = owned n k c"
  by (simp add: owned_def same_shape_def)

lemma conn_ok_shape: "same_shape n n' \<Longrightarrow> conn_ok n' k x = conn_ok n k x"
  by (simp add: conn_ok_def owned_shape)

lemma server_ok_shape:
  assumes "server_ok S" and "same_shape (node S) n" and "conn_ok (node S) k x"
  shows "server_ok (set_conn k x n S)"
  using assms registered_ok_shape by (auto simp: server_ok_def conn_ok_shape)

lemma server_ok_node: "server_ok S \<Longrightarrow> same_shape (node S) n \<Longrightarrow> server_ok (S\<lparr>node := n\<rparr>)"
  using registered_ok_shape by (auto simp: server_ok_def conn_ok_shape)

lemma set_update_cases: "p \<in> set (AList.update k v al) \<Longrightarrow> p = (k, v) \<or> p \<in> set al"
  by (induction al) (auto split: if_splits)

lemma connect_register_ok:
  assumes "server_ok S" and "is_open (conns S k)" and "connect_register k msg (node S) = (n, c)"
  shows "server_ok (set_conn k ((conns S k)\<lparr>phase := Connecting c l\<rparr>) n S)"
proof -
  let ?n = "node S"
  have n: "c = next_client ?n" "next_client n = Suc c" "clients n = AList.update (con_ClientID msg) c (clients ?n)"
    "heap n c = \<lparr>cl_id = con_ClientID msg, cl_conn = k, sendCh = [], ch_closed = False\<rparr>"
    and other: "\<And>c'. c' \<noteq> c \<Longrightarrow> heap n c' = heap ?n c'"
    using assms(3) by (auto simp: connect_register_def Let_def)
  have reg: "registered_ok ?n" and con: "\<And>k. conn_ok ?n k (conns S k)" using assms(1) by (auto simp: server_ok_def)
  have own: "owned n k' c'" if "owned ?n k' c'" for k' c'
  proof -
    from that n(1) have "c' \<noteq> c" by (simp add: owned_def)
    with that other [of c'] n show ?thesis by (simp add: owned_def)
  qed
  have "registered_ok n"
    unfolding registered_ok_def
  proof (intro conjI ballI)
    show "distinct (map fst (clients n))" using reg by (simp add: n(3) registered_ok_def distinct_update)
    fix p assume "p \<in> set (clients n)"
    then have p: "p = (con_ClientID msg, c) \<or> p \<in> set (clients ?n)"
      unfolding n(3) by (rule set_update_cases)
    have "snd p < next_client n \<and> \<not> ch_closed (heap n (snd p)) \<and> cl_id (heap n (snd p)) = fst p"
    proof (cases "p = (con_ClientID msg, c)")
      case True
      then show ?thesis by (simp add: n(2,4))
    next
      case False
      with p reg have "snd p < c \<and> \<not> ch_closed (heap ?n (snd p)) \<and> cl_id (heap ?n (snd p)) = fst p"
        by (auto simp: registered_ok_def n(1))
      with other [of "snd p"] n(2) show ?thesis by auto
    qed
    then show "case p of (cid, c) \<Rightarrow> c < next_client n \<and> \<not> ch_closed (heap n c) \<and> cl_id (heap n c) = cid"
      by (cases p) simp
  qed
  moreover have "conn_ok n k' (conns S k')" for k' using con [of k'] own by (auto simp: conn_ok_def)
  moreover have "conn_ok n k ((conns S k)\<lparr>phase := Connecting c l\<rparr>)"
    using con [of k] own n assms(2) by (auto simp: conn_ok_def owned_def)
  ultimately show ?thesis by (simp add: server_ok_def)
qed

lemma close_client_ok:
  assumes "server_ok S" and "is_open (conns S k)" and "phase (conns S k) = Idle"
  shows "\<exists>n. close_client (client (conns S k)) (node S) = Some n \<and>
    server_ok (set_conn k \<lparr>is_open = False, client = None, phase = Idle\<rparr> n S)"
proof (cases "client (conns S k)")
  case None
  have "conn_ok (node S) k \<lparr>is_open = False, client = None, phase = Idle\<rparr>" by (simp add: conn_ok_def)
  from server_ok_shape [OF assms(1) same_shape_refl this] None show ?thesis
    by (intro exI [of _ "node S"]) (simp add: close_client_def)
next
  case (Some c)
  let ?n = "node S"
  have own: "owned ?n k c" using assms(1,2) Some by (auto simp: server_ok_def conn_ok_def)
  then obtain n where n: "close_client (client (conns S k)) ?n = Some n"
    "clients n = AList.delete (cl_id (heap ?n c)) (clients ?n)" "next_client n = next_client ?n"
    and other: "\<And>c'. c' \<noteq> c \<Longrightarrow> heap n c' = heap ?n c'"
    using Some by (simp add: close_client_def removeClient_def owned_def)
  have reg: "registered_ok ?n" and con: "\<And>k. conn_ok ?n k (conns S k)" using assms(1) by (auto simp: server_ok_def)
  have keep: "c' \<noteq> c \<and> (cid, c') \<in> set (clients ?n)" if "(cid, c') \<in> set (clients n)" for cid c'
    using that reg by (auto simp: n(2) AList.delete_eq registered_ok_def)
  have "registered_ok n"
    unfolding registered_ok_def
  proof (intro conjI ballI)
    show "distinct (map fst (clients n))" using reg by (simp add: n(2) registered_ok_def distinct_delete)
    fix p assume "p \<in> set (clients n)"
    with keep [of "fst p" "snd p"] have "snd p \<noteq> c" "p \<in> set (clients ?n)" by auto
    with reg other [of "snd p"] n(3)
    show "case p of (cid, c) \<Rightarrow> c < next_client n \<and> \<not> ch_closed (heap n c) \<and> cl_id (heap n c) = cid"
      by (fastforce simp: registered_ok_def)
  qed
  moreover have "owned n k' c'" if "owned ?n k' c'" "k' \<noteq> k" for k' c'
  proof -
    have "c' \<noteq> c" using that own by (auto simp: owned_def)
    with other [of c'] that n(3) show ?thesis by (simp add: owned_def)
  qed
  then have "conn_ok n k' (conns S k')" if "k' \<noteq> k" for k' using con [of k'] that by (auto simp: conn_ok_def)
  ultimately have "server_ok (set_conn k \<lparr>is_open = False, client = None, phase = Idle\<rparr> n S)"
    by (simp add: server_ok_def) (simp add: conn_ok_def)
  with n(1) show ?thesis by blast
qed

lemma conn_ok_at: "server_ok S \<Longrightarrow> conn_ok (node S) k (conns S k)"
  by (simp add: server_ok_def)

lemma sstep_ok: "sstep enc marshal S S' \<Longrightarrow> server_ok S \<Longrightarrow> server_ok S'"
proof (induction rule: sstep.induct)
  case (s_accept S k)
  then show ?case by (intro server_ok_shape) (simp_all add: conn_ok_def)
next
  case (s_connect S k msg n c)
  then show ?case by (intro connect_register_ok)
next
  case (s_reply S k c l isLeader leader sm1 sm2 sm3 n)
  then have "conn_ok (node S) k ((conns S k)\<lparr>client := Some c, phase := Idle\<rparr>)"
    using conn_ok_at [of S k] by (simp add: conn_ok_def)
  with s_reply show ?case by (intro server_ok_shape) (auto intro: handler_shapes)
next
  case (s_propose S k c isLeader leader msg data)
  then have "conn_ok (node S) k ((conns S k)\<lparr>phase := Submitting\<rparr>)"
    using conn_ok_at [of S k] by (simp add: conn_ok_def)
  with s_propose show ?case by (intro server_ok_shape) simp_all
next
  case (s_result S k c err n)
  then have "conn_ok (node S) k ((conns S k)\<lparr>phase := Idle\<rparr>)"
    using conn_ok_at [of S k] by (simp add: conn_ok_def)
  with s_result show ?case by (intro server_ok_shape) (auto intro: handler_shapes)
next
  case (s_close S k n)
  with close_client_ok [of S k] show ?case by auto
qed (auto intro: server_ok_node handler_shapes)

lemma server_ok_init: "server_ok server_init"
  by (simp add: server_ok_def server_init_def NewNode_def registered_ok_def conn_ok_def)

lemma server_ok_reachable: "(sstep enc marshal)\<^sup>*\<^sup>* server_init S \<Longrightarrow> server_ok S"
  by (induction rule: rtranclp_induct) (simp_all add: server_ok_init sstep_ok)

section \<open>Delivery\<close>

lemma broadcast_total:
  "\<forall>(cid, c) \<in> set cs. \<not> ch_closed (heap n c) \<Longrightarrow> \<exists>n'. broadcast enc res cs n = Some n'"
proof (induction cs arbitrary: n)
  case (Cons p cs)
  obtain cid c where p: "p = (cid, c)" by (cases p)
  from Cons.prems p obtain n1 where n1: "send enc c (BroadcastMsg (CPrime res) (NewRev res)) n = Some n1"
    using send_total by force
  from send_shape [OF n1] Cons.prems have "\<forall>(cid, c) \<in> set cs. \<not> ch_closed (heap n1 c)"
    by (auto simp: same_shape_def)
  with Cons.IH [of n1] Cons.IH [of n] Cons.prems p n1 show ?case by simp
qed simp

lemma onCommit_total:
  assumes "registered_ok n"
  shows "\<exists>n'. onCommit enc res n = Some n'"
proof -
  have "\<exists>n1. (case map_of (clients n) (res_ClientID res) of None \<Rightarrow> Some n
      | Some c \<Rightarrow> send enc c (AckMsg (NewRev res)) n) = Some n1 \<and> same_shape n n1"
  proof (cases "map_of (clients n) (res_ClientID res)")
    case (Some c)
    with assms have "\<not> ch_closed (heap n c)" by (auto simp: registered_ok_def dest: map_of_SomeD)
    with Some send_total send_shape show ?thesis by fastforce
  qed simp
  then obtain n1 where n1: "(case map_of (clients n) (res_ClientID res) of None \<Rightarrow> Some n
      | Some c \<Rightarrow> send enc c (AckMsg (NewRev res)) n) = Some n1" "same_shape n n1" by blast
  from registered_ok_shape [OF n1(2) assms] have "\<forall>(cid, c) \<in> set (clients n1). \<not> ch_closed (heap n1 c)"
    by (auto simp: registered_ok_def)
  with broadcast_total [of "clients n1" n1 enc res] n1(1) show ?thesis by (simp add: onCommit_def)
qed

text \<open>Every registered client has room for \<open>m\<close> more messages.\<close>

definition room :: "nat \<Rightarrow> Node \<Rightarrow> bool" where
  "room m n \<longleftrightarrow> (\<forall>(cid, c) \<in> set (clients n). length (sendCh (heap n c)) + m \<le> 256)"

lemma registered_id: "registered_ok n \<Longrightarrow> (cid, c) \<in> set (clients n) \<Longrightarrow> cl_id (heap n c) = cid"
  by (auto simp: registered_ok_def)

lemma registered_refs_distinct: "registered_ok n \<Longrightarrow> distinct (map snd (clients n))"
proof -
  assume "registered_ok n"
  then have d: "distinct (map fst (clients n))" and i: "\<And>p. p \<in> set (clients n) \<Longrightarrow> cl_id (heap n (snd p)) = fst p"
    by (auto simp: registered_ok_def)
  from d have "distinct (clients n)" by (simp add: distinct_map)
  moreover have "inj_on snd (set (clients n))" by (rule inj_onI) (metis i prod.expand)
  ultimately show ?thesis by (simp add: distinct_map)
qed

lemma send_queue:
  assumes "enc msg = Some b" and "send enc c msg n = Some n'" and "length (sendCh (heap n c)) < 256"
  shows "sendCh (heap n' c') = sendCh (heap n c') @ (if c' = c then [b] else [])"
  using assms by (auto simp: send_def split: if_splits)

lemma broadcast_queues:
  assumes "enc (BroadcastMsg (CPrime res) (NewRev res)) = Some b"
  shows "broadcast enc res cs n = Some n' \<Longrightarrow> distinct (map snd cs) \<Longrightarrow>
     \<forall>(cid, c) \<in> set cs. cid \<noteq> res_ClientID res \<longrightarrow> length (sendCh (heap n c)) < 256 \<Longrightarrow>
     sendCh (heap n' c') = sendCh (heap n c') @
       (if \<exists>cid. (cid, c') \<in> set cs \<and> cid \<noteq> res_ClientID res then [b] else [])"
proof (induction cs arbitrary: n)
  case (Cons p cs)
  obtain cid c where p: "p = (cid, c)" by (cases p)
  show ?case
  proof (cases "cid = res_ClientID res")
    case True
    with Cons p show ?thesis by auto
  next
    case False
    with Cons.prems(1) p obtain n1 where n1: "send enc c (BroadcastMsg (CPrime res) (NewRev res)) n = Some n1"
      "broadcast enc res cs n1 = Some n'" by (auto simp: bind_eq_Some_conv)
    have r: "length (sendCh (heap n c)) < 256" using Cons.prems(3) p False by simp
    note q = send_queue [OF assms n1(1) r]
    have nc: "(x, c) \<notin> set cs" for x using Cons.prems(2) p by (force simp: image_iff)
    have "\<forall>(cid, c) \<in> set cs. cid \<noteq> res_ClientID res \<longrightarrow> length (sendCh (heap n1 c)) < 256"
      using Cons.prems(3) nc by (auto simp: q)
    from Cons.IH [OF n1(2) _ this] Cons.prems(2) p nc False show ?thesis by (auto simp: q)
  qed
qed simp

text \<open>What a commit puts into the queue of the client \<open>cid\<close>.\<close>

definition commit_msgs :: "ApplyResult \<Rightarrow> string \<Rightarrow> ServerMsg list" where
  "commit_msgs res cid =
     (if cid = res_ClientID res then [AckMsg (NewRev res)]
      else if IsDuplicate res then [] else [BroadcastMsg (CPrime res) (NewRev res)])"

lemma onCommit_queues:
  assumes "registered_ok n" and "room 1 n" and "\<And>m. enc m = Some (e m)"
    and "onCommit enc res n = Some n'" and "(cid, c) \<in> set (clients n)"
  shows "sendCh (heap n' c) = sendCh (heap n c) @ map e (commit_msgs res cid)"
proof -
  let ?a = "res_ClientID res"
  obtain n1 where n1: "(case map_of (clients n) ?a of None \<Rightarrow> Some n
      | Some c \<Rightarrow> send enc c (AckMsg (NewRev res)) n) = Some n1"
    "(if IsDuplicate res then Some n1 else broadcast enc res (clients n1) n1) = Some n'"
    using assms(4) by (auto simp: onCommit_def bind_eq_Some_conv)
  have dist: "distinct (map fst (clients n))" "distinct (map snd (clients n))"
    using assms(1) registered_refs_distinct by (auto simp: registered_ok_def)
  have lt: "length (sendCh (heap n c')) < 256" if "(x, c') \<in> set (clients n)" for x c'
    using assms(2) that by (force simp: room_def)
  have same: "clients n1 = clients n"
    using n1(1) by (auto split: option.splits dest: send_shape simp: same_shape_def)
  have uniq: "x = cid" if "(x, c) \<in> set (clients n)" for x
    using registered_id [OF assms(1)] that assms(5) by metis
  have q1: "sendCh (heap n1 c') = sendCh (heap n c') @ (if (?a, c') \<in> set (clients n) then [e (AckMsg (NewRev res))] else [])" for c'
  proof (cases "map_of (clients n) ?a")
    case None
    then have "(?a, c') \<notin> set (clients n)" by (force simp: map_of_eq_None_iff image_iff)
    with None n1(1) show ?thesis by simp
  next
    case (Some ca)
    then have ca: "(?a, c') \<in> set (clients n) \<longleftrightarrow> c' = ca" using dist(1) by (metis map_of_SomeD map_of_is_SomeI option.inject)
    from n1(1) Some have sn: "send enc ca (AckMsg (NewRev res)) n = Some n1" by simp
    have "length (sendCh (heap n ca)) < 256" using lt map_of_SomeD [OF Some] by blast
    from send_queue [OF assms(3) sn this, of c'] ca show ?thesis by simp
  qed
  show ?thesis
  proof (cases "IsDuplicate res")
    case True
    moreover have "(?a, c) \<in> set (clients n) \<longleftrightarrow> cid = ?a" using uniq assms(5) by blast
    ultimately show ?thesis using n1(2) q1 [of c] by (simp add: commit_msgs_def)
  next
    case False
    with n1(2) same have b: "broadcast enc res (clients n) n1 = Some n'" by simp
    have "\<forall>(x, c') \<in> set (clients n). x \<noteq> ?a \<longrightarrow> length (sendCh (heap n1 c')) < 256"
    proof clarify
      fix x c' assume x: "(x, c') \<in> set (clients n)" "x \<noteq> ?a"
      then have "(?a, c') \<notin> set (clients n)" using registered_id [OF assms(1)] by metis
      with lt [OF x(1)] show "length (sendCh (heap n1 c')) < 256" by (simp add: q1)
    qed
    note q2 = broadcast_queues [OF assms(3) b dist(2) this, of c]
    have "(\<exists>x. (x, c) \<in> set (clients n) \<and> x \<noteq> ?a) \<longleftrightarrow> cid \<noteq> ?a" "(?a, c) \<in> set (clients n) \<longleftrightarrow> cid = ?a"
      using uniq assms(5) by blast+
    with q1 [of c] q2 False show ?thesis by (simp add: commit_msgs_def)
  qed
qed

text \<open>The callbacks of a sequence of results, run in commit order.\<close>

fun deliver :: "(ServerMsg \<Rightarrow> string option) \<Rightarrow> ApplyResult option list \<Rightarrow> Node \<Rightarrow> Node option" where
  "deliver enc [] n = Some n"
| "deliver enc (None # rs) n = deliver enc rs n"
| "deliver enc (Some res # rs) n = Option.bind (onCommit enc res n) (deliver enc rs)"

fun result_msgs :: "string \<Rightarrow> ApplyResult option list \<Rightarrow> ServerMsg list" where
  "result_msgs cid [] = []"
| "result_msgs cid (None # rs) = result_msgs cid rs"
| "result_msgs cid (Some res # rs) = commit_msgs res cid @ result_msgs cid rs"

lemma length_commit_msgs: "length (commit_msgs res cid) \<le> 1"
  by (simp add: commit_msgs_def)

lemma room_onCommit:
  assumes "registered_ok n" and "room (Suc m) n" and "\<And>m. enc m = Some (e m)" and "onCommit enc res n = Some n'"
  shows "room m n'"
  unfolding room_def
proof clarify
  fix cid c assume "(cid, c) \<in> set (clients n')"
  with onCommit_shape [OF assms(4)] have c: "(cid, c) \<in> set (clients n)" by (simp add: same_shape_def)
  have "room 1 n" using assms(2) by (fastforce simp: room_def)
  from onCommit_queues [where e = e, OF assms(1) this assms(3,4) c] length_commit_msgs [of res cid] assms(2) c
  show "length (sendCh (heap n' c)) + m \<le> 256" by (fastforce simp: room_def)
qed

lemma room_le: "room (Suc m) n \<Longrightarrow> room m n"
  by (fastforce simp: room_def)

lemma deliver_queues:
  assumes "\<And>m. enc m = Some (e m)"
  shows "registered_ok n \<Longrightarrow> room (length rs) n \<Longrightarrow> (cid, c) \<in> set (clients n) \<Longrightarrow>
    \<exists>n'. deliver enc rs n = Some n' \<and> sendCh (heap n' c) = sendCh (heap n c) @ map e (result_msgs cid rs)"
proof (induction rs arbitrary: n)
  case (Cons r rs)
  show ?case
  proof (cases r)
    case None
    with Cons room_le show ?thesis by auto
  next
    case (Some res)
    obtain n1 where n1: "onCommit enc res n = Some n1" using onCommit_total [OF Cons.prems(1)] by blast
    have "room 1 n" using Cons.prems(2) by (fastforce simp: room_def)
    note q = onCommit_queues [where e = e, OF Cons.prems(1) this assms n1 Cons.prems(3)]
    have "registered_ok n1" "(cid, c) \<in> set (clients n1)"
      using registered_ok_shape [OF onCommit_shape [OF n1] Cons.prems(1)] onCommit_shape [OF n1] Cons.prems(3)
      by (auto simp: same_shape_def)
    moreover have "room (length rs) n1" using room_onCommit [where e = e, OF Cons.prems(1) _ assms n1] Cons.prems(2) by simp
    ultimately obtain n' where "deliver enc rs n1 = Some n'" "sendCh (heap n' c) = sendCh (heap n1 c) @ map e (result_msgs cid rs)"
      using Cons.IH by blast
    with Some n1 q show ?thesis by simp
  qed
qed simp

text \<open>The changesets of the broadcasts among some messages.\<close>

fun bcasts :: "ServerMsg list \<Rightarrow> Changeset list" where
  "bcasts [] = []"
| "bcasts (BroadcastMsg C k # ms) = C # bcasts ms"
| "bcasts (m # ms) = bcasts ms"

lemma bcasts_append: "bcasts (xs @ ys) = bcasts xs @ bcasts ys"
  by (induction xs rule: bcasts.induct) simp_all

lemma bcasts_replay:
  "applyAll sm es = Some (sm', rs) \<Longrightarrow> cid \<notin> ClientID ` set es \<Longrightarrow>
     replay (headText sm) (bcasts (result_msgs cid rs)) = Some (headText sm')"
proof (induction es arbitrary: sm rs)
  case (Cons en es)
  then obtain sm1 r rs1 where step: "applyEntry sm en = Some (Ok (sm1, r))" "applyAll sm1 es = Some (sm', rs1)" "rs = r # rs1"
    by (auto split: option.splits go_result.splits)
  have IH: "replay (headText sm1) (bcasts (result_msgs cid rs1)) = Some (headText sm')"
    using Cons.IH [OF step(2)] Cons.prems(2) by simp
  from step(1) show ?case
  proof (cases rule: applyEntry_cases)
    case (duplicate l)
    with IH step(3) Cons.prems(2) show ?thesis by (simp add: commit_msgs_def)
  next
    case rejected
    with IH step(3) show ?thesis by simp
  next
    case (applied C newText)
    with IH step(3) Cons.prems(2) show ?thesis by (simp add: commit_msgs_def)
  qed
qed simp

section \<open>Examples\<close>

text \<open>A message encoder for the examples: the kind of the message.\<close>

fun tag :: "ServerMsg \<Rightarrow> string" where
  "tag (ConnectAckMsg doc k recs) = ''CONNECT_ACK''"
| "tag (AckMsg k) = ''ACK''"
| "tag (BroadcastMsg C k) = ''BROADCAST''"
| "tag (RedirectMsg addr) = ''REDIRECT''"
| "tag (ErrorMsg code) = ''ERROR''"

definition carol :: ConnectMsg where
  "carol = \<lparr>con_ClientID = ''carol'', LastKnownRev = 0\<rparr>"

definition one_client :: Node where
  "one_client = fst (connect_register 0 carol NewNode)"

lemma one_client_simps:
  "registered_ok one_client" "room 255 one_client" "clients one_client = [(''carol'', 0)]" "sendCh (heap one_client 0) = []"
  by (simp_all add: one_client_def connect_register_def carol_def NewNode_def registered_ok_def room_def)

text \<open>
  The client \<open>carol\<close> is connected on connection 0, reconnects on connection 1, and then the server
  notices that connection 0 is gone.
\<close>

definition fresh_conn :: conn_state where
  "fresh_conn = \<lparr>is_open = True, client = None, phase = Idle\<rparr>"

lemma accept_connect:
  assumes "\<not> is_open (conns S k)" and "connect_register k carol (node S) = (n, c)"
    and "connect_reply enc True [] sm sm sm c 0 n = Some n'"
  shows "(sstep enc marshal)\<^sup>*\<^sup>* S (set_conn k \<lparr>is_open = True, client = Some c, phase = Idle\<rparr> n' S)"
proof -
  let ?step = "sstep enc marshal"
  let ?S1 = "set_conn k fresh_conn (node S) S"
  let ?S2 = "set_conn k (fresh_conn\<lparr>phase := Connecting c 0\<rparr>) n S"
  have "?step S ?S1" using s_accept [OF assms(1), of enc marshal] by (simp add: fresh_conn_def)
  moreover have "?step ?S1 ?S2"
    using s_connect [of ?S1 k carol n c enc marshal] assms(2) by (simp add: fresh_conn_def carol_def)
  moreover have "?step ?S2 (set_conn k \<lparr>is_open = True, client = Some c, phase = Idle\<rparr> n' S)"
    using s_reply [of ?S2 k c 0 enc True "[]" sm sm sm n' marshal] assms(3) by (simp add: fresh_conn_def)
  ultimately show ?thesis by (meson converse_rtranclp_into_rtranclp rtranclp.rtrancl_refl)
qed

lemma join:
  assumes "connect_register k carol n = (n1, c)"
  shows "\<exists>n2. connect_reply (Some \<circ> tag) True [] sm sm sm c 0 n1 = Some n2 \<and> c = next_client n \<and>
    clients n2 = AList.update ''carol'' c (clients n) \<and> next_client n2 = c + 1 \<and>
    heap n2 = (heap n)(c := \<lparr>cl_id = ''carol'', cl_conn = k, sendCh = [''CONNECT_ACK''], ch_closed = False\<rparr>)"
  using assms by (auto simp: connect_register_def carol_def connect_reply_def RevisionsSince_def send_def Let_def)

definition bob_second :: RaftLogEntry where
  "bob_second = \<lparr>ClientID = ''bob'', SubmissionID = 9, BaseRev = 1, entry_Changeset = MakeInsert 2 0 ''c''\<rparr>"

definition bob_second_result :: ApplyResult where
  "bob_second_result = \<lparr>CPrime = MakeInsert 2 0 ''c'', NewRev = 2, res_ClientID = ''bob'', IsDuplicate = False\<rparr>"

lemma MakeInsert_second: "MakeInsert 2 0 ''c'' = \<lparr>OldLen = 2, NewLen = 3, Ops = [insertOp ''c'', retainOp 2]\<rparr>"
  by (simp add: MakeInsert_def go_len_def wrap64_def)

lemma run_bob_second: "\<exists>sm. applyEntry run_fsm bob_second = Some (Ok (sm, Some bob_second_result))"
proof -
  have "ApplyChangeset ''bx'' (MakeInsert 2 0 ''c'') = Ok ''cbx''"
    by (simp add: MakeInsert_second ApplyChangeset_def insertOp_def retainOp_def go_len_def wrap64_def go_slice_def)
  then show ?thesis
    by (simp add: applyEntry_def bob_second_def bob_second_result_def run_fsm_def transform_loop.simps wrap64_def)
qed

section \<open>Properties\<close>

text \<open>
  C17. The server never uses a closed channel. In every reachable state, whatever connections are
  opened, closed or reconnected under the same id and however the goroutines interleave, the commit
  callback, the replies to SUBMIT and the closing of a connection run without a panic; the reply to
  CONNECT panics exactly when the client sends a negative \<^verbatim>\<open>last_known_rev\<close> (and is not redirected).
\<close>

theorem server_uses_open_channels:
  assumes "(sstep enc marshal)\<^sup>*\<^sup>* server_init S"
  shows "(\<exists>n. onCommit enc res (node S) = Some n) \<and>
    (is_open (conns S k) \<and> client (conns S k) = Some c \<longrightarrow>
       (\<exists>x. handleSubmit enc marshal isLeader leader c msg (node S) = Some x) \<and>
       (\<exists>n. submit_result enc c err (node S) = Some n)) \<and>
    (is_open (conns S k) \<and> phase (conns S k) = Idle \<longrightarrow> (\<exists>n. close_client (client (conns S k)) (node S) = Some n)) \<and>
    (is_open (conns S k) \<and> phase (conns S k) = Connecting c l \<longrightarrow>
       (connect_reply enc isLeader leader sm1 sm2 sm3 c l (node S) = None \<longleftrightarrow> l < 0 \<and> (isLeader \<or> leader = [])))"
proof -
  have ok: "server_ok S" by (rule server_ok_reachable [OF assms])
  then have reg: "registered_ok (node S)" and con: "conn_ok (node S) k (conns S k)" by (auto simp: server_ok_def)
  have sub: "(\<exists>x. handleSubmit enc marshal isLeader leader c msg (node S) = Some x) \<and>
      (\<exists>n. submit_result enc c err (node S) = Some n)" if "\<not> ch_closed (heap (node S) c)"
    using send_total [OF that, of enc] by (fastforce simp: handleSubmit_def submit_result_def Let_def split: option.splits)
  have rep: "connect_reply enc isLeader leader sm1 sm2 sm3 c l (node S) = None \<longleftrightarrow> l < 0 \<and> (isLeader \<or> leader = [])"
    if "\<not> ch_closed (heap (node S) c)"
    using send_total [OF that, of enc] by (auto simp: connect_reply_def RevisionsSince_def split: if_splits)
  show ?thesis
  proof (intro conjI impI)
    show "\<exists>n. onCommit enc res (node S) = Some n" by (rule onCommit_total [OF reg])
    show "\<exists>n. close_client (client (conns S k)) (node S) = Some n" if "is_open (conns S k) \<and> phase (conns S k) = Idle"
      using close_client_ok [OF ok] that by blast
  qed (use con sub rep in \<open>auto simp: conn_ok_def owned_def\<close>)
qed

theorem server_uses_open_channels_witness:
  "\<exists>n. onCommit (Some \<circ> tag) bob_result (node server_init) = Some n"
  using server_uses_open_channels [of "Some \<circ> tag" "\<lambda>_. None" server_init] by blast

text \<open>
  C22. What a passive client receives is what the document became. The commit callbacks of a
  committed log put into the queue of every connected client that wrote none of its entries exactly
  one broadcast per applied revision, in order; applying them to the text the client was given
  makes it the new head text. (Callbacks in commit order, room in the queue.)
\<close>

theorem broadcasts_replay_document:
  assumes "applyAll sm es = Some (sm', rs)" and "registered_ok n" and "(cid, c) \<in> set (clients n)"
    and "room (length rs) n" and "cid \<notin> ClientID ` set es" and "\<And>m. enc m = Some (e m)"
  shows "\<exists>n' ms. deliver enc rs n = Some n' \<and> sendCh (heap n' c) = sendCh (heap n c) @ map e ms \<and>
    replay (headText sm) (bcasts ms) = Some (headText sm')"
  using deliver_queues [where e = e, OF assms(6) assms(2,4,3)] bcasts_replay [OF assms(1,5)] by blast

theorem broadcasts_replay_document_witness:
  "\<exists>n' ms. deliver (Some \<circ> tag) [Some bob_result, Some bob_dup_result, None] one_client = Some n' \<and>
     sendCh (heap n' 0) = map tag ms \<and> replay ''x'' (bcasts ms) = Some ''bx''"
proof -
  have "room (length [Some bob_result, Some bob_dup_result, None]) one_client" using one_client_simps by (simp add: room_def)
  then show ?thesis
    using broadcasts_replay_document [OF run_all one_client_simps(1), of "''carol''" 0 "Some \<circ> tag" tag] one_client_simps
    by (simp add: bob_entry_def bob_bad_entry_def) (simp add: NewDocumentStateMachine_def run_fsm_def)
qed

text \<open>
  C36. A client that reconnects is unregistered by the end of its old connection. The deferred
  \<^verbatim>\<open>removeClient\<close> deletes by client id, although the id then belongs to the new connection: the new
  connection is open, but no later commit is acknowledged or broadcast to it.
\<close>

theorem old_connection_unregisters_client:
  "\<exists>S. (sstep (Some \<circ> tag) marshal)\<^sup>*\<^sup>* server_init S \<and> is_open (conns S 1) \<and> client (conns S 1) = Some 1 \<and>
     cl_id (heap (node S) 1) = ''carol'' \<and> clients (node S) = [] \<and>
     (\<forall>res. onCommit (Some \<circ> tag) res (node S) = Some (node S))"
proof -
  let ?sm = "NewDocumentStateMachine ''x''"
  let ?steps = "(sstep (Some \<circ> tag) marshal)\<^sup>*\<^sup>*"
  obtain n1 c1 where r1: "connect_register 0 carol NewNode = (n1, c1)" by fastforce
  from join [OF r1, of ?sm] obtain n2 where n2: "connect_reply (Some \<circ> tag) True [] ?sm ?sm ?sm c1 0 n1 = Some n2"
    "c1 = 0" "clients n2 = [(''carol'', 0)]" "next_client n2 = 1" "cl_id (heap n2 0) = ''carol''" "\<not> ch_closed (heap n2 0)"
    by (auto simp: NewNode_def)
  let ?S2 = "set_conn 0 \<lparr>is_open = True, client = Some 0, phase = Idle\<rparr> n2 server_init"
  have "?steps server_init ?S2"
    using accept_connect [of server_init 0 n1 c1 "Some \<circ> tag" ?sm n2 marshal] r1 n2(1,2) by (simp add: server_init_def)
  moreover obtain n3 c3 where r3: "connect_register 1 carol n2 = (n3, c3)" by fastforce
  from join [OF r3, of ?sm] n2 obtain n4 where n4: "connect_reply (Some \<circ> tag) True [] ?sm ?sm ?sm c3 0 n3 = Some n4"
    "c3 = 1" "clients n4 = [(''carol'', 1)]" "heap n4 0 = heap n2 0" "cl_id (heap n4 1) = ''carol''"
    by auto
  let ?S4 = "set_conn 1 \<lparr>is_open = True, client = Some 1, phase = Idle\<rparr> n4 ?S2"
  have "?steps ?S2 ?S4"
    using accept_connect [of ?S2 1 n3 c3 "Some \<circ> tag" ?sm n4 marshal] r3 n4(1,2) by (simp add: server_init_def)
  moreover obtain n5 where n5: "close_client (Some 0) n4 = Some n5" "clients n5 = []" "cl_id (heap n5 1) = ''carol''"
    using n2 n4 by (simp add: close_client_def removeClient_def)
  let ?S5 = "set_conn 0 \<lparr>is_open = False, client = None, phase = Idle\<rparr> n5 ?S4"
  have "sstep (Some \<circ> tag) marshal ?S4 ?S5"
    using s_close [of ?S4 0 n5 "Some \<circ> tag" marshal] n5(1) by simp
  ultimately have "?steps server_init ?S5" by (meson rtranclp.rtrancl_into_rtrancl rtranclp_trans)
  moreover have "\<forall>res. onCommit (Some \<circ> tag) res n5 = Some n5" using n5(2) by (simp add: onCommit_def)
  ultimately show ?thesis using n5 by (intro exI [of _ ?S5]) simp
qed

text \<open>
  C37. The callbacks run in goroutines of their own, so two of them may swap. A client that gets
  the broadcasts in that order cannot apply them: the second revision does not fit the text the
  client has.
\<close>

theorem swapped_callbacks_break_clients:
  "\<exists>es sm' r1 r2 n'. applyAll (NewDocumentStateMachine ''x'') es = Some (sm', [Some r1, Some r2]) \<and>
     deliver (Some \<circ> tag) [Some r2, Some r1] one_client = Some n' \<and>
     sendCh (heap n' 0) = map tag (result_msgs ''carol'' [Some r2, Some r1]) \<and>
     replay ''x'' (bcasts (result_msgs ''carol'' [Some r2, Some r1])) = None"
proof -
  let ?rs = "[Some bob_second_result, Some bob_result]"
  obtain sm where "applyEntry run_fsm bob_second = Some (Ok (sm, Some bob_second_result))" using run_bob_second ..
  then have run: "applyAll (NewDocumentStateMachine ''x'') [bob_entry, bob_second] =
      Some (sm, [Some bob_result, Some bob_second_result])"
    by (simp add: run_bob)
  have "room (length ?rs) one_client" using one_client_simps by (simp add: room_def)
  from deliver_queues [of "Some \<circ> tag" tag, OF _ one_client_simps(1) this, of "''carol''" 0] one_client_simps
  obtain n' where n': "deliver (Some \<circ> tag) ?rs one_client = Some n'"
    "sendCh (heap n' 0) = map tag (result_msgs ''carol'' ?rs)" by auto
  have "replay ''x'' (bcasts (result_msgs ''carol'' ?rs)) = None"
    by (simp add: commit_msgs_def bob_second_result_def bob_result_def MakeInsert_second ApplyChangeset_def go_len_def)
  with run n' show ?thesis by blast
qed

end
