(* ===== verification/Server_Setup.thy ===== *)
theory Server_Setup
  imports Server_Node Raft_Transport Bolt_Store
begin

text \<open>
  How a server is put together: \<^verbatim>\<open>internal/server/cluster.go\<close> (\<^verbatim>\<open>SetupRaft\<close> and
  \<^verbatim>\<open>Shutdown\<close>) and the parts of \<^verbatim>\<open>cmd/server/main.go\<close> that decide something (the configuration file
  over the flags, the initial text). The operating system enters as the outcome of \<^verbatim>\<open>os.MkdirAll\<close>,
  \<^verbatim>\<open>bolt.Open\<close> and \<^verbatim>\<open>net.Listen\<close>. Durations are in nanoseconds.
\<close>

section \<open>cluster.go\<close>

record RaftConfig =
  NodeID :: string
  BindAddr :: string
  DataDir :: string
  cfg_Peers :: "string list"
  Bootstrap :: bool
  InitialText :: string
  cfg_ElectionMin :: int
  cfg_ElectionMax :: int
  cfg_Heartbeat :: int

definition or_default :: "int \<Rightarrow> int \<Rightarrow> int" where
  "or_default d dflt = (if d = 0 then dflt else d)"

definition peer_configs :: "string list \<Rightarrow> PeerConfig list" where
  "peer_configs ps = map (\<lambda>p. \<lparr>ID = p, Address = p\<rparr>) ps"

definition raft_config :: "RaftConfig \<Rightarrow> Config" where
  "raft_config cfg =
     \<lparr>ServerID = BindAddr cfg, Peers = peer_configs (cfg_Peers cfg),
      HeartbeatInterval = or_default (cfg_Heartbeat cfg) (HeartbeatInterval DefaultConfig),
      ElectionTimeoutMin = or_default (cfg_ElectionMin cfg) (ElectionTimeoutMin DefaultConfig),
      ElectionTimeoutMax = or_default (cfg_ElectionMax cfg) (ElectionTimeoutMax DefaultConfig),
      has_LogStore = True, has_StableStore = True, has_FSM = True\<rparr>"

datatype setup_error = MkdirFailed | BoltFailed store_error | ListenFailed | RaftFailed raft_error

text \<open>
  The bundle \<^verbatim>\<open>server.RaftNode\<close>. The one \<^verbatim>\<open>*BoltStore\<close> is the log store and the stable store of
  the node and the field \<^verbatim>\<open>LogStore\<close>: the copies in the model differ at most in the bucket the
  other component writes, which it does not read. \<^verbatim>\<open>Close\<close> closes all of them.
\<close>

record 'd RaftBundle =
  Raft :: "('d, 'd, DocumentStateMachine, ApplyResult) RaftNode"
  Transport :: TCPTransport
  Store :: 'd

text \<open>
  On failure the second component is what was opened before: the database and the transport as
  they are left. \<open>None\<close> is a panic, which only a corrupt stable store could cause.
\<close>

definition SetupRaft ::
    "'d Bolt \<Rightarrow> bool \<Rightarrow> 'd option \<Rightarrow> bool \<Rightarrow> RaftConfig \<Rightarrow> DocumentStateMachine \<Rightarrow>
     ((setup_error \<times> 'd option \<times> TCPTransport option) + 'd RaftBundle) option" where
  "SetupRaft bolt mkdir_ok opened listen_ok cfg sm =
     (if \<not> mkdir_ok then Some (Inl (MkdirFailed, None, None))
      else
        (case NewBoltStore bolt opened of
           Inl (e, d) \<Rightarrow> Some (Inl (BoltFailed e, d, None))
         | Inr d \<Rightarrow>
             (case NewTCPTransport (BindAddr cfg) listen_ok of
                None \<Rightarrow> Some (Inl (ListenFailed, Some (bolt_Close bolt d), None))
              | Some t \<Rightarrow>
                  (case NewRaftNode (bolt_stable bolt) (raft_config cfg) d d sm of
                     Panic \<Rightarrow> None
                   | Err e \<Rightarrow> Some (Inl (RaftFailed e, Some (bolt_Close bolt d), tcp_Shutdown t))
                   | Ok r \<Rightarrow> Some (Inr \<lparr>Raft = r, Transport = t, Store = d\<rparr>)))))"

definition bundle_Shutdown :: "'d Bolt \<Rightarrow> 'd RaftBundle \<Rightarrow> 'd RaftBundle option" where
  "bundle_Shutdown bolt n =
     (let r = Shutdown (Raft n)
      in case tcp_Shutdown (Transport n) of
           None \<Rightarrow> None
         | Some t \<Rightarrow>
             Some \<lparr>Raft = r\<lparr>logStore := bolt_Close bolt (logStore r), stableStore := bolt_Close bolt (stableStore r)\<rparr>,
               Transport = t, Store = bolt_Close bolt (Store n)\<rparr>)"

section \<open>main.go\<close>

record FileConfig =
  file_NodeID :: string
  file_GRPCAddr :: string
  file_WSAddr :: string
  file_DataDir :: string
  file_Peers :: "string list"
  file_Bootstrap :: bool
  file_ElectionMin :: string
  file_ElectionMax :: string
  file_Heartbeat :: string

record Flags =
  fl_NodeID :: string
  fl_GRPCAddr :: string
  fl_WSAddr :: string
  fl_DataDir :: string
  fl_Bootstrap :: bool
  fl_ElectionMin :: int
  fl_ElectionMax :: int
  fl_Heartbeat :: int

definition override :: "string \<Rightarrow> string \<Rightarrow> string" where
  "override new old = (if new \<noteq> [] then new else old)"

text \<open>\<open>parse\<close> is \<^verbatim>\<open>time.ParseDuration\<close>; an unreadable duration is ignored.\<close>

definition override_duration :: "(string \<Rightarrow> int option) \<Rightarrow> string \<Rightarrow> int \<Rightarrow> int" where
  "override_duration parse new old =
     (if new \<noteq> [] then (case parse new of None \<Rightarrow> old | Some d \<Rightarrow> d) else old)"

definition apply_file :: "(string \<Rightarrow> int option) \<Rightarrow> FileConfig \<Rightarrow> Flags \<Rightarrow> Flags" where
  "apply_file parse cfg fl =
     \<lparr>fl_NodeID = override (file_NodeID cfg) (fl_NodeID fl),
      fl_GRPCAddr = override (file_GRPCAddr cfg) (fl_GRPCAddr fl),
      fl_WSAddr = override (file_WSAddr cfg) (fl_WSAddr fl),
      fl_DataDir = override (file_DataDir cfg) (fl_DataDir fl),
      fl_Bootstrap = (if file_Bootstrap cfg then True else fl_Bootstrap fl),
      fl_ElectionMin = override_duration parse (file_ElectionMin cfg) (fl_ElectionMin fl),
      fl_ElectionMax = override_duration parse (file_ElectionMax cfg) (fl_ElectionMax fl),
      fl_Heartbeat = override_duration parse (file_Heartbeat cfg) (fl_Heartbeat fl)\<rparr>"

definition server_config :: "Flags \<Rightarrow> string list \<Rightarrow> RaftConfig" where
  "server_config fl peer_addrs =
     \<lparr>NodeID = fl_NodeID fl, BindAddr = fl_GRPCAddr fl, DataDir = fl_DataDir fl, cfg_Peers = peer_addrs,
      Bootstrap = fl_Bootstrap fl, InitialText = [], cfg_ElectionMin = fl_ElectionMin fl,
      cfg_ElectionMax = fl_ElectionMax fl, cfg_Heartbeat = fl_Heartbeat fl\<rparr>"

definition bootstrap_entry :: "string \<Rightarrow> RaftLogEntry" where
  "bootstrap_entry initText =
     \<lparr>ClientID = ''system-bootstrap'', SubmissionID = 1, BaseRev = 0, entry_Changeset = MakeInsert 0 0 initText\<rparr>"

definition health_state :: "('l, 's, 'f, 'r) RaftNode \<Rightarrow> string" where
  "health_state r = (if IsLeader r then ''leader'' else ''follower'')"

section \<open>Lemmas\<close>

lemma validate_raft_config:
  "validate (raft_config cfg) = None \<longleftrightarrow>
     BindAddr cfg \<noteq> [] \<and> BindAddr cfg \<in> set (cfg_Peers cfg) \<and>
     0 < HeartbeatInterval (raft_config cfg) \<and> 0 < ElectionTimeoutMin (raft_config cfg) \<and>
     ElectionTimeoutMin (raft_config cfg) < ElectionTimeoutMax (raft_config cfg)"
  unfolding validate_None by (auto simp: raft_config_def peer_configs_def)

lemma NewRaftNode_invalid: "validate cfg = Some e \<Longrightarrow> NewRaftNode sops cfg ls ss f = Err e"
  by (simp add: NewRaftNode_def)

lemma tcp_Shutdown_new:
  "NewTCPTransport addr True = Some t \<Longrightarrow> \<exists>t'. tcp_Shutdown t = Some t' \<and> \<not> listening t' \<and> tcp_Shutdown t' = Some t'"
  by (auto simp: NewTCPTransport_def tcp_Shutdown_def)

text \<open>
  A configuration that Raft does not accept (no bind address, a bind address that is not among
  the peers, a heartbeat or election range that is not positive and increasing, after the defaults
  were filled in) is refused, and then nothing stays open: the database is closed and the listener
  stopped. An accepted configuration gives a follower in the term and with the vote of the database,
  whose peers are exactly the configured addresses.
\<close>

lemma SetupRaft_config:
  fixes bolt :: "'d Bolt"
  assumes "NewBoltStore bolt opened = Inr d" and "GetUint64 (bolt_stable bolt) d KeyCurrentTerm = Ok t"
    and "Get (bolt_stable bolt) d KeyVotedFor = (v, None)"
  shows "if BindAddr cfg \<noteq> [] \<and> BindAddr cfg \<in> set (cfg_Peers cfg) \<and>
       0 < HeartbeatInterval (raft_config cfg) \<and> 0 < ElectionTimeoutMin (raft_config cfg) \<and>
       ElectionTimeoutMin (raft_config cfg) < ElectionTimeoutMax (raft_config cfg)
    then \<exists>n. SetupRaft bolt True opened True cfg sm = Some (Inr n) \<and> state (Raft n) = Follower \<and>
       currentTerm (Raft n) = t \<and> votedFor (Raft n) = v \<and> fsm (Raft n) = sm \<and>
       map ID (Peers (config (Raft n))) = cfg_Peers cfg
    else \<exists>e tr. SetupRaft bolt True opened True cfg sm = Some (Inl (RaftFailed e, Some (db_close bolt d), Some tr)) \<and>
       \<not> listening tr"
proof (cases "validate (raft_config cfg)")
  case None
  then obtain r :: "('d, 'd, DocumentStateMachine, ApplyResult) RaftNode" where r: "NewRaftNode (bolt_stable bolt) (raft_config cfg) d d sm = Ok r" "state r = Follower"
    "currentTerm r = t" "votedFor r = v" "fsm r = sm" "config r = raft_config cfg"
    using assms(2,3) by (simp add: NewRaftNode_def restoreState_def)
  have "map ID (Peers (config r)) = cfg_Peers cfg"
    by (simp add: r(6) raft_config_def peer_configs_def comp_def)
  moreover have "\<exists>n. SetupRaft bolt True opened True cfg sm = Some (Inr n) \<and> Raft n = r"
    by (simp add: SetupRaft_def assms(1) NewTCPTransport_def r(1))
  ultimately show ?thesis using None r unfolding validate_raft_config by auto
next
  case (Some e)
  have "\<exists>e tr. SetupRaft bolt True opened True cfg sm = Some (Inl (RaftFailed e, Some (db_close bolt d), Some tr)) \<and>
      \<not> listening tr"
    by (simp add: SetupRaft_def assms(1) NewTCPTransport_def NewRaftNode_invalid [OF Some] tcp_Shutdown_def bolt_Close_def)
  moreover have "validate (raft_config cfg) \<noteq> None" using Some by simp
  ultimately show ?thesis unfolding validate_raft_config by argo
qed

text \<open>
  The initial text of a bootstrapped cluster: committed first, the bootstrap entry makes the
  empty document exactly the given text, as revision 1.
\<close>

theorem bootstrap_sets_text:
  assumes "initText \<noteq> []" and "go_len initText < 2 ^ 63"
  shows "\<exists>sm r. applyEntry (NewDocumentStateMachine []) (bootstrap_entry initText) = Some (Ok (sm, Some r)) \<and>
    headText sm = initText \<and> headRev sm = 1 \<and> NewRev r = 1 \<and> \<not> IsDuplicate r"
proof -
  have "wf_changeset (MakeInsert 0 0 initText)" using assms by (intro MakeInsert_wf) auto
  moreover have "OldLen (MakeInsert 0 0 initText) = go_len []" "edits (Ops (MakeInsert 0 0 initText)) = [Ins initText]"
    by (simp_all add: MakeInsert_def Let_def wrap64_def)
  ultimately have "ApplyChangeset [] (MakeInsert 0 0 initText) = Ok initText"
    by (intro ApplyChangeset_by_edits) simp_all
  then show ?thesis
    by (simp add: applyEntry_def NewDocumentStateMachine_def bootstrap_entry_def transform_loop.simps wrap64_def)
qed

theorem bootstrap_sets_text_witness:
  "\<exists>sm r. applyEntry (NewDocumentStateMachine []) (bootstrap_entry ''hello'') = Some (Ok (sm, Some r)) \<and>
     headText sm = ''hello'' \<and> headRev sm = 1 \<and> NewRev r = 1 \<and> \<not> IsDuplicate r"
  by (rule bootstrap_sets_text) (simp_all add: go_len_def)

end
