(* ===== verification/Server_Main.thy ===== *)
theory Server_Main
  imports Server_Setup Go_Decode "HOL-Library.Sublist"
begin

text \<open>
  \<^verbatim>\<open>cmd/server/main.go\<close> from the flags to the running server: the configuration file, the list of
  peers with \<^verbatim>\<open>strings.Split\<close> and \<^verbatim>\<open>strings.TrimSpace\<close>, and the goroutine that proposes the initial
  text. The file system enters as the content of the configuration file, if it can be opened.
\<close>

section \<open>strings.Split and strings.TrimSpace\<close>

fun split_on :: "char \<Rightarrow> string \<Rightarrow> string list" where
  "split_on c [] = [[]]"
| "split_on c (x # xs) =
     (if x = c then [] # split_on c xs
      else case split_on c xs of [] \<Rightarrow> [[x]] | y # ys \<Rightarrow> (x # y) # ys)"

text \<open>The encodings of the runes for which \<^verbatim>\<open>unicode.IsSpace\<close> is true.\<close>

definition space_runes :: "nat list" where
  "space_runes = [9, 10, 11, 12, 13, 32, 0x85, 0xA0, 0x1680] @ [0x2000..<0x200B] @ [0x2028, 0x2029, 0x202F, 0x205F, 0x3000]"

definition spaces :: "string list" where
  "spaces = map encode_rune space_runes"

text \<open>Cutting white space off the front, and off the end (of the reversed string).\<close>

definition strip_one :: "string list \<Rightarrow> string \<Rightarrow> string option" where
  "strip_one ws s = map_option (\<lambda>w. drop (length w) s) (find (\<lambda>w. w \<noteq> [] \<and> prefix w s) ws)"

lemma strip_one_shorter: "strip_one ws s = Some t \<Longrightarrow> length t < length s"
  by (auto simp: strip_one_def find_Some_iff prefix_def)

function strip :: "string list \<Rightarrow> string \<Rightarrow> string" where
  "strip ws s = (case strip_one ws s of None \<Rightarrow> s | Some t \<Rightarrow> strip ws t)"
  by auto
termination
  by (relation "measure (\<lambda>(ws, s). length s)") (auto dest: strip_one_shorter)

declare strip.simps [simp del]

definition TrimSpace :: "string \<Rightarrow> string" where
  "TrimSpace s = rev (strip (map rev spaces) (rev (strip spaces s)))"

section \<open>main\<close>

text \<open>The peers of the configuration file, or else of the flag.\<close>

definition parse_peers :: "string list \<Rightarrow> string \<Rightarrow> string list" where
  "parse_peers file_peers peersFlag =
     (if length file_peers = 0 then map TrimSpace (split_on CHR '','' peersFlag) else file_peers)"

text \<open>
  \<^verbatim>\<open>json.NewDecoder(file).Decode(&cfg)\<close>: the first value of the file; what follows is not read.
\<close>

definition zeroFileConfig :: FileConfig where
  "zeroFileConfig = \<lparr>file_NodeID = [], file_GRPCAddr = [], file_WSAddr = [], file_DataDir = [], file_Peers = [],
     file_Bootstrap = False, file_ElectionMin = [], file_ElectionMax = [], file_Heartbeat = []\<rparr>"

definition dec_FileConfig :: "FileConfig decoder" where
  "dec_FileConfig =
     dec_struct [''node_id'', ''grpc_addr'', ''ws_addr'', ''data_dir'', ''peers'', ''bootstrap'', ''election_min'',
       ''election_max'', ''heartbeat'']
     (\<lambda>k v c.
        if k = ''node_id'' then into dec_string (file_NodeID c) (\<lambda>s. c\<lparr>file_NodeID := s\<rparr>) v
        else if k = ''grpc_addr'' then into dec_string (file_GRPCAddr c) (\<lambda>s. c\<lparr>file_GRPCAddr := s\<rparr>) v
        else if k = ''ws_addr'' then into dec_string (file_WSAddr c) (\<lambda>s. c\<lparr>file_WSAddr := s\<rparr>) v
        else if k = ''data_dir'' then into dec_string (file_DataDir c) (\<lambda>s. c\<lparr>file_DataDir := s\<rparr>) v
        else if k = ''peers'' then into (dec_slice dec_string []) (file_Peers c) (\<lambda>ps. c\<lparr>file_Peers := ps\<rparr>) v
        else if k = ''bootstrap'' then into dec_bool (file_Bootstrap c) (\<lambda>b. c\<lparr>file_Bootstrap := b\<rparr>) v
        else if k = ''election_min'' then into dec_string (file_ElectionMin c) (\<lambda>s. c\<lparr>file_ElectionMin := s\<rparr>) v
        else if k = ''election_max'' then into dec_string (file_ElectionMax c) (\<lambda>s. c\<lparr>file_ElectionMax := s\<rparr>) v
        else into dec_string (file_Heartbeat c) (\<lambda>s. c\<lparr>file_Heartbeat := s\<rparr>) v)"

definition read_config :: "string \<Rightarrow> FileConfig option" where
  "read_config content =
     (case parse_value 0 content of None \<Rightarrow> None | Some (v, rest) \<Rightarrow> decoded (dec_FileConfig v zeroFileConfig))"

text \<open>
  Reading the options. \<open>file\<close> is the content of the file, if it could be opened; \<^verbatim>\<open>log.Fatalf\<close> ends
  the program.
\<close>

datatype startup = Fatal string | Started Flags "string list"

definition load_options ::
    "(string \<Rightarrow> int option) \<Rightarrow> string \<Rightarrow> string option \<Rightarrow> Flags \<Rightarrow> string \<Rightarrow> startup" where
  "load_options parse configPath file fl peersFlag =
     (if configPath \<noteq> [] then
        (case file of
           None \<Rightarrow> Fatal ''failed to open config file''
         | Some content \<Rightarrow>
             (case read_config content of
                None \<Rightarrow> Fatal ''failed to decode config file''
              | Some cfg \<Rightarrow> Started (apply_file parse cfg fl) (parse_peers (file_Peers cfg) peersFlag)))
      else Started fl (parse_peers [] peersFlag))"

text \<open>
  The options, the empty document and the Raft node, in this order; \<open>Inl\<close> when the program ends
  before it serves anything. \<open>mkdir_ok\<close>, \<open>db\<close> and \<open>listen_ok\<close> are the outcomes of
  \<^verbatim>\<open>os.MkdirAll\<close>, \<^verbatim>\<open>bolt.Open\<close> and \<^verbatim>\<open>net.Listen\<close>.
\<close>

definition start_server ::
    "'d Bolt \<Rightarrow> (string \<Rightarrow> int option) \<Rightarrow> string \<Rightarrow> string option \<Rightarrow> Flags \<Rightarrow> string \<Rightarrow>
     bool \<Rightarrow> 'd option \<Rightarrow> bool \<Rightarrow> (string + 'd RaftBundle) option" where
  "start_server bolt parse configPath file fl peersFlag mkdir_ok db listen_ok =
     (case load_options parse configPath file fl peersFlag of
        Fatal msg \<Rightarrow> Some (Inl msg)
      | Started fl' peer_addrs \<Rightarrow>
          (case SetupRaft bolt mkdir_ok db listen_ok (server_config fl' peer_addrs) (NewDocumentStateMachine []) of
             None \<Rightarrow> None
           | Some (Inl _) \<Rightarrow> Some (Inl ''failed to start raft'')
           | Some (Inr rn) \<Rightarrow> Some (Inr rn)))"

text \<open>
  The goroutine of the initial text: \<open>None\<close> while it waits (or when the send to the node has to wait);
  it proposes the entry once the node is leader, if it can be encoded, and ends.
\<close>

definition bootstrap_propose ::
    "(RaftLogEntry \<Rightarrow> string option) \<Rightarrow> string \<Rightarrow> apply_choice \<Rightarrow> ('l, 's, 'f, 'r) RaftNode \<Rightarrow>
     ('l, 's, 'f, 'r) RaftNode option" where
  "bootstrap_propose marshal initText choice r =
     (if \<not> IsLeader r then None
      else case marshal (bootstrap_entry initText) of
             None \<Rightarrow> Some r
           | Some data \<Rightarrow> map_option fst (raft_Apply r data choice))"

text \<open>
  The end of \<^verbatim>\<open>main\<close>, with the exit status. A signal lets \<^verbatim>\<open>main\<close> return, which runs the deferred
  \<^verbatim>\<open>rn.Shutdown()\<close>; \<^verbatim>\<open>os.Exit(1)\<close> after an error of \<^verbatim>\<open>ListenAndServe\<close> runs no deferred function.
\<close>

definition main_end :: "'d Bolt \<Rightarrow> bool \<Rightarrow> 'd RaftBundle \<Rightarrow> (nat \<times> 'd RaftBundle) option" where
  "main_end bolt serve_failed rn =
     (if serve_failed then Some (1, rn) else map_option (\<lambda>rn'. (0, rn')) (bundle_Shutdown bolt rn))"

lemma shutdownCh_fail_all: "shutdownCh (fail_all err r) = shutdownCh r"
proof -
  have "shutdownCh (foldl (\<lambda>r (idx, f). (respond_at f (Some err) None r)
          \<lparr>pendingFutures := AList.delete idx (pendingFutures r)\<rparr>) r xs) = shutdownCh r" for xs
    by (induction xs arbitrary: r) (simp_all add: respond_at_def case_prod_unfold)
  then show ?thesis by (simp add: fail_all_def)
qed

lemma main_end_closes:
  assumes "\<not> shutdown_flag (Transport rn)" and "\<not> shutdown_closed (Transport rn)"
  shows "\<exists>rn'. main_end bolt False rn = Some (0, rn') \<and> shutdownCh (Raft rn') \<and> \<not> listening (Transport rn') \<and>
    Store rn' = bolt_Close bolt (Store rn)"
  using assms by (simp add: main_end_def bundle_Shutdown_def tcp_Shutdown_def Shutdown_def Let_def shutdownCh_fail_all)

lemma main_end_failed: "main_end bolt True rn = Some (1, rn)"
  by (simp add: main_end_def)

section \<open>Splitting and trimming\<close>

fun join :: "char \<Rightarrow> string list \<Rightarrow> string" where
  "join c [] = []"
| "join c [s] = s"
| "join c (s # t # ss) = s @ c # join c (t # ss)"

lemma split_on_nonempty: "split_on c s \<noteq> []"
  by (induction s) (auto split: list.splits)

lemma split_on_part: "c \<notin> set s \<Longrightarrow> split_on c s = [s]"
  by (induction s) auto

lemma split_on_append: "c \<notin> set s \<Longrightarrow> split_on c (s @ c # t) = s # split_on c t"
  by (induction s) auto

lemma split_on_join: "ss \<noteq> [] \<Longrightarrow> \<forall>s \<in> set ss. c \<notin> set s \<Longrightarrow> split_on c (join c ss) = ss"
  by (induction c ss rule: join.induct) (auto simp: split_on_part split_on_append)

text \<open>Stripping removes words, and stops where none of them can begin.\<close>

lemma strip_stop: "\<forall>w \<in> set ws. w = [] \<or> \<not> prefix w s \<Longrightarrow> strip ws s = s"
proof -
  assume "\<forall>w \<in> set ws. w = [] \<or> \<not> prefix w s"
  then have "find (\<lambda>w. w \<noteq> [] \<and> prefix w s) ws = None" by (auto simp: find_None_iff)
  then show ?thesis by (subst strip.simps) (simp add: strip_one_def)
qed

text \<open>No word of the list is a proper prefix of another.\<close>

definition prefix_free :: "string list \<Rightarrow> bool" where
  "prefix_free ws \<longleftrightarrow> [] \<notin> set ws \<and> (\<forall>v \<in> set ws. \<forall>w \<in> set ws. prefix v w \<longrightarrow> v = w)"

lemma strip_word:
  assumes "prefix_free ws" and "w \<in> set ws"
  shows "strip ws (w @ s) = strip ws s"
proof -
  have "find (\<lambda>v. v \<noteq> [] \<and> prefix v (w @ s)) ws \<noteq> None"
    using assms by (auto simp: find_None_iff prefix_free_def)
  then obtain v where v: "find (\<lambda>v. v \<noteq> [] \<and> prefix v (w @ s)) ws = Some v" by blast
  then have "v \<in> set ws" "prefix v (w @ s)" by (auto simp: find_Some_iff)
  then have "v = w" using assms by (metis prefix_free_def prefix_same_cases prefixI)
  with v show ?thesis by (subst strip.simps) (simp add: strip_one_def)
qed

lemma strip_words:
  assumes "prefix_free ws" and "set vs \<subseteq> set ws" and "\<forall>w \<in> set ws. \<not> prefix w s"
  shows "strip ws (concat vs @ s) = s"
  using assms(2)
proof (induction vs)
  case Nil
  with assms(3) show ?case by (auto intro: strip_stop)
next
  case (Cons v vs)
  then show ?case using strip_word [OF assms(1)] by simp
qed

text \<open>The bytes of the white space of Unicode.\<close>

abbreviation bytes :: "string \<Rightarrow> nat list" where
  "bytes \<equiv> map of_char"

definition space_bytes :: "nat list list" where
  "space_bytes =
     [[9], [10], [11], [12], [13], [32], [194, 133], [194, 160], [225, 154, 128]] @
     map (\<lambda>b. [226, 128, b]) [128, 129, 130, 131, 132, 133, 134, 135, 136, 137, 138, 168, 169, 175] @
     [[226, 129, 159], [227, 128, 128]]"

lemma spaces_bytes: "map bytes spaces = space_bytes"
  by (simp add: spaces_def space_runes_def space_bytes_def encode_rune_def valid_rune_def encode_valid_def
      upt_conv_Cons)

lemma space_bytes_prefix_free:
  "\<forall>v \<in> set space_bytes. \<forall>w \<in> set space_bytes. prefix v w \<or> suffix v w \<longrightarrow> v = w"
  by (simp add: space_bytes_def suffix_def prefix_def)

lemma bytes_inj: "bytes v = bytes w \<longleftrightarrow> v = w"
  by (auto simp: inj_map_eq_map inj_def)

text \<open>Printable ASCII characters other than the space.\<close>

definition graphic :: "char \<Rightarrow> bool" where
  "graphic c \<longleftrightarrow> 33 \<le> (of_char c :: nat) \<and> (of_char c :: nat) \<le> 126"

lemma space_bytes_mem: "w \<in> set spaces \<Longrightarrow> bytes w \<in> set space_bytes"
  by (metis spaces_bytes image_eqI list.set_map)

lemma space_bytes_ends:
  "\<forall>w \<in> set space_bytes. w \<noteq> [] \<and> (hd w < 33 \<or> 126 < hd w) \<and> (last w < 33 \<or> 126 < last w) \<and> 44 \<notin> set w"
  by (simp add: space_bytes_def)

lemma spaces_ends:
  assumes "w \<in> set spaces"
  shows "w \<noteq> []" and "\<not> graphic (hd w)" and "\<not> graphic (last w)" and "CHR '','' \<notin> set w"
proof -
  have b: "bytes w \<noteq> [] \<and> (hd (bytes w) < 33 \<or> 126 < hd (bytes w)) \<and>
      (last (bytes w) < 33 \<or> 126 < last (bytes w)) \<and> 44 \<notin> set (bytes w)"
    using space_bytes_mem [OF assms] space_bytes_ends by blast
  then show ne: "w \<noteq> []" by auto
  show "\<not> graphic (hd w)" "\<not> graphic (last w)"
    using b ne by (auto simp: graphic_def hd_map last_map)
  show "CHR '','' \<notin> set w"
  proof
    assume "CHR '','' \<in> set w"
    then have "of_char CHR '','' \<in> set (bytes w)" unfolding list.set_map by (rule imageI)
    with b show False by simp
  qed
qed

lemma spaces_prefix_free: "prefix_free spaces" "prefix_free (map rev spaces)"
proof -
  have eq: "v = w" if "v \<in> set spaces" "w \<in> set spaces" "prefix v w \<or> suffix v w" for v w
  proof -
    have "prefix (bytes v) (bytes w) \<or> suffix (bytes v) (bytes w)"
      using that(3) by (auto simp: prefix_def suffix_def)
    then show ?thesis
      using space_bytes_prefix_free space_bytes_mem [OF that(1)] space_bytes_mem [OF that(2)] bytes_inj by blast
  qed
  show "prefix_free spaces"
    using eq spaces_ends(1) by (auto simp: prefix_free_def)
  show "prefix_free (map rev spaces)"
    using eq spaces_ends(1) by (auto simp: prefix_free_def suffix_to_prefix [symmetric])
qed

text \<open>An address is not empty, has a visible character at both ends and no comma.\<close>

definition address :: "string \<Rightarrow> bool" where
  "address a \<longleftrightarrow> a \<noteq> [] \<and> graphic (hd a) \<and> graphic (last a) \<and> CHR '','' \<notin> set a"

definition blank :: "string \<Rightarrow> bool" where
  "blank s \<longleftrightarrow> (\<exists>vs. set vs \<subseteq> set spaces \<and> s = concat vs)"

lemma strip_blank:
  assumes "blank u" and "s \<noteq> []" and "graphic (hd s)"
  shows "strip spaces (u @ s) = s"
proof -
  obtain vs where vs: "set vs \<subseteq> set spaces" "u = concat vs" using assms(1) by (auto simp: blank_def)
  have "\<not> prefix w s" if "w \<in> set spaces" for w
    using assms(2,3) spaces_ends(1,2) [OF that] by (cases w; cases s) auto
  then show ?thesis using strip_words [OF spaces_prefix_free(1) vs(1)] vs(2) by simp
qed

lemma strip_blank_end:
  assumes "blank u" and "s \<noteq> []" and "graphic (last s)"
  shows "strip (map rev spaces) (rev (s @ u)) = rev s"
proof -
  obtain vs where vs: "set vs \<subseteq> set spaces" "u = concat vs" using assms(1) by (auto simp: blank_def)
  have "\<not> prefix (rev w) (rev s)" if "w \<in> set spaces" for w
    using assms(2,3) spaces_ends(1,3) [OF that]
    by (cases w rule: rev_cases; cases s rule: rev_cases) auto
  then have "\<forall>w \<in> set (map rev spaces). \<not> prefix w (rev s)" by auto
  moreover have "set (rev (map rev vs)) \<subseteq> set (map rev spaces)" using vs(1) by auto
  ultimately show ?thesis
    using strip_words [OF spaces_prefix_free(2)] vs(2) by (simp add: rev_concat rev_map)
qed

lemma TrimSpace_pad:
  assumes "blank u" and "blank v" and "address a"
  shows "TrimSpace (u @ a @ v) = a"
proof -
  have "strip spaces (u @ a @ v) = a @ v"
    using assms by (intro strip_blank) (auto simp: address_def)
  then show ?thesis
    using strip_blank_end [OF assms(2)] assms(3) by (simp add: TrimSpace_def address_def)
qed

lemma blank_no_comma: "blank u \<Longrightarrow> CHR '','' \<notin> set u"
  using spaces_ends(4) unfolding blank_def by fastforce

lemma blank_Nil [simp]: "blank []"
  by (auto simp: blank_def intro: exI [of _ "[]"])

lemma blank_space [simp]: "blank '' ''"
proof -
  have "encode_rune 32 \<in> set spaces" by (simp add: spaces_def space_runes_def)
  moreover have "encode_rune 32 = '' ''"
    by (rule bytes_inj [THEN iffD1]) (simp add: encode_rune_def valid_rune_def encode_valid_def)
  ultimately show ?thesis by (auto simp: blank_def intro: exI [of _ "['' '']"])
qed

section \<open>The peers of a server\<close>

definition padded :: "string \<times> string \<times> string \<Rightarrow> string" where
  "padded = (\<lambda>(u, a, v). u @ a @ v)"

definition padded_address :: "string \<times> string \<times> string \<Rightarrow> bool" where
  "padded_address = (\<lambda>(u, a, v). blank u \<and> address a \<and> blank v)"

lemma parse_padded:
  assumes "ps \<noteq> []" and "\<forall>p \<in> set ps. padded_address p"
  shows "parse_peers [] (join CHR '','' (map padded ps)) = map (fst \<circ> snd) ps"
proof -
  have "\<forall>s \<in> set (map padded ps). CHR '','' \<notin> set s"
    using assms(2) blank_no_comma by (fastforce simp: padded_def padded_address_def address_def)
  then have "split_on CHR '','' (join CHR '','' (map padded ps)) = map padded ps"
    using assms(1) by (intro split_on_join) auto
  moreover have "TrimSpace (padded p) = (fst \<circ> snd) p" if "p \<in> set ps" for p
    using assms(2) that TrimSpace_pad by (auto simp: padded_def padded_address_def)
  ultimately show ?thesis by (simp add: parse_peers_def)
qed

lemma flag_config:
  assumes "fl_ElectionMin fl = 0" and "fl_ElectionMax fl = 0" and "fl_Heartbeat fl = 0" and "[] \<notin> set as"
  shows "BindAddr (server_config fl as) \<noteq> [] \<and> BindAddr (server_config fl as) \<in> set (cfg_Peers (server_config fl as)) \<and>
       0 < HeartbeatInterval (raft_config (server_config fl as)) \<and>
       0 < ElectionTimeoutMin (raft_config (server_config fl as)) \<and>
       ElectionTimeoutMin (raft_config (server_config fl as)) < ElectionTimeoutMax (raft_config (server_config fl as)) \<longleftrightarrow>
     fl_GRPCAddr fl \<in> set as"
  using assms
  by (auto simp: server_config_def raft_config_def or_default_def DefaultConfig_def millisecond_def)

text \<open>
  C27. A server started without a configuration file reads from the \<^verbatim>\<open>-peers\<close> flag exactly the
  addresses that were written there, in their order and whatever white space surrounds them. On a
  fresh or intact database and with the default timeouts the server then comes up, as a follower
  with an empty document and these peers, if the address it listens on is one of them, and ends with
  an error message if it is not.
\<close>

theorem server_starts_with_its_peers:
  fixes bolt :: "'d Bolt"
  assumes "ps \<noteq> []" and "\<forall>p \<in> set ps. padded_address p"
    and "fl_ElectionMin fl = 0" and "fl_ElectionMax fl = 0" and "fl_Heartbeat fl = 0"
    and "NewBoltStore bolt db = Inr d" and "GetUint64 (bolt_stable bolt) d KeyCurrentTerm = Ok t"
    and "Get (bolt_stable bolt) d KeyVotedFor = (v, None)"
  shows "if fl_GRPCAddr fl \<in> set (map (fst \<circ> snd) ps)
    then \<exists>n. start_server bolt parse [] file fl (join CHR '','' (map padded ps)) True db True = Some (Inr n) \<and>
      state (Raft n) = Follower \<and> currentTerm (Raft n) = t \<and> headText (fsm (Raft n)) = [] \<and>
      map ID (Peers (config (Raft n))) = map (fst \<circ> snd) ps
    else start_server bolt parse [] file fl (join CHR '','' (map padded ps)) True db True =
      Some (Inl ''failed to start raft'')"
proof -
  let ?as = "map (fst \<circ> snd) ps"
  have options: "load_options parse [] file fl (join CHR '','' (map padded ps)) = Started fl ?as"
    using parse_padded [OF assms(1,2)] by (simp add: load_options_def)
  have "[] \<notin> set ?as" using assms(2) by (fastforce simp: padded_address_def address_def)
  note config = flag_config [OF assms(3-5) this]
  have peers: "cfg_Peers (server_config fl ?as) = ?as" by (simp add: server_config_def)
  note node = SetupRaft_config [OF assms(6-8), of "server_config fl ?as" "NewDocumentStateMachine []",
      unfolded config, unfolded peers]
  show ?thesis
  proof (cases "fl_GRPCAddr fl \<in> set ?as")
    case True
    with node obtain n where n: "SetupRaft bolt True db True (server_config fl ?as) (NewDocumentStateMachine []) = Some (Inr n)"
      "state (Raft n) = Follower" "currentTerm (Raft n) = t" "fsm (Raft n) = NewDocumentStateMachine []"
      "map ID (Peers (config (Raft n))) = ?as"
      by (auto simp del: set_map list.map)
    then have "start_server bolt parse [] file fl (join CHR '','' (map padded ps)) True db True = Some (Inr n)"
      by (simp add: start_server_def options del: list.map)
    moreover have "headText (fsm (Raft n)) = []" by (simp add: n(4) NewDocumentStateMachine_def)
    ultimately show ?thesis using True n by auto
  next
    case False
    with node obtain e where "SetupRaft bolt True db True (server_config fl ?as) (NewDocumentStateMachine []) = Some (Inl e)"
      by (auto simp del: set_map list.map)
    then have "start_server bolt parse [] file fl (join CHR '','' (map padded ps)) True db True =
        Some (Inl ''failed to start raft'')"
      by (simp add: start_server_def options del: list.map)
    then show ?thesis using False by auto
  qed
qed

theorem server_starts_with_its_peers_witness:
  "\<exists>n. start_server list_bolt (\<lambda>_. None) [] None
     \<lparr>fl_NodeID = ''n1'', fl_GRPCAddr = ''a:1'', fl_WSAddr = ''a:8'', fl_DataDir = ''data'', fl_Bootstrap = False,
      fl_ElectionMin = 0, fl_ElectionMax = 0, fl_Heartbeat = 0\<rparr> ''b:1, a:1 '' True (Some (\<lambda>_. [])) True = Some (Inr n) \<and>
   state (Raft n) = Follower \<and> map ID (Peers (config (Raft n))) = [''b:1'', ''a:1'']"
proof -
  let ?fl = "\<lparr>fl_NodeID = ''n1'', fl_GRPCAddr = ''a:1'', fl_WSAddr = ''a:8'', fl_DataDir = ''data'', fl_Bootstrap = False,
      fl_ElectionMin = 0, fl_ElectionMax = 0, fl_Heartbeat = 0\<rparr>"
  let ?ps = "[([], ''b:1'', []), ('' '', ''a:1'', '' '')]"
  have db: "NewBoltStore list_bolt (Some (\<lambda>_. [])) = Inr (\<lambda>_. [])"
    "GetUint64 (bolt_stable list_bolt) (\<lambda>_. []) KeyCurrentTerm = Ok 0"
    "Get (bolt_stable list_bolt) (\<lambda>_. []) KeyVotedFor = ([], None)"
    by (simp_all add: NewBoltStore_def db_Update_def bolt_stable_def bolt_GetUint64_def bolt_Get_def list_bolt_def)
  have ps: "\<forall>p \<in> set ?ps. padded_address p"
    by (simp add: padded_address_def address_def graphic_def)
  have "join CHR '','' (map padded ?ps) = ''b:1, a:1 ''" by (simp add: padded_def)
  then show ?thesis
    using server_starts_with_its_peers [OF _ ps _ _ _ db, of ?fl "\<lambda>_. None" None] by auto
qed

end
