(* ===== verification/Wire_Server.thy ===== *)
theory Wire_Server
  imports Wire_Entry Server_Node Server_Main
begin

text \<open>
  The messages between browser and server as JSON text: the envelope and the payloads of
  \<^verbatim>\<open>server/websocket.go\<close>, what \<^verbatim>\<open>wsClient.send\<close> puts on the socket, and how \<^verbatim>\<open>readPump\<close> takes an
  incoming text apart. With \<^verbatim>\<open>Wire_Entry\<close> a submission is followed from the bytes on the socket to
  the state machines of all nodes. The texts of error messages are a parameter.
\<close>

section \<open>Messages of the server\<close>

definition enc_Envelope :: "string \<Rightarrow> json \<Rightarrow> json" where
  "enc_Envelope ty payload = JObj [(''type'', JStr ty), (''payload'', payload)]"

fun msg_type :: "ServerMsg \<Rightarrow> string" where
  "msg_type (ConnectAckMsg t n catchUp) = ''CONNECT_ACK''"
| "msg_type (AckMsg newRev) = ''ACK''"
| "msg_type (BroadcastMsg c newRev) = ''BROADCAST''"
| "msg_type (RedirectMsg leader) = ''REDIRECT''"
| "msg_type (ErrorMsg code) = ''ERROR''"

text \<open>The list of \<^verbatim>\<open>RevisionsSince\<close> is nil when there is nothing to catch up.\<close>

fun enc_ServerMsg :: "(nat \<Rightarrow> string) \<Rightarrow> ServerMsg \<Rightarrow> json" where
  "enc_ServerMsg texts (ConnectAckMsg t n catchUp) =
     JObj [(''head_text'', JStr t), (''head_rev'', JNum (show_int n)),
           (''catch_up'', if catchUp = [] then JNull else JArr (map enc_RevisionRecord catchUp))]"
| "enc_ServerMsg texts (AckMsg newRev) = JObj [(''new_rev'', JNum (show_int newRev))]"
| "enc_ServerMsg texts (BroadcastMsg c newRev) =
     JObj [(''changeset'', enc_Changeset c), (''new_rev'', JNum (show_int newRev))]"
| "enc_ServerMsg texts (RedirectMsg leader) = JObj [(''leader_addr'', JStr leader)]"
| "enc_ServerMsg texts (ErrorMsg code) =
     JObj [(''code'', JNum (show_nat code)), (''message'', JStr (texts code))]"

text \<open>The two calls of \<^verbatim>\<open>json.Marshal\<close> in \<^verbatim>\<open>send\<close>; neither fails on these types.\<close>

definition marshal_ServerMsg :: "(nat \<Rightarrow> string) \<Rightarrow> ServerMsg \<Rightarrow> string option" where
  "marshal_ServerMsg texts msg = Some (print (enc_Envelope (msg_type msg) (enc_ServerMsg texts msg)))"

section \<open>Messages of the client\<close>

record Envelope =
  env_Type :: string
  Payload :: "json option"

text \<open>The raw payload is kept as its tree; \<open>None\<close> is the empty \<^verbatim>\<open>json.RawMessage\<close>.\<close>

definition dec_Envelope :: "Envelope decoder" where
  "dec_Envelope = dec_struct [''type'', ''payload'']
     (\<lambda>k v env.
        if k = ''type'' then into dec_string (env_Type env) (\<lambda>t. env\<lparr>env_Type := t\<rparr>) v
        else (env\<lparr>Payload := Some v\<rparr>, True))"

definition zeroConnectMsg :: ConnectMsg where
  "zeroConnectMsg = \<lparr>con_ClientID = [], LastKnownRev = 0\<rparr>"

definition dec_ConnectMsg :: "ConnectMsg decoder" where
  "dec_ConnectMsg = dec_struct [''client_id'', ''last_known_rev'']
     (\<lambda>k v m.
        if k = ''client_id'' then into dec_string (con_ClientID m) (\<lambda>s. m\<lparr>con_ClientID := s\<rparr>) v
        else into dec_int (LastKnownRev m) (\<lambda>n. m\<lparr>LastKnownRev := n\<rparr>) v)"

definition zeroSubmitMsg :: SubmitMsg where
  "zeroSubmitMsg = \<lparr>sub_ClientID = [], sub_SubmissionID = 0, sub_BaseRev = 0, sub_Changeset = zeroChangeset\<rparr>"

definition dec_SubmitMsg :: "SubmitMsg decoder" where
  "dec_SubmitMsg = dec_struct [''client_id'', ''submission_id'', ''base_rev'', ''changeset'']
     (\<lambda>k v m.
        if k = ''client_id'' then into dec_string (sub_ClientID m) (\<lambda>s. m\<lparr>sub_ClientID := s\<rparr>) v
        else if k = ''submission_id'' then into dec_int (sub_SubmissionID m) (\<lambda>n. m\<lparr>sub_SubmissionID := n\<rparr>) v
        else if k = ''base_rev'' then into dec_int (sub_BaseRev m) (\<lambda>n. m\<lparr>sub_BaseRev := n\<rparr>) v
        else into dec_Changeset (sub_Changeset m) (\<lambda>c. m\<lparr>sub_Changeset := c\<rparr>) v)"

text \<open>\<^verbatim>\<open>json.Unmarshal(env.Payload, &msg)\<close>: an empty payload is a syntax error.\<close>

definition payload_as :: "'a decoder \<Rightarrow> 'a \<Rightarrow> Envelope \<Rightarrow> 'a option" where
  "payload_as dec zero env = (case Payload env of None \<Rightarrow> None | Some v \<Rightarrow> decoded (dec v zero))"

text \<open>One round of the loop of \<^verbatim>\<open>readPump\<close>, up to the call of a handler.\<close>

datatype incoming = Ignored | OnConnect ConnectMsg | OnSubmit SubmitMsg

definition dispatch :: "string \<Rightarrow> bool \<Rightarrow> incoming" where
  "dispatch raw connected =
     (case decoded (Unmarshal dec_Envelope raw \<lparr>env_Type = [], Payload = None\<rparr>) of
        None \<Rightarrow> Ignored
      | Some env \<Rightarrow>
          if env_Type env = ''CONNECT'' then
            (case payload_as dec_ConnectMsg zeroConnectMsg env of None \<Rightarrow> Ignored | Some m \<Rightarrow> OnConnect m)
          else if env_Type env = ''SUBMIT'' then
            (if \<not> connected then Ignored
             else case payload_as dec_SubmitMsg zeroSubmitMsg env of None \<Rightarrow> Ignored | Some m \<Rightarrow> OnSubmit m)
          else Ignored)"

section \<open>What a client writes\<close>

definition enc_ConnectMsg :: "ConnectMsg \<Rightarrow> json" where
  "enc_ConnectMsg m =
     JObj [(''client_id'', JStr (con_ClientID m)), (''last_known_rev'', JNum (show_int (LastKnownRev m)))]"

definition enc_SubmitMsg :: "SubmitMsg \<Rightarrow> json" where
  "enc_SubmitMsg m =
     JObj [(''client_id'', JStr (sub_ClientID m)), (''submission_id'', JNum (show_int (sub_SubmissionID m))),
           (''base_rev'', JNum (show_int (sub_BaseRev m))), (''changeset'', enc_Changeset (sub_Changeset m))]"

text \<open>The entry that \<^verbatim>\<open>handleSubmit\<close> proposes.\<close>

definition submit_entry :: "SubmitMsg \<Rightarrow> RaftLogEntry" where
  "submit_entry m = \<lparr>ClientID = sub_ClientID m, SubmissionID = sub_SubmissionID m, BaseRev = sub_BaseRev m,
     entry_Changeset = sub_Changeset m\<rparr>"

section \<open>Lemmas\<close>

definition json_SubmitMsg :: "SubmitMsg \<Rightarrow> bool" where
  "json_SubmitMsg m \<longleftrightarrow> json_command (submit_entry m)"

lemma json_SubmitMsg_iff:
  "json_SubmitMsg m \<longleftrightarrow> valid_utf8 (sub_ClientID m) \<and> in_int64 (sub_SubmissionID m) \<and> in_int64 (sub_BaseRev m) \<and>
     json_Changeset (sub_Changeset m)"
  by (simp add: json_SubmitMsg_def json_command_iff submit_entry_def)

lemma keeps_SubmitMsg: "keeps json_SubmitMsg dec_SubmitMsg"
  unfolding dec_SubmitMsg_def
  by (intro keeps_struct keeps_if keeps_field keeps_into [OF keeps_Changeset]) (simp_all add: json_SubmitMsg_iff)

definition utf8_Envelope :: "Envelope \<Rightarrow> bool" where
  "utf8_Envelope env \<longleftrightarrow> valid_utf8 (env_Type env) \<and> (\<forall>v. Payload env = Some v \<longrightarrow> utf8_tree v)"

lemma keeps_Envelope: "keeps utf8_Envelope dec_Envelope"
  unfolding dec_Envelope_def
  by (intro keeps_struct keeps_if keeps_field) (simp_all add: keeps_def utf8_Envelope_def)

lemma payload_keeps:
  assumes "payload_as dec zero env = Some m" and "keeps P dec" and "P zero" and "utf8_Envelope env"
  shows "P m"
  using assms by (auto simp: payload_as_def decoded_def keeps_def utf8_Envelope_def split: option.splits if_splits)

lemma dispatched_submission:
  assumes "dispatch raw connected = OnSubmit m"
  shows "connected \<and> json_SubmitMsg m"
proof -
  let ?env = "Unmarshal dec_Envelope raw \<lparr>env_Type = [], Payload = None\<rparr>"
  have "utf8_Envelope (fst ?env)" by (rule Unmarshal_keeps [OF keeps_Envelope]) (simp add: utf8_Envelope_def)
  moreover have "json_SubmitMsg zeroSubmitMsg" by (simp add: json_SubmitMsg_iff zeroSubmitMsg_def zero_json_Changeset)
  ultimately show ?thesis
    using assms payload_keeps [OF _ keeps_SubmitMsg, of zeroSubmitMsg "fst ?env" m]
    by (auto simp: dispatch_def decoded_def split: option.splits if_splits)
qed

lemma handleSubmit_proposes:
  assumes "handleSubmit enc marshal isLeader leader c m n = Some (Propose data)"
  shows "isLeader \<and> Validate (sub_Changeset m) = None \<and> marshal (submit_entry m) = Some data"
  using assms by (auto simp: handleSubmit_def submit_entry_def Let_def split: if_splits option.splits)

lemma dec_enc_SubmitMsg: "json_SubmitMsg m \<Longrightarrow> dec_SubmitMsg (enc_SubmitMsg m) zeroSubmitMsg = (m, True)"
  using dec_enc_Changeset [of "sub_Changeset m"]
  by (simp add: dec_SubmitMsg_def enc_SubmitMsg_def json_SubmitMsg_iff zeroSubmitMsg_def struct_simps json_Changeset_def)

lemma dec_enc_ConnectMsg: "in_int64 (LastKnownRev m) \<Longrightarrow> dec_ConnectMsg (enc_ConnectMsg m) zeroConnectMsg = (m, True)"
  by (simp add: dec_ConnectMsg_def enc_ConnectMsg_def zeroConnectMsg_def struct_simps)

lemma dispatch_Envelope:
  assumes "parse_json raw = Some (enc_Envelope ty v)"
  shows "dispatch raw connected =
    (if ty = ''CONNECT'' then case decoded (dec_ConnectMsg v zeroConnectMsg) of None \<Rightarrow> Ignored | Some m \<Rightarrow> OnConnect m
     else if ty = ''SUBMIT'' \<and> connected
     then case decoded (dec_SubmitMsg v zeroSubmitMsg) of None \<Rightarrow> Ignored | Some m \<Rightarrow> OnSubmit m
     else Ignored)"
proof -
  have "Unmarshal dec_Envelope raw \<lparr>env_Type = [], Payload = None\<rparr> = (\<lparr>env_Type = ty, Payload = Some v\<rparr>, True)"
    by (simp add: Unmarshal_def assms enc_Envelope_def dec_Envelope_def struct_simps)
  then show ?thesis by (simp add: dispatch_def decoded_def payload_as_def)
qed

section \<open>Lengths\<close>

text \<open>
  Lengths as \<^verbatim>\<open>web/client.js\<close> counts them, in UTF-16 code units, and the \<^verbatim>\<open>new_len\<close> that goes with them.
\<close>

definition utf16_len :: "string \<Rightarrow> int" where
  "utf16_len s = sum_list (map (\<lambda>r. if r < 0x10000 then 1 else 2) (runes s))"

definition js_span :: "Op \<Rightarrow> int" where
  "js_span op = (case op_Type op of OpRetain \<Rightarrow> op_Len op | OpInsert \<Rightarrow> utf16_len (op_Chars op) | _ \<Rightarrow> 0)"

definition js_new_len :: "Op list \<Rightarrow> int" where
  "js_new_len ops = sum_list (map js_span ops)"

definition non_ascii :: "Op \<Rightarrow> bool" where
  "non_ascii op \<longleftrightarrow> op_Type op = OpInsert \<and> (\<exists>r \<in> set (runes (op_Chars op)). 128 \<le> r)"

lemma length_encode_runes:
  "list_all valid_rune rs \<Longrightarrow>
     sum_list (map (\<lambda>r. if r < 0x10000 then 1 else 2) rs) \<le> int (length (encode_runes rs)) \<and>
     ((\<exists>r \<in> set rs. 128 \<le> r) \<longrightarrow>
       sum_list (map (\<lambda>r. if r < 0x10000 then 1 else 2) rs) < int (length (encode_runes rs)))"
  by (induction rs) (auto simp: encode_rune_def encode_valid_def)

lemma utf16_len_less:
  assumes "valid_utf8 s"
  shows "utf16_len s \<le> go_len s" and "\<exists>r \<in> set (runes s). 128 \<le> r \<Longrightarrow> utf16_len s < go_len s"
  using length_encode_runes [OF runes_valid [of s]] assms
  by (simp_all add: utf16_len_def go_len_def valid_utf8_def)

lemma js_span_less:
  assumes "op_ok op" and "valid_utf8 (op_Chars op)"
  shows "js_span op \<le> int (dst_span (op_edit op))" and "non_ascii op \<Longrightarrow> js_span op < int (dst_span (op_edit op))"
  using assms utf16_len_less [of "op_Chars op"]
  by (auto simp: js_span_def op_ok_def non_ascii_def go_len_def op_edit_def split: OpType.splits)

lemma js_new_len_less:
  assumes "list_all op_ok ops" and "list_all (\<lambda>op. valid_utf8 (op_Chars op)) ops"
  shows "js_new_len ops \<le> int (dst_len (edits ops)) \<and>
    ((\<exists>op \<in> set ops. non_ascii op) \<longrightarrow> js_new_len ops < int (dst_len (edits ops)))"
  using assms
proof (induction ops)
  case (Cons a ops)
  with js_span_less [of a] show ?case by (auto simp: js_new_len_def)
qed (simp add: js_new_len_def)

lemma utf16_counts_rejected:
  assumes "list_all (\<lambda>op. valid_utf8 (op_Chars op)) (Ops c)" and "op \<in> set (Ops c)" and "non_ascii op"
    and "NewLen c = js_new_len (Ops c)"
    and "src_len (edits (Ops c)) < 2 ^ 63" and "dst_len (edits (Ops c)) < 2 ^ 63"
  shows "Validate c \<noteq> None"
proof (cases "validate_loop (Ops c) 0 0")
  case (Inr p)
  obtain a b where p: "p = (a, b)" by (cases p)
  have "list_all op_ok (Ops c)" using Inr by (rule validate_loop_Inr_ok)
  with assms js_new_len_less [of "Ops c"] have "NewLen c < int (dst_len (edits (Ops c)))" by auto
  with validate_loop_Inr_exact [of "Ops c" a b] assms(5,6) Inr p show ?thesis by (auto simp: Validate_def)
qed (simp add: Validate_def)

section \<open>Messages come back\<close>

lemma valid_utf8_wire [simp]:
  "valid_utf8 ''type''" "valid_utf8 ''payload''" "valid_utf8 ''CONNECT''" "valid_utf8 ''SUBMIT''"
  "valid_utf8 ''last_known_rev''"
  by (rule ascii_valid_utf8, simp)+

lemma fits_RevisionRecord: "fits 4 (enc_RevisionRecord r)"
  using fits_Changeset by (simp add: enc_RevisionRecord_def show_int_literal)

lemma fits_ServerMsg: "fits 7 (enc_Envelope ty (enc_ServerMsg texts msg))"
proof -
  have "fits 5 (enc_Changeset c)" for c by (rule fits_mono [OF fits_Changeset]) simp
  then show ?thesis
    by (cases msg) (auto simp: enc_Envelope_def show_int_literal show_nat_literal fits_RevisionRecord)
qed

lemma parse_client_message:
  assumes "fits 9 v" and "coerce v = v" and "valid_utf8 ty"
  shows "parse_json (print (enc_Envelope ty v)) = Some (enc_Envelope ty v)"
proof -
  have "fits 9999 v" by (rule fits_mono [OF assms(1)]) simp
  then have "fits 10000 (enc_Envelope ty v)" by (simp add: enc_Envelope_def)
  with parse_print_coerce [OF this] assms show ?thesis by (simp add: enc_Envelope_def)
qed

lemma fits_SubmitMsg: "fits 9 (enc_SubmitMsg m)"
proof -
  have "fits 8 (enc_Changeset c)" for c by (rule fits_mono [OF fits_Changeset]) simp
  then show ?thesis by (simp add: enc_SubmitMsg_def show_int_literal)
qed

lemma coerce_SubmitMsg: "json_SubmitMsg m \<Longrightarrow> coerce (enc_SubmitMsg m) = enc_SubmitMsg m"
  by (simp add: enc_SubmitMsg_def json_SubmitMsg_iff json_Changeset_def)

lemma submit_text:
  "json_SubmitMsg m \<Longrightarrow>
     parse_json (print (enc_Envelope ''SUBMIT'' (enc_SubmitMsg m))) = Some (enc_Envelope ''SUBMIT'' (enc_SubmitMsg m))"
  by (intro parse_client_message fits_SubmitMsg coerce_SubmitMsg) simp_all

lemma connect_text:
  "valid_utf8 (con_ClientID k) \<Longrightarrow>
     parse_json (print (enc_Envelope ''CONNECT'' (enc_ConnectMsg k))) = Some (enc_Envelope ''CONNECT'' (enc_ConnectMsg k))"
  by (intro parse_client_message) (simp_all add: enc_ConnectMsg_def show_int_literal)

lemma submit_text_dispatched:
  "json_SubmitMsg m \<Longrightarrow>
     dispatch (print (enc_Envelope ''SUBMIT'' (enc_SubmitMsg m))) connected = (if connected then OnSubmit m else Ignored)"
  by (simp add: dispatch_Envelope [OF submit_text] dec_enc_SubmitMsg decoded_def)

text \<open>The text of the bootstrap goroutine, as every replica decodes it.\<close>

lemma bootstrap_decoded:
  assumes "MarshalEntry (bootstrap_entry t) = Some data" and "int (length t) < 2 ^ 63" and "t \<noteq> []"
  shows "UnmarshalEntry data = Some ((bootstrap_entry t)\<lparr>entry_Changeset := (MakeInsert 0 0 t)\<lparr>Ops := [insertOp (to_valid t)]\<rparr>\<rparr>)"
proof -
  have c: "MakeInsert 0 0 t = \<lparr>OldLen = 0, NewLen = go_len t, Ops = [insertOp t]\<rparr>"
    using assms(2) by (simp add: MakeInsert_def Let_def go_len_def wrap64_def)
  have "command_fits (bootstrap_entry t)"
    using assms(2) by (simp add: command_fits_def bootstrap_entry_def c changeset_fits_def op_fits_def insertOp_def in_int64_def
        go_len_def)
  moreover have "valid_utf8 ''system-bootstrap''" by (rule ascii_valid_utf8) simp
  ultimately show ?thesis
    using UnmarshalEntry_MarshalEntry [OF _ assms(1)]
    by (simp add: sent_command_def bootstrap_entry_def sent_Changeset_def sent_Op_def insertOp_def op_of_name_def c)
qed

section \<open>Properties\<close>

text \<open>
  C6. From the socket to the state machines. Whatever text a client sends: when \<^verbatim>\<open>readPump\<close> takes it
  for a submission and \<^verbatim>\<open>handleSubmit\<close> proposes bytes to Raft, then the client has connected, the
  node is leader, the changeset validates, and every state machine that is handed these bytes acts on
  exactly the submission that was received.
\<close>

theorem submission_reaches_state_machine:
  assumes "dispatch raw connected = OnSubmit m"
    and "handleSubmit enc MarshalEntry isLeader leader c m n = Some (Propose data)"
  shows "connected \<and> isLeader \<and> Validate (sub_Changeset m) = None \<and>
    Apply UnmarshalEntry sm data = applyEntry sm (submit_entry m)"
proof -
  have m: "connected" "json_SubmitMsg m" using dispatched_submission [OF assms(1)] by simp_all
  then have "UnmarshalEntry data = Some (submit_entry m)"
    using handleSubmit_proposes [OF assms(2)] json_command_roundtrip by (simp add: json_SubmitMsg_def)
  then show ?thesis using handleSubmit_proposes [OF assms(2)] m by (simp add: Apply_def)
qed

definition ex_submit :: SubmitMsg where
  "ex_submit = \<lparr>sub_ClientID = ''ann'', sub_SubmissionID = 1, sub_BaseRev = 0, sub_Changeset = MakeInsert 0 0 ''hi''\<rparr>"

lemma ex_submit_json: "json_SubmitMsg ex_submit"
proof -
  have "valid_utf8 ''ann''" "valid_utf8 ''hi''" by (rule ascii_valid_utf8, simp)+
  then show ?thesis
    by (simp add: json_SubmitMsg_iff ex_submit_def json_Changeset_iff json_Op_iff MakeInsert_def insertOp_def
        op_of_name_def Let_def go_len_def wrap64_def in_int64_def)
qed

lemma ex_submit_valid: "Validate (sub_Changeset ex_submit) = None"
  by (simp add: ex_submit_def Validate_def MakeInsert_def insertOp_def Let_def go_len_def wrap64_def)

theorem submission_reaches_state_machine_witness:
  "dispatch (print (enc_Envelope ''SUBMIT'' (enc_SubmitMsg ex_submit))) True = OnSubmit ex_submit \<and>
   (\<exists>data. handleSubmit (\<lambda>_. None) MarshalEntry True [] 0 ex_submit NewNode = Some (Propose data) \<and>
     Apply UnmarshalEntry (NewDocumentStateMachine []) data =
       applyEntry (NewDocumentStateMachine []) (submit_entry ex_submit))"
proof -
  obtain data where data: "handleSubmit (\<lambda>_. None) MarshalEntry True [] 0 ex_submit NewNode = Some (Propose data)"
    by (simp add: handleSubmit_def ex_submit_valid MarshalEntry_def Let_def)
  have d: "dispatch (print (enc_Envelope ''SUBMIT'' (enc_SubmitMsg ex_submit))) True = OnSubmit ex_submit"
    using submit_text_dispatched [OF ex_submit_json, of True] by simp
  from submission_reaches_state_machine [OF d data, of "NewDocumentStateMachine []"] d data
  show ?thesis by auto
qed

text \<open>
  C24. The texts on the socket. A CONNECT or SUBMIT message that a client writes as JSON is
  taken for that message (a submission only after CONNECT); every message of the server is a text
  that a JSON parser reads back as the tree of its type and payload, where a string that is not valid
  UTF-8, such as a head text, has become valid UTF-8.
\<close>

theorem websocket_texts_roundtrip:
  assumes "json_SubmitMsg m" and "valid_utf8 (con_ClientID k)" and "in_int64 (LastKnownRev k)"
    and "marshal_ServerMsg texts msg = Some b"
  shows "dispatch (print (enc_Envelope ''SUBMIT'' (enc_SubmitMsg m))) connected = (if connected then OnSubmit m else Ignored) \<and>
    dispatch (print (enc_Envelope ''CONNECT'' (enc_ConnectMsg k))) connected = OnConnect k \<and>
    parse_json b = Some (coerce (enc_Envelope (msg_type msg) (enc_ServerMsg texts msg)))"
proof -
  have "fits 10000 (enc_Envelope (msg_type msg) (enc_ServerMsg texts msg))" by (rule fits_mono [OF fits_ServerMsg]) simp
  with assms(4) have "parse_json b = Some (coerce (enc_Envelope (msg_type msg) (enc_ServerMsg texts msg)))"
    by (auto simp: marshal_ServerMsg_def parse_print_coerce)
  moreover have "dispatch (print (enc_Envelope ''CONNECT'' (enc_ConnectMsg k))) connected = OnConnect k"
    using assms(3) by (simp add: dispatch_Envelope [OF connect_text [OF assms(2)]] dec_enc_ConnectMsg decoded_def)
  ultimately show ?thesis by (simp add: submit_text_dispatched assms(1))
qed

theorem websocket_texts_roundtrip_witness:
  "dispatch (print (enc_Envelope ''CONNECT'' (enc_ConnectMsg zeroConnectMsg))) False = OnConnect zeroConnectMsg \<and>
     dispatch (print (enc_Envelope ''SUBMIT'' (enc_SubmitMsg ex_submit))) False = Ignored"
  using websocket_texts_roundtrip [OF ex_submit_json, of zeroConnectMsg "\<lambda>_. []" "AckMsg 1" _ False]
  by (simp add: zeroConnectMsg_def marshal_ServerMsg_def)

text \<open>
  C40. The server counts bytes and \<^verbatim>\<open>web/client.js\<close> UTF-16 code units: every submission that inserts a
  character outside ASCII, with its \<^verbatim>\<open>new_len\<close> as the browser counts it, is answered with error 400.
\<close>

theorem non_ascii_insert_is_rejected:
  assumes "dispatch raw connected = OnSubmit m" and "op \<in> set (Ops (sub_Changeset m))" and "non_ascii op"
    and "NewLen (sub_Changeset m) = js_new_len (Ops (sub_Changeset m))"
    and "src_len (edits (Ops (sub_Changeset m))) < 2 ^ 63" and "dst_len (edits (Ops (sub_Changeset m))) < 2 ^ 63"
  shows "handleSubmit enc marshal True leader c m n = map_option Answered (send enc c (ErrorMsg 400) n)"
proof -
  have "json_Changeset (sub_Changeset m)" using dispatched_submission [OF assms(1)] by (simp add: json_SubmitMsg_iff)
  then have "list_all (\<lambda>op. valid_utf8 (op_Chars op)) (Ops (sub_Changeset m))"
    by (simp add: json_Changeset_iff json_Op_iff list_all_iff)
  from utf16_counts_rejected [OF this assms(2-6)] show ?thesis by (simp add: handleSubmit_def)
qed

definition ex_accent :: SubmitMsg where
  "ex_accent = \<lparr>sub_ClientID = ''ann'', sub_SubmissionID = 1, sub_BaseRev = 0,
     sub_Changeset = \<lparr>OldLen = 0, NewLen = 1, Ops = [insertOp (encode_runes [233])]\<rparr>\<rparr>"

lemma ex_accent_json: "json_SubmitMsg ex_accent"
proof -
  have "valid_utf8 ''ann''" by (rule ascii_valid_utf8) simp
  moreover have "valid_utf8 (encode_runes [233])" by (rule valid_utf8_encode_runes) (simp add: valid_rune_def)
  ultimately show ?thesis
    by (simp add: json_SubmitMsg_iff ex_accent_def json_Changeset_iff json_Op_iff insertOp_def op_of_name_def in_int64_def
        del: encode_runes_simps)
qed

theorem non_ascii_insert_is_rejected_witness:
  "handleSubmit (\<lambda>_. None) MarshalEntry True [] 0 ex_accent NewNode = Some (Answered NewNode)"
proof -
  let ?op = "insertOp (encode_runes [233])"
  have r: "runes (encode_runes [233]) = [233]" by (rule runes_encode_runes) (simp add: valid_rune_def)
  have d: "dispatch (print (enc_Envelope ''SUBMIT'' (enc_SubmitMsg ex_accent))) True = OnSubmit ex_accent"
    using submit_text_dispatched [OF ex_accent_json, of True] by simp
  have ops: "Ops (sub_Changeset ex_accent) = [?op]" "NewLen (sub_Changeset ex_accent) = 1" by (simp_all add: ex_accent_def)
  have "non_ascii ?op" using r by (simp add: non_ascii_def insertOp_def)
  moreover have "js_new_len [?op] = 1" using r by (simp add: js_new_len_def js_span_def utf16_len_def insertOp_def)
  moreover have "src_len (edits [?op]) < 2 ^ 63" "dst_len (edits [?op]) < 2 ^ 63"
    by (simp_all add: encode_rune_def encode_valid_def valid_rune_def)
  ultimately show ?thesis
    using non_ascii_insert_is_rejected [OF d, of ?op "\<lambda>_. None" MarshalEntry "[]" 0 NewNode] ops by (simp add: send_def)
qed

text \<open>
  The initial text. When the entry of the bootstrap goroutine is the first one applied, every replica
  gets revision 1 with the initial text as JSON carries it: the same text if it is valid UTF-8, and
  a longer one otherwise.
\<close>

theorem bootstrap_text_on_replicas:
  assumes "MarshalEntry (bootstrap_entry t) = Some data" and "int (length t) < 2 ^ 63" and "t \<noteq> []"
  shows "\<exists>sm r. Apply UnmarshalEntry (NewDocumentStateMachine []) data = Some (Ok (sm, Some r)) \<and>
    headRev sm = 1 \<and> headText sm = to_valid t \<and>
    (if valid_utf8 t then headText sm = t else length t < length (headText sm))"
proof -
  let ?c = "(MakeInsert 0 0 t)\<lparr>Ops := [insertOp (to_valid t)]\<rparr>"
  have c: "OldLen ?c = 0" "NewLen ?c = go_len t"
    using assms(2) by (simp_all add: MakeInsert_def Let_def go_len_def wrap64_def)
  have "ApplyChangeset [] ?c = Ok (to_valid t)"
    using c by (simp add: ApplyChangeset_def insertOp_def go_len_def)
  moreover have "\<not> valid_utf8 t \<Longrightarrow> length t < length (to_valid t)"
    using to_valid_length [of t] by (auto simp: to_valid_eq)
  ultimately show ?thesis
    by (simp add: Apply_def bootstrap_decoded [OF assms] applyEntry_def NewDocumentStateMachine_def bootstrap_entry_def
        transform_loop.simps wrap64_def)
qed

theorem bootstrap_text_on_replicas_witness:
  "\<exists>data sm r. MarshalEntry (bootstrap_entry ''hello'') = Some data \<and>
     Apply UnmarshalEntry (NewDocumentStateMachine []) data = Some (Ok (sm, Some r)) \<and> headText sm = ''hello''"
proof -
  have v: "valid_utf8 ''hello''" by (rule ascii_valid_utf8) simp
  obtain data where d: "MarshalEntry (bootstrap_entry ''hello'') = Some data" by (simp add: MarshalEntry_def)
  from bootstrap_text_on_replicas [OF d] v d show ?thesis by auto
qed

end
