(* ===== verification/Spec2Isabelle.thy ===== *)
theory Spec2Isabelle
  imports OT_Diff Raft_Safety Raft_Loop Inmem_Transport Wire_Raft Wire_Server
begin

text \<open>
  \<^bold>\<open>A replicated text editor: operational transformation over Raft.\<close>

  The program is a cluster of Go servers (\<^verbatim>\<open>src/cmd\<close>, \<^verbatim>\<open>src/internal\<close>) that keep one text
  document. A browser sends a changeset over a WebSocket to the leader; the leader proposes it
  through its own Raft implementation; every server that learns that the entry is committed gives it
  to its document state machine, which transforms the changeset over the revisions the author had not
  seen (\<^verbatim>\<open>Follow\<close>), applies it, and calls the server back, which acknowledges the author and
  broadcasts the transformed changeset to the other clients.

  \<^bold>\<open>Parts, and the theories that model them.\<close>

  \<^item> \<^verbatim>\<open>Go_Prelude\<close>: Go's \<^verbatim>\<open>int\<close> and \<^verbatim>\<open>uint64\<close> arithmetic (\<open>wrap64\<close>, \<open>u64\<close>), slices, and the result
    type \<open>go_result\<close> with \<open>Ok\<close>, \<open>Err\<close> and \<open>Panic\<close>. \<^verbatim>\<open>Go_UTF8\<close>: conversion between strings and runes.
  \<^item> \<^verbatim>\<open>OT_Changeset\<close> (\<^verbatim>\<open>ot/changeset.go\<close>, \<^verbatim>\<open>ot/apply.go\<close>): changesets, their validation, constructors
    and application. \<^verbatim>\<open>OT_Cursor\<close>: the cursor \<^verbatim>\<open>opSlice\<close> with \<^verbatim>\<open>peek\<close> and \<^verbatim>\<open>consume\<close>, shared by
    \<^verbatim>\<open>OT_Compose\<close> (\<^verbatim>\<open>ot/compose.go\<close>) and \<^verbatim>\<open>OT_Follow\<close> (\<^verbatim>\<open>ot/follow.go\<close>). \<^verbatim>\<open>OT_Diff\<close> (\<^verbatim>\<open>ot/diff.go\<close>).
  \<^item> \<^verbatim>\<open>Doc_FSM\<close> (\<^verbatim>\<open>fsm/types.go\<close>, \<^verbatim>\<open>fsm/fsm.go\<close>): the document state machine; \<open>applyEntry\<close> is
    \<^verbatim>\<open>Apply\<close> after the JSON decoding.
  \<^item> \<^verbatim>\<open>Raft_Types\<close> (\<^verbatim>\<open>raft/types.go\<close>, \<^verbatim>\<open>config.go\<close>, \<^verbatim>\<open>future.go\<close>): RPCs, log entries, configuration,
    futures, and the interfaces \<^verbatim>\<open>LogStore\<close> and \<^verbatim>\<open>StableStore\<close> as records of operations.
    \<^verbatim>\<open>Raft_Store\<close> (stores of \<^verbatim>\<open>raft/inmem.go\<close>): the locales \<open>log_store\<close> and \<open>stable_store\<close> state what
    Raft relies on; both stores are interpreted. \<^verbatim>\<open>Bolt_Store\<close> (\<^verbatim>\<open>store/boltstore.go\<close>) implements the
    same interface on bbolt.
  \<^item> \<^verbatim>\<open>Raft_Node\<close> (\<^verbatim>\<open>raft/raft.go\<close>, \<^verbatim>\<open>election.go\<close>, \<^verbatim>\<open>replication.go\<close>): the state of a node and one
    definition per critical section. \<^verbatim>\<open>Raft_Replication\<close>, \<^verbatim>\<open>Raft_Apply\<close> and \<^verbatim>\<open>Raft_Election\<close> prove
    what they do. \<^verbatim>\<open>Raft_Loop\<close>: the goroutines of a node, with the loops of \<^verbatim>\<open>run\<close> and of the three roles
    as a program counter, and that they only make the steps of the other theories.
  \<^item> The cluster: \<^verbatim>\<open>Election_Spec\<close> is the abstract election protocol, which \<^verbatim>\<open>Raft_Cluster\<close> (nodes and
    network) refines; \<^verbatim>\<open>Consensus_Spec\<close> adds the logs and the commit indices, and \<^verbatim>\<open>Raft_System\<close> proves that
    the nodes with their stores implement it. \<^verbatim>\<open>Raft_Run\<close> is a concrete run of three servers,
    \<^verbatim>\<open>Raft_Safety\<close> has what follows for every run.
  \<^item> \<^verbatim>\<open>Raft_Transport\<close> (\<^verbatim>\<open>raft/transport.go\<close>) and \<^verbatim>\<open>Inmem_Transport\<close> (transport of \<^verbatim>\<open>raft/inmem.go\<close>).
  \<^item> \<^verbatim>\<open>Server_Node\<close> (\<^verbatim>\<open>server/websocket.go\<close>): the client registry, the handlers and the commit callback.
    \<^verbatim>\<open>Server_Setup\<close> (\<^verbatim>\<open>server/cluster.go\<close>) puts a server together; \<^verbatim>\<open>Server_Main\<close>
    (\<^verbatim>\<open>cmd/server/main.go\<close>) reads its options, starts it and proposes the initial text.
  \<^item> The texts: \<^verbatim>\<open>Go_JSON\<close> has the printer and the parser of \<^verbatim>\<open>encoding/json\<close> and \<^verbatim>\<open>strconv\<close>, \<^verbatim>\<open>Go_Decode\<close> the
    decoding of a tree into Go variables and \<^verbatim>\<open>encoding/base64\<close>. Over them \<^verbatim>\<open>Wire_Entry\<close> has the JSON of changesets
    and commands (\<^verbatim>\<open>MarshalEntry\<close>, \<^verbatim>\<open>UnmarshalEntry\<close>), \<^verbatim>\<open>Wire_Raft\<close> that of RPCs and log entries, \<^verbatim>\<open>Wire_Server\<close> the
    messages between browser and server and the dispatch of \<^verbatim>\<open>readPump\<close>; \<^verbatim>\<open>Server_Main\<close> decodes the
    configuration file.
  \<^item> This theory: the document state machine behind Raft and BoltStore.

  \<^bold>\<open>How the code is modelled.\<close> Pure functions are HOL functions. A function that locks, works
  and unlocks is a function on the record of the state; a function that releases the lock in between
  is split there (\<^verbatim>\<open>replicateOnce\<close> into request and response, \<^verbatim>\<open>handleSubmit\<close> before and after
  the future). The select loops of the goroutines are step relations: \<open>run_step\<close> and \<open>proc_step\<close> with
  the place each loop is at, \<open>local_step\<close> and \<open>node_step\<close> of one node without it, \<open>cstep\<close> and
  \<open>rstep\<close> of the cluster, \<open>sstep\<close> of the WebSocket server; timers and scheduling are
  nondeterminism. Panics and endless loops are values (\<open>Panic\<close>, \<open>None\<close>), so theorems that promise a
  result also promise that there is neither. Loops are structural recursion, \<^verbatim>\<open>function\<close> with a
  measure, or \<^verbatim>\<open>partial_function\<close> where the Go loop may not end (\<^verbatim>\<open>Compose\<close>, \<^verbatim>\<open>Follow\<close>, the cursor
  loop of \<^verbatim>\<open>DeleteRange\<close>); those are proved to return under the stated conditions. Log indices
  and terms are \<open>nat\<close> with the wrap-around of \<^verbatim>\<open>uint64\<close> written out; document lengths are \<open>int\<close>
  with \<open>wrap64\<close>.

  \<^bold>\<open>Bounds and fuel.\<close> \<open>catch_up\<close> takes the number of rounds as fuel; the proof shows that
  \<^verbatim>\<open>nextIndex\<close> many rounds are enough, because every refused round lowers it. Logs are shorter than
  \<open>2 ^ 64 - 1\<close> entries (\<open>2 ^ 62\<close> where they also count revisions), texts than \<open>2 ^ 63\<close> bytes, and an
  election starts only while the next term fits into 64 bits: beyond these the Go counters wrap.

  \<^bold>\<open>Parameters.\<close> bbolt (the record \<open>Bolt\<close> with its laws \<open>bolt_ok\<close>), the network (outcomes of dial,
  accept, read and write, the bytes that arrive), the operating system in \<^verbatim>\<open>SetupRaft\<close> and \<^verbatim>\<open>main\<close>,
  \<^verbatim>\<open>time.ParseDuration\<close>. Each theorem that relies on one has a witness with a concrete instance. The
  handlers also take their encoders and decoders as arguments (\<open>marshal\<close>, \<open>unmarshal\<close>, \<open>enc\<close>, the record
  \<open>Codec\<close>), so that what does not depend on JSON is proved for any encoding; the \<^verbatim>\<open>Wire\<close> theories
  supply the functions of the program, and their round trips are proved, not assumed. Nil and empty
  slices are one value of the model, and the texts of error messages are an argument.

  \<^bold>\<open>What is shown.\<close>

  \<^item> Operational transformation: composition is sequential application, transformation converges
    for canonical changesets, a diff produces its new text with a longest common subsequence,
    validation is exact; and where the code falls short (adjacent inserts, empty inserts, wrap-around).
  \<^item> Document: the cached text is the replay of the revision log, entries of a client apply at most
    once, valid submissions are applied, the author who rebases ends with the servers' text; and
    the inputs that panic every replica.
  \<^item> Raft, the handlers: \<^verbatim>\<open>handleAppendEntries\<close> refines a merge on logs and catches a follower up;
    \<^verbatim>\<open>advanceCommitIndex\<close> commits exactly what a majority has, of the current term; committed entries
    are applied in order and once; terms and votes survive crashes.
  \<^item> Raft, the cluster, in every interleaving with lost, delayed, duplicated and reordered messages,
    failed writes to the log, crashes and restarts: at most one leader per term, log matching, leader
    completeness and state machine safety, as consequences of a forward simulation between the
    nodes and the abstract protocol. The races of the code that the protocol does not have are theorems:
    the stale vote, the second vote, the stale acknowledgement, the late no-op entry and the false
    acknowledgement of a deposed leader.
  \<^item> Raft, the goroutines: the loops make only the steps above, no future stays pending outside the
    loop of the leader, and a shutdown lets the main goroutine return.
  \<^item> Storage and transport: BoltStore and the in-memory store implement the same log, framing and
    unframing are inverse, an RPC over TCP is a call of the handler, the size limit that can
    strand a follower.
  \<^item> Texts: parsing inverts printing, up to the replacement of bytes that are not UTF-8; an RPC over TCP
    and an entry in the database come back as they were sent; whatever arrives on a WebSocket, the bytes
    proposed for a submission are decoded by every replica to the submission that was received; and what goes
    wrong where browser and server count lengths differently.
  \<^item> Server: no reachable state uses a closed channel, the broadcasts of a run of the state machine
    replay the document, a rejected configuration leaves nothing open, the peers flag is read back
    exactly and a server comes up if and only if it is one of its peers; and two races on the registry
    and the callbacks.
  \<^item> End to end (below): in every run of the cluster the documents of two servers agree on what both
    have applied, and servers that replay matching logs from their databases show the same document.

  \<^bold>\<open>Taken as atomic.\<close> In \<open>cstep\<close>, a follower's timeout together with the election it starts, and the
  test of the role in \<^verbatim>\<open>runCandidate\<close> together with the vote it then receives;
  \<^verbatim>\<open>Raft_Election\<close> shows what happens otherwise. In \<open>rstep\<close>, on which the safety of the logs rests, also
  winning an election together with the initialisation of \<^verbatim>\<open>r.peers\<close>; the no-op entry is appended while
  the node is leader, and a successful answer to AppendEntries counts only while the node leads
  the term of the request. \<^verbatim>\<open>Raft_Safety\<close> shows that without the last two the logs do not match and a
  minority can commit. The stable store is assumed to store what it is given: \<^verbatim>\<open>persistState\<close> only logs
  an error. In \<open>run_select\<close>, handling an RPC together with the test of the role that follows it.

  \<^bold>\<open>Not modelled.\<close> Logging, \<^verbatim>\<open>ServerState.String\<close> and the texts of errors; the upgrade of a WebSocket, which
  only starts the handler that is modelled; when a timer fires; the flag package and the routing of HTTP
  requests in \<^verbatim>\<open>main.go\<close>, with the text of \<^verbatim>\<open>/health\<close>; the JavaScript client, the demo scripts and the Go
  tests. That a cluster elects a leader in the end depends on timing and is not stated.
\<close>

section \<open>The document state machine behind Raft\<close>

text \<open>
  \<^verbatim>\<open>DocumentStateMachine.Apply\<close> as the \<^verbatim>\<open>FSM\<close> of a Raft node; \<open>None\<close> is a panic or a call that does
  not return.
\<close>

definition doc_apply ::
    "(string \<Rightarrow> RaftLogEntry option) \<Rightarrow> DocumentStateMachine \<Rightarrow> string \<Rightarrow>
     (DocumentStateMachine \<times> ApplyResult option) option" where
  "doc_apply unmarshal sm data =
     (case Apply unmarshal sm data of Some (Ok res) \<Rightarrow> Some res | _ \<Rightarrow> None)"

lemma applyEntry_extends:
  "applyEntry sm en = Some (Ok (sm', r)) \<Longrightarrow> prefix (revisionLog sm) (revisionLog sm')"
  by (erule applyEntry_cases) (simp_all add: prefix_def)

lemma doc_apply_keeps:
  assumes "doc_apply unmarshal sm data = Some (sm', r)" and "fsm_inv init sm" and "length (revisionLog sm) < 2 ^ 62"
  shows "fsm_inv init sm' \<and> prefix (revisionLog sm) (revisionLog sm') \<and>
    length (revisionLog sm') \<le> Suc (length (revisionLog sm))"
proof (cases "unmarshal data")
  case None
  with assms show ?thesis by (auto simp: doc_apply_def Apply_def)
next
  case (Some en)
  with assms(1) have "applyEntry sm en = Some (Ok (sm', r))"
    by (auto simp: doc_apply_def Apply_def split: option.splits go_result.splits)
  with applyEntry_inv [OF assms(2) this assms(3)] applyEntry_extends applyEntry_log_length show ?thesis by blast
qed

lemma apply_datas_doc:
  "apply_datas (doc_apply unmarshal) sm ds = Some sm' \<Longrightarrow> fsm_inv init sm \<Longrightarrow>
     length (revisionLog sm) + length ds < 2 ^ 62 \<Longrightarrow>
     fsm_inv init sm' \<and> prefix (revisionLog sm) (revisionLog sm') \<and>
     length (revisionLog sm') \<le> length (revisionLog sm) + length ds"
proof (induction ds arbitrary: sm)
  case (Cons d ds)
  show ?case
  proof (cases "d = []")
    case True
    with Cons.prems Cons.IH [of sm] show ?thesis by simp
  next
    case False
    with Cons.prems(1) obtain sm1 r where d: "doc_apply unmarshal sm d = Some (sm1, r)"
      "apply_datas (doc_apply unmarshal) sm1 ds = Some sm'"
      by (auto simp: bind_eq_Some_conv)
    have "length (revisionLog sm) < 2 ^ 62" using Cons.prems(3) by simp
    note s = doc_apply_keeps [OF d(1) Cons.prems(2) this]
    with Cons.prems(3) have "length (revisionLog sm1) + length ds < 2 ^ 62" by simp
    note t = Cons.IH [OF d(2) conjunct1 [OF s] this]
    from s t have "prefix (revisionLog sm) (revisionLog sm')" by (blast intro: prefix_order.trans)
    with s t show ?thesis by simp
  qed
qed simp

lemma fresh_applied_ok:
  "lastApplied r = 0 \<Longrightarrow> fsm r = init \<Longrightarrow> applied_ok fapply init L r"
  by (simp add: applied_ok_def)

lemma matching_prefix:
  assumes "log_matching L1 L2" and "0 < k" and "k \<le> length L1" and "k \<le> length L2"
    and "Term (L1 ! (k - 1)) = Term (L2 ! (k - 1))"
  shows "take k L1 = take k L2"
  using log_matchingD [OF assms(1), of "k - 1"] assms(2-5) by simp

section \<open>Examples\<close>

text \<open>A server on a database that holds the entries \<open>es\<close>, before it replays them.\<close>

definition ex_db :: "LogEntry list \<Rightarrow> list_db" where
  "ex_db es = fst (bolt_StoreLogs list_bolt marshal_LogEntry (\<lambda>_. []) es)"

definition ex_server ::
    "LogEntry list \<Rightarrow> nat \<Rightarrow> (list_db, InmemStableStore, DocumentStateMachine, ApplyResult) RaftNode" where
  "ex_server es commit =
     \<lparr>config = ex_config ''a'', currentTerm = 1, votedFor = [], logStore = ex_db es,
      stableStore = NewInmemStableStore, state = Follower, commitIndex = commit, lastApplied = 0, peers = [],
      leaderID = [], leaderAddr = [], fsm = NewDocumentStateMachine ''x'', pendingFutures = [],
      futures = (\<lambda>_. newApplyFuture), nextFuture = 0, applyCh = [], commitNotifyCh = False, shutdownCh = False\<rparr>"

abbreviation ex_store :: "list_db LogStore" where
  "ex_store \<equiv> typed (bolt_log list_bolt marshal_LogEntry unmarshal_LogEntry)"

lemma ex_db_stored:
  assumes "list_all entry_fits es"
  shows "StoreLogs ex_store (\<lambda>_. []) es = (ex_db es, None)"
proof -
  have "\<exists>d'. put_logs list_bolt marshal_LogEntry es d = Some d'" for d
    by (induction es arbitrary: d) (simp_all add: list_bolt_def marshal_LogEntry_def)
  then obtain d' where "put_logs list_bolt marshal_LogEntry es (\<lambda>_. []) = Some d'" by blast
  moreover have "db_open list_bolt d" "commit_ok list_bolt d" for d by (simp_all add: list_bolt_def)
  ultimately show ?thesis using assms
    by (simp add: ex_db_def typed_def bolt_log_def bolt_StoreLogs_def db_Update_def)
qed

lemma ex_db_holds:
  assumes "consecutive 0 es" and "list_all entry_fits es"
  shows "bolt_holds list_bolt list_bmap unmarshal_LogEntry (ex_db es) es"
proof -
  note ls = bolt_log_store [OF list_bolt_ok log_json_ok] and hq = bolt_holds_eq [OF list_bolt_ok log_json_ok]
  have "bolt_holds list_bolt list_bmap unmarshal_LogEntry (\<lambda>_. []) []"
    by (auto simp: bolt_holds_def bolt_inv_def bolt_abs_def list_bmap_def represents_def list_bolt_def)
  then show ?thesis
    using log_store.StoreLogs_holds [OF ls, unfolded hq, of _ "[]", OF _ _ ex_db_stored [OF assms(2)]] assms(1) by simp
qed

lemma ex_db_get:
  assumes "consecutive 0 es" and "list_all entry_fits es" and "0 < i" and "i \<le> length es"
  shows "got (GetLog ex_store (ex_db es) i) = Some (es ! (i - 1))"
proof -
  note ls = bolt_log_store [OF list_bolt_ok log_json_ok] and hq = bolt_holds_eq [OF list_bolt_ok log_json_ok]
  show ?thesis
    using log_store.GetLog_holds [OF ls, unfolded hq, OF ex_db_holds [OF assms(1,2)] assms(3,4)] by (simp add: got_def)
qed

lemma doc_apply_examples:
  "doc_apply (\<lambda>_. Some bob_entry) (NewDocumentStateMachine ''x'') d = Some (run_fsm, Some bob_result)"
  "doc_apply (\<lambda>_. Some bob_entry) run_fsm d = Some (run_fsm, Some bob_dup_result)"
  by (simp_all add: doc_apply_def Apply_def run_bob run_bob_again)

section \<open>The stores of the program\<close>

text \<open>
  BoltStore keeps the contracts under which the cluster is safe, so the theorems about clusters
  (here and in \<^verbatim>\<open>Raft_Safety\<close>) hold for servers on BoltStore databases; the interpretation has their
  facts for the list implementation of bbolt.
\<close>

lemma bolt_raft_stores:
  assumes "bolt_ok bolt bmap" and "bolt_reliable bolt" and "json_ok marshal unmarshal"
  shows "raft_stores (typed (bolt_log bolt marshal unmarshal)) (bolt_inv bolt bmap unmarshal) (bolt_abs bmap unmarshal)
    (bolt_stable bolt)"
  using bolt_log_store [OF assms(1,3)] bolt_stable_store [OF assms(1,2)] by (rule raft_stores.intro)

interpretation list_sys: raft_stores ex_store "bolt_inv list_bolt list_bmap unmarshal_LogEntry" "bolt_abs list_bmap unmarshal_LogEntry"
    "bolt_stable list_bolt"
  by (rule bolt_raft_stores [OF list_bolt_ok list_bolt_reliable log_json_ok])

section \<open>Properties\<close>

text \<open>
  All servers show the same document. Two servers on BoltStore databases, restarted with an
  empty document state machine or started for the first time, replay their logs up to their commit
  indices; the logs match and have the same term at the smaller index. Then the revision history of
  the one that is behind is a prefix of the other's, with equal commit indices the documents are
  equal, and each server's text is its revision history applied to the initial text.
\<close>

theorem replicated_documents_agree:
  assumes "bolt_ok bolt bmap" and "json_ok marshal unmarshal"
    and "bolt_holds bolt bmap unmarshal (logStore r1) L1" and "bolt_holds bolt bmap unmarshal (logStore r2) L2"
    and "length L1 < 2 ^ 62" and "length L2 < 2 ^ 62" and "log_matching L1 L2"
    and "0 < commitIndex r1" and "commitIndex r1 \<le> commitIndex r2"
    and "commitIndex r1 \<le> length L1" and "commitIndex r2 \<le> length L2"
    and "Term (L1 ! (commitIndex r1 - 1)) = Term (L2 ! (commitIndex r1 - 1))"
    and "lastApplied r1 = 0" and "lastApplied r2 = 0"
    and "fsm r1 = NewDocumentStateMachine init" and "fsm r2 = NewDocumentStateMachine init"
    and "applyCommitted (typed (bolt_log bolt marshal unmarshal)) (doc_apply unm) r1 = Some r1'"
    and "applyCommitted (typed (bolt_log bolt marshal unmarshal)) (doc_apply unm) r2 = Some r2'"
  shows "prefix (revisionLog (fsm r1')) (revisionLog (fsm r2')) \<and>
    (commitIndex r1 = commitIndex r2 \<longrightarrow> fsm r1' = fsm r2') \<and>
    replay init (history (fsm r1')) = Some (headText (fsm r1')) \<and>
    replay init (history (fsm r2')) = Some (headText (fsm r2'))"
proof -
  note ls = bolt_log_store [OF assms(1,2)] and hq = bolt_holds_eq [OF assms(1,2)]
  let ?init = "NewDocumentStateMachine init"
  let ?run = "\<lambda>ds. apply_datas (doc_apply unm) ?init ds"
  have b: "length L1 < 2 ^ 64 - 1" "length L2 < 2 ^ 64 - 1" using assms(5,6) by simp_all
  have "applied_ok (doc_apply unm) ?init L1 r1'" "lastApplied r1' = commitIndex r1"
    using log_store.applyCommitted_holds [OF ls assms(3) [folded hq] assms(10) b(1) fresh_applied_ok [OF assms(13,15)] assms(17)]
      assms(13) by simp_all
  then have one: "?run (map Data (take (commitIndex r1) L1)) = Some (fsm r1')" by (simp add: applied_ok_def)
  have "applied_ok (doc_apply unm) ?init L2 r2'" "lastApplied r2' = commitIndex r2"
    using log_store.applyCommitted_holds [OF ls assms(4) [folded hq] assms(11) b(2) fresh_applied_ok [OF assms(14,16)] assms(18)]
      assms(14) by simp_all
  then have two: "?run (map Data (take (commitIndex r2) L2)) = Some (fsm r2')" by (simp add: applied_ok_def)
  have same: "take (commitIndex r1) L1 = take (commitIndex r1) L2"
    by (rule matching_prefix [OF assms(7,8,10) _ assms(12)]) (use assms(9,11) in simp)
  have split: "take (commitIndex r2) L2 = take (commitIndex r1) L2 @ drop (commitIndex r1) (take (commitIndex r2) L2)"
    using assms(9) by (metis append_take_drop_id min.absorb1 take_take)
  from two have rest: "apply_datas (doc_apply unm) (fsm r1') (map Data (drop (commitIndex r1) (take (commitIndex r2) L2))) = Some (fsm r2')"
    using one by (subst (asm) split) (simp add: apply_datas_append same)
  have "length (revisionLog ?init) = 0" by (simp add: NewDocumentStateMachine_def)
  with apply_datas_doc [OF one fsm_inv_init] apply_datas_doc [OF two fsm_inv_init] assms(5,6)
  have inv: "fsm_inv init (fsm r1')" "fsm_inv init (fsm r2')"
    and len: "length (revisionLog (fsm r1')) \<le> commitIndex r1" by simp_all
  have "prefix (revisionLog (fsm r1')) (revisionLog (fsm r2'))"
    using apply_datas_doc [OF rest inv(1)] len assms(6,9,11) by simp
  moreover have "fsm r1' = fsm r2'" if "commitIndex r1 = commitIndex r2"
    using rest that by simp
  ultimately show ?thesis using inv by (simp add: fsm_inv_def)
qed

theorem replicated_documents_agree_witness:
  "\<exists>r1' r2'.
     applyCommitted ex_store (doc_apply (\<lambda>_. Some bob_entry)) (ex_server [ex_entry 1 1 ''p''] 1) = Some r1' \<and>
     applyCommitted ex_store (doc_apply (\<lambda>_. Some bob_entry)) (ex_server [ex_entry 1 1 ''p'', ex_entry 2 1 ''q''] 2) = Some r2' \<and>
     prefix (revisionLog (fsm r1')) (revisionLog (fsm r2')) \<and> headText (fsm r1') = ''bx'' \<and>
     replay ''x'' (history (fsm r2')) = Some (headText (fsm r2'))"
proof -
  let ?L1 = "[ex_entry 1 1 ''p'']" and ?L2 = "[ex_entry 1 1 ''p'', ex_entry 2 1 ''q'']"
  let ?a = "\<lambda>_. Some bob_entry"
  have cons: "consecutive 0 ?L1" "consecutive 0 ?L2" by (simp_all add: consecutive_def upt_rec)
  have fits: "list_all entry_fits ?L1" "list_all entry_fits ?L2" by (simp_all add: entry_fits_def)
  note get1 = ex_db_get [OF cons(1) fits(1), of 1, simplified]
    and get2 = ex_db_get [OF cons(2) fits(2), of 1, simplified] ex_db_get [OF cons(2) fits(2), of 2, simplified]
  obtain r1' where r1: "applyCommitted ex_store (doc_apply ?a) (ex_server ?L1 1) = Some r1'" "fsm r1' = run_fsm"
    by (simp add: applyCommitted_def ex_server_def u64_def apply_one_def get1 doc_apply_examples)
  have upto: "[Suc 0..<3] = [Suc 0, 2]" by (simp add: upt_rec)
  obtain r2' where r2: "applyCommitted ex_store (doc_apply ?a) (ex_server ?L2 2) = Some r2'"
    by (simp add: applyCommitted_def ex_server_def u64_def upto apply_one_def get2 doc_apply_examples)
  have "log_matching ?L1 ?L2" by (simp add: log_matching_def)
  then have "prefix (revisionLog (fsm r1')) (revisionLog (fsm r2')) \<and>
      replay ''x'' (history (fsm r2')) = Some (headText (fsm r2'))"
    using replicated_documents_agree [OF list_bolt_ok log_json_ok _ _ _ _ _ _ _ _ _ _ _ _ _ _ r1(1) r2,
        of ?L1 ?L2 "''x''"] ex_db_holds [OF cons(1) fits(1)] ex_db_holds [OF cons(2) fits(2)]
    by (simp add: ex_server_def)
  with r1 r2 show ?thesis by (simp add: run_fsm_def)
qed



end
